(* ===== verification/Jos_Prelude.thy ===== *)
theory Jos_Prelude
  imports Main "HOL-Library.Word"
begin

unbundle bit_operations_syntax

text \<open>
  Shared vocabulary of the development: the machine integer types of \<open>inc/types.h\<close>
  as fixed-width words, a result type for code that may panic, and the generic
  lemmas on words, lists and results that the component theories use.

  Collections:
  \<^item> \<open>res_simps\<close>: unfolding of \<open>res_bind\<close> chains;
  \<^item> \<open>unat_simps\<close>: from word expressions to natural numbers.
\<close>

section \<open>Machine integers\<close>

text \<open>The integer types of \<open>inc/types.h\<close>. Signed types are read with \<^term>\<open>sint\<close>.\<close>

type_synonym u8 = "8 word"
type_synonym u16 = "16 word"
type_synonym u32 = "32 word"
type_synonym u64 = "64 word"

named_theorems res_simps
named_theorems unat_simps

section \<open>Results of code that may stop\<close>

text \<open>
  A C function that may panic is modelled by a value of the sum type: \<open>Inl e\<close> says
  that control does not come back to the caller, \<open>Inr x\<close> that the function returned.
\<close>

fun res_bind :: "'e + 'a \<Rightarrow> ('a \<Rightarrow> 'e + 'b) \<Rightarrow> 'e + 'b" where
  "res_bind (Inl e) f = Inl e"
| "res_bind (Inr x) f = f x"

lemma res_bind_Inr_iff [res_simps]:
  "res_bind m f = Inr y \<longleftrightarrow> (\<exists>x. m = Inr x \<and> f x = Inr y)"
  by (cases m) auto

lemma res_bind_Inl_iff [res_simps]:
  "res_bind m f = Inl e \<longleftrightarrow> m = Inl e \<or> (\<exists>x. m = Inr x \<and> f x = Inl e)"
  by (cases m) auto

lemma res_bind_assoc:
  "res_bind (res_bind m f) g = res_bind m (\<lambda>x. res_bind (f x) g)"
  by (cases m) auto

section \<open>Words as natural numbers\<close>

lemma unat_lt_2p32 [simp]: "unat (x :: u32) < 4294967296"
  using unsigned_less [where 'a=nat, of x] by simp

lemma unat_lt_2p16 [simp]: "unat (x :: u16) < 65536"
  using unsigned_less [where 'a=nat, of x] by simp

lemma sint_u32: "sint (x :: u32) = (if uint x < 2 ^ 31 then uint x else uint x - 2 ^ 32)"
proof -
  have b: "0 \<le> uint x" "uint x < 2 ^ 32" using uint_bounded [of x] by simp_all
  have "sint x = (uint x + 2 ^ 31) mod 2 ^ 32 - 2 ^ 31"
    by (simp add: sint_uint signed_take_bit_eq_take_bit_shift take_bit_eq_mod)
  moreover have "(uint x + 2 ^ 31) mod 2 ^ 32 = (if uint x < 2 ^ 31 then uint x + 2 ^ 31 else uint x - 2 ^ 31)"
  proof (cases "uint x < 2 ^ 31")
    case False
    hence "(uint x + 2 ^ 31) mod 2 ^ 32 = (uint x - 2 ^ 31) mod 2 ^ 32"
      using mod_add_self2 [of "uint x - 2 ^ 31" "2 ^ 32 :: int"] by (simp add: add.commute)
    thus ?thesis using False b by simp
  qed (use b in simp)
  ultimately show ?thesis by simp
qed

lemma sless_0_iff: "0 <s y \<longleftrightarrow> 0 < unat y \<and> unat y < 2 ^ 31" for y :: u32
proof -
  have i: "(0 < int n \<and> int n < 2 ^ 31) = (0 < n \<and> n < 2 ^ 31)" for n by auto
  have "0 <s y \<longleftrightarrow> 0 < uint y \<and> uint y < 2 ^ 31"
    using uint_bounded [of y] by (simp add: word_sless_alt sint_u32)
  also have "uint y = int (unat y)" by simp
  also have "(0 < int (unat y) \<and> int (unat y) < 2 ^ 31) = (0 < unat y \<and> unat y < 2 ^ 31)" by (rule i)
  finally show ?thesis .
qed

lemma mask_3FF: "(0x3FF :: u32) = mask 10"
  by (simp add: mask_eq_exp_minus_1)

lemma mask_FFF: "(0xFFF :: u32) = mask 12"
  by (simp add: mask_eq_exp_minus_1)

lemma unat_and_mask [unat_simps]:
  "unat (x AND mask n :: 'a::len word) = unat x mod 2 ^ n"
proof -
  have "unat (x AND mask n) = unat (take_bit n x)" by (simp only: take_bit_eq_mask)
  also have "\<dots> = take_bit n (unat x)" by (rule unsigned_take_bit_eq)
  finally show ?thesis by (simp only: take_bit_eq_mod)
qed

lemma unat_drop_bit_div [unat_simps]:
  "unat (drop_bit n x :: 'a::len word) = unat x div 2 ^ n"
proof -
  have "unat (drop_bit n x) = drop_bit n (take_bit LENGTH('a) (unat x))"
    by (rule unsigned_drop_bit_eq)
  also have "\<dots> = drop_bit n (unat x)"
    by (simp only: take_bit_nat_eq_self [OF unsigned_less])
  finally show ?thesis by (simp only: drop_bit_eq_div)
qed

lemma unat_add_no_carry:
  "unat a + unat b < 2 ^ LENGTH('a) \<Longrightarrow> unat (a + b :: 'a::len word) = unat a + unat b"
  by (simp add: unat_word_ariths)

lemma unat_mult_no_carry:
  "unat a * unat b < 2 ^ LENGTH('a) \<Longrightarrow> unat (a * b :: 'a::len word) = unat a * unat b"
  by (simp add: unat_word_ariths)

lemma unat_sub_no_borrow:
  "unat b \<le> unat a \<Longrightarrow> unat (a - b :: 'a::len word) = unat a - unat b"
  by (simp add: unat_sub word_le_nat_alt)

lemma unat_of_nat_small [unat_simps]:
  "n < 2 ^ LENGTH('a) \<Longrightarrow> unat (of_nat n :: 'a::len word) = n"
  by (simp add: unat_of_nat)

lemma unat_add_aligned:
  assumes "n dvd unat a" and "n dvd 2 ^ LENGTH('a)" and "unat b < n"
  shows "unat (a + b :: 'a::len word) = unat a + unat b"
proof -
  obtain k where k: "unat a = n * k" using assms(1) by blast
  obtain m where m: "2 ^ LENGTH('a) = n * m" using assms(2) by blast
  have "n * k < n * m" using k m unsigned_less [where 'a=nat, of a] by simp
  hence "k < m" by simp
  hence "n * k + n \<le> n * m"
    by (metis Suc_leI mult_Suc_right mult_le_mono2 add.commute)
  hence "unat a + unat b < 2 ^ LENGTH('a)" using k m assms(3) by simp
  thus ?thesis by (rule unat_add_no_carry)
qed

section \<open>List updates\<close>

lemma nth_list_update_if:
  "i < length xs \<Longrightarrow> xs[j := v] ! i = (if i = j then v else xs ! i)"
  by auto

end
