(* ===== verification/Jos_Mmu.thy ===== *)
theory Jos_Mmu
  imports Jos_Prelude
begin

text \<open>
  \<open>inc/types.h\<close>, \<open>inc/mmu.h\<close> and \<open>inc/memlayout.h\<close>: rounding, the decomposition of
  linear addresses, page table entry flags, segment and gate descriptors, and the
  constants of the virtual memory layout.
\<close>

section \<open>Rounding (inc/types.h)\<close>

definition ROUNDDOWN :: "u32 \<Rightarrow> u32 \<Rightarrow> u32" where
  "ROUNDDOWN a n = a - a mod n"

definition ROUNDUP :: "u32 \<Rightarrow> u32 \<Rightarrow> u32" where
  "ROUNDUP a n = ROUNDDOWN (a + n - 1) n"

section \<open>Linear addresses (inc/mmu.h)\<close>

definition PTXSHIFT :: nat where [simp]: "PTXSHIFT = 12"
definition PDXSHIFT :: nat where [simp]: "PDXSHIFT = 22"
definition PGSHIFT :: nat where [simp]: "PGSHIFT = 12"
definition PGSIZE :: u32 where [simp]: "PGSIZE = 4096"
definition NPDENTRIES :: u32 where [simp]: "NPDENTRIES = 1024"
definition NPTENTRIES :: u32 where [simp]: "NPTENTRIES = 1024"
definition PTSIZE :: u32 where [simp]: "PTSIZE = PGSIZE * NPTENTRIES"

definition PGNUM :: "u32 \<Rightarrow> u32" where
  "PGNUM la = drop_bit PTXSHIFT la"

definition PDX :: "u32 \<Rightarrow> u32" where
  "PDX la = drop_bit PDXSHIFT la AND 0x3FF"

definition PTX :: "u32 \<Rightarrow> u32" where
  "PTX la = drop_bit PTXSHIFT la AND 0x3FF"

definition PGOFF :: "u32 \<Rightarrow> u32" where
  "PGOFF la = la AND 0xFFF"

definition PGADDR :: "u32 \<Rightarrow> u32 \<Rightarrow> u32 \<Rightarrow> u32" where
  "PGADDR d t f = push_bit PDXSHIFT d OR push_bit PTXSHIFT t OR f"

section \<open>Page table entries (inc/mmu.h)\<close>

definition PTE_P :: u32 where [simp]: "PTE_P = 0x001"
definition PTE_W :: u32 where [simp]: "PTE_W = 0x002"
definition PTE_U :: u32 where [simp]: "PTE_U = 0x004"

definition PTE_ADDR :: "u32 \<Rightarrow> u32" where
  "PTE_ADDR pte = pte AND NOT 0xFFF"

text \<open>The test \<open>entry & PTE_P\<close> of the source.\<close>

definition present :: "u32 \<Rightarrow> bool" where
  "present pte \<longleftrightarrow> pte AND PTE_P \<noteq> 0"

section \<open>Segment descriptors (inc/mmu.h)\<close>

record Segdesc =
  sd_lim_15_0 :: "16 word"
  sd_base_15_0 :: "16 word"
  sd_base_23_16 :: "8 word"
  sd_type :: "4 word"
  sd_s :: "1 word"
  sd_dpl :: "2 word"
  sd_p :: "1 word"
  sd_lim_19_16 :: "4 word"
  sd_avl :: "1 word"
  sd_rsv1 :: "1 word"
  sd_db :: "1 word"
  sd_g :: "1 word"
  sd_base_31_24 :: "8 word"

definition SEG_NULL :: Segdesc where
  "SEG_NULL = \<lparr>sd_lim_15_0 = 0, sd_base_15_0 = 0, sd_base_23_16 = 0, sd_type = 0, sd_s = 0,
     sd_dpl = 0, sd_p = 0, sd_lim_19_16 = 0, sd_avl = 0, sd_rsv1 = 0, sd_db = 0, sd_g = 0,
     sd_base_31_24 = 0\<rparr>"

text \<open>Assigning to a bit field keeps the low bits of the value: \<^term>\<open>ucast\<close>.\<close>

definition SEG :: "u32 \<Rightarrow> u32 \<Rightarrow> u32 \<Rightarrow> u32 \<Rightarrow> Segdesc" where
  "SEG type base lim dpl = \<lparr>
     sd_lim_15_0 = ucast (drop_bit 12 lim AND 0xffff),
     sd_base_15_0 = ucast (base AND 0xffff),
     sd_base_23_16 = ucast (drop_bit 16 base AND 0xff),
     sd_type = ucast type, sd_s = 1, sd_dpl = ucast dpl, sd_p = 1,
     sd_lim_19_16 = ucast (drop_bit 28 lim),
     sd_avl = 0, sd_rsv1 = 0, sd_db = 1, sd_g = 1,
     sd_base_31_24 = ucast (drop_bit 24 base)\<rparr>"

definition SEG16 :: "u32 \<Rightarrow> u32 \<Rightarrow> u32 \<Rightarrow> u32 \<Rightarrow> Segdesc" where
  "SEG16 type base lim dpl = \<lparr>
     sd_lim_15_0 = ucast (lim AND 0xffff),
     sd_base_15_0 = ucast (base AND 0xffff),
     sd_base_23_16 = ucast (drop_bit 16 base AND 0xff),
     sd_type = ucast type, sd_s = 1, sd_dpl = ucast dpl, sd_p = 1,
     sd_lim_19_16 = ucast (drop_bit 16 lim),
     sd_avl = 0, sd_rsv1 = 0, sd_db = 1, sd_g = 0,
     sd_base_31_24 = ucast (drop_bit 24 base)\<rparr>"

text \<open>How the processor reads a descriptor: the base address, and the last valid offset,
  which is in units of 4 KB when the granularity bit is set.\<close>

definition seg_base :: "Segdesc \<Rightarrow> u32" where
  "seg_base d = ucast (sd_base_15_0 d) OR push_bit 16 (ucast (sd_base_23_16 d))
     OR push_bit 24 (ucast (sd_base_31_24 d))"

definition seg_limit :: "Segdesc \<Rightarrow> u32" where
  "seg_limit d = (let l = ucast (sd_lim_15_0 d) OR push_bit 16 (ucast (sd_lim_19_16 d))
     in if sd_g d = 1 then push_bit 12 l OR 0xfff else l)"

section \<open>Gate descriptors (inc/mmu.h)\<close>

record Gatedesc =
  gd_off_15_0 :: "16 word"
  gd_sel :: "16 word"
  gd_args :: "5 word"
  gd_rsv1 :: "3 word"
  gd_type :: "4 word"
  gd_s :: "1 word"
  gd_dpl :: "2 word"
  gd_p :: "1 word"
  gd_off_31_16 :: "16 word"

definition STS_T32A :: u32 where [simp]: "STS_T32A = 0x9"
definition STS_CG32 :: u32 where [simp]: "STS_CG32 = 0xC"
definition STS_IG32 :: u32 where [simp]: "STS_IG32 = 0xE"
definition STS_TG32 :: u32 where [simp]: "STS_TG32 = 0xF"

definition STA_X :: u32 where [simp]: "STA_X = 0x8"
definition STA_W :: u32 where [simp]: "STA_W = 0x2"
definition STA_R :: u32 where [simp]: "STA_R = 0x2"

definition SETGATE :: "Gatedesc \<Rightarrow> bool \<Rightarrow> u32 \<Rightarrow> u32 \<Rightarrow> u32 \<Rightarrow> Gatedesc" where
  "SETGATE gate istrap sel off dpl = gate\<lparr>
     gd_off_15_0 := ucast (off AND 0xffff),
     gd_sel := ucast sel,
     gd_args := 0,
     gd_rsv1 := 0,
     gd_type := ucast (if istrap then STS_TG32 else STS_IG32),
     gd_s := 0,
     gd_dpl := ucast dpl,
     gd_p := 1,
     gd_off_31_16 := ucast (drop_bit 16 off)\<rparr>"

definition SETCALLGATE :: "Gatedesc \<Rightarrow> u32 \<Rightarrow> u32 \<Rightarrow> u32 \<Rightarrow> Gatedesc" where
  "SETCALLGATE gate sel off dpl = gate\<lparr>
     gd_off_15_0 := ucast (off AND 0xffff),
     gd_sel := ucast sel,
     gd_args := 0,
     gd_rsv1 := 0,
     gd_type := ucast STS_CG32,
     gd_s := 0,
     gd_dpl := ucast dpl,
     gd_p := 1,
     gd_off_31_16 := ucast (drop_bit 16 off)\<rparr>"

definition gate_off :: "Gatedesc \<Rightarrow> u32" where
  "gate_off g = ucast (gd_off_15_0 g) OR push_bit 16 (ucast (gd_off_31_16 g))"

section \<open>The virtual memory layout (inc/memlayout.h)\<close>

definition GD_KT :: u32 where [simp]: "GD_KT = 0x08"
definition GD_KD :: u32 where [simp]: "GD_KD = 0x10"
definition GD_UT :: u32 where [simp]: "GD_UT = 0x18"
definition GD_UD :: u32 where [simp]: "GD_UD = 0x20"
definition GD_TSS0 :: u32 where [simp]: "GD_TSS0 = 0x28"

definition KERNBASE :: u32 where [simp]: "KERNBASE = 0xF0000000"
definition IOPHYSMEM :: u32 where [simp]: "IOPHYSMEM = 0x0A0000"
definition EXTPHYSMEM :: u32 where [simp]: "EXTPHYSMEM = 0x100000"
definition KSTACKTOP :: u32 where [simp]: "KSTACKTOP = KERNBASE"
definition KSTKSIZE :: u32 where [simp]: "KSTKSIZE = 8 * PGSIZE"
definition KSTKGAP :: u32 where [simp]: "KSTKGAP = 8 * PGSIZE"
definition MMIOLIM :: u32 where [simp]: "MMIOLIM = KSTACKTOP - PTSIZE"
definition MMIOBASE :: u32 where [simp]: "MMIOBASE = MMIOLIM - PTSIZE"
definition ULIM :: u32 where [simp]: "ULIM = MMIOBASE"
definition UVPT :: u32 where [simp]: "UVPT = ULIM - PTSIZE"
definition UPAGES :: u32 where [simp]: "UPAGES = UVPT - PTSIZE"
definition UENVS :: u32 where [simp]: "UENVS = UPAGES - PTSIZE"
definition UTOP :: u32 where [simp]: "UTOP = UENVS"
definition UXSTACKTOP :: u32 where [simp]: "UXSTACKTOP = UTOP"
definition USTACKTOP :: u32 where [simp]: "USTACKTOP = UTOP - 2 * PGSIZE"
definition UTEXT :: u32 where [simp]: "UTEXT = 2 * PTSIZE"
definition UTEMP :: u32 where [simp]: "UTEMP = PTSIZE"
definition PFTEMP :: u32 where [simp]: "PFTEMP = UTEMP + PTSIZE - PGSIZE"
definition USTABDATA :: u32 where [simp]: "USTABDATA = PTSIZE div 2"

section \<open>Facts on addresses\<close>

lemma unat_PGNUM [unat_simps]: "unat (PGNUM la) = unat la div 4096"
  by (simp add: PGNUM_def unat_simps)

lemma unat_PDX [unat_simps]: "unat (PDX la) = unat la div 4194304"
proof -
  have "unat la div 4194304 < 1024"
    using unat_lt_2p32 [of la] by (simp add: div_less_iff_less_mult)
  thus ?thesis by (simp add: PDX_def mask_3FF unat_simps)
qed

lemma unat_PTX [unat_simps]: "unat (PTX la) = unat la div 4096 mod 1024"
  by (simp add: PTX_def mask_3FF unat_simps)

lemma unat_PGOFF [unat_simps]: "unat (PGOFF la) = unat la mod 4096"
  by (simp add: PGOFF_def mask_FFF unat_simps)

lemma PTE_ADDR_alt: "PTE_ADDR pte = pte - (pte AND mask 12)"
proof -
  have "(pte AND NOT (mask 12)) + (pte AND mask 12)
      = (pte AND NOT (mask 12)) OR (pte AND mask 12)"
    by (rule disjunctive_add_eq_or) (rule bit_word_eqI, simp add: bit_simps)
  also have "\<dots> = pte" by (simp flip: and.left_commute bit.conj_disj_distrib)
  finally have "(pte AND NOT (mask 12)) + (pte AND mask 12) = pte" .
  thus ?thesis by (simp add: PTE_ADDR_def mask_FFF eq_diff_eq)
qed

lemma unat_PTE_ADDR [unat_simps]: "unat (PTE_ADDR pte) = unat pte - unat pte mod 4096"
  by (simp add: PTE_ADDR_alt unat_sub_no_borrow unat_simps)

lemma PTE_ADDR_unat_aligned: "4096 dvd unat (PTE_ADDR pte)"
  by (simp add: unat_simps dvd_minus_mod)

lemma present_iff_bit: "present pte \<longleftrightarrow> bit pte 0"
  by (simp add: present_def and_one_eq odd_iff_mod_2_eq_one bit_0)

lemma bit_word_lessD:
  fixes w :: u32
  assumes "bit w n" and "w < 2 ^ k" and "k < 32"
  shows "n < k"
proof (rule ccontr)
  assume "\<not> n < k"
  have "unat w < 2 ^ k"
    using assms(2,3) unat_of_nat_small [of "2 ^ k", where 'a = 32]
      power_strict_increasing [of k 32 "2::nat"]
    by (simp add: word_less_nat_alt)
  hence "take_bit k w = w"
    by (simp add: word_unat_eq_iff unsigned_take_bit_eq take_bit_nat_eq_self)
  thus False using assms(1) \<open>\<not> n < k\<close> by (metis bit_take_bit_iff)
qed

lemma PTE_ADDR_or_flags:
  assumes "4096 dvd unat pa" and "perm < 4096"
  shows "PTE_ADDR (pa OR perm) = pa"
proof -
  have 0: "pa AND mask 12 = 0"
    using assms(1) by (simp add: word_unat_eq_iff unat_simps dvd_imp_mod_0)
  have pa: "12 \<le> n" if "bit pa n" for n
  proof -
    have "\<not> bit (pa AND mask 12) n" using 0 by simp
    moreover have "n < 32" using that bit_imp_le_length by fastforce
    ultimately show ?thesis using that by (simp add: bit_simps)
  qed
  have pe: "n < 12" if "bit perm n" for n
    using bit_word_lessD [OF that, of 12] assms(2) by simp
  show ?thesis
    by (rule bit_word_eqI) (auto simp: PTE_ADDR_def mask_FFF bit_simps dest: pa pe)
qed

theorem PGADDR_roundtrip: "PGADDR (PDX la) (PTX la) (PGOFF la) = la"
proof (rule bit_word_eqI)
  fix n assume n: "n < LENGTH(32)"
  show "bit (PGADDR (PDX la) (PTX la) (PGOFF la)) n = bit la n"
  proof (cases "n < 22")
    case True
    hence "n - 12 < 10" by arith
    with n True show ?thesis
      by (auto simp: PGADDR_def PDX_def PTX_def PGOFF_def mask_3FF mask_FFF bit_simps)
  next
    case False
    hence "22 + (n - 22) = n" by arith
    with n False show ?thesis
      by (auto simp: PGADDR_def PDX_def PTX_def PGOFF_def mask_3FF mask_FFF bit_simps)
  qed
qed

theorem PGADDR_components:
  assumes "d < 1024" and "t < 1024" and "f < 4096"
  shows "PDX (PGADDR d t f) = d" and "PTX (PGADDR d t f) = t" and "PGOFF (PGADDR d t f) = f"
proof -
  have d: "bit d n \<Longrightarrow> n < 10" and t: "bit t n \<Longrightarrow> n < 10" and f: "bit f n \<Longrightarrow> n < 12" for n
    using bit_word_lessD [of d n 10] bit_word_lessD [of t n 10]
      bit_word_lessD [of f n 12] assms by simp_all
  show "PDX (PGADDR d t f) = d"
    by (rule bit_word_eqI)
       (auto simp: PGADDR_def PDX_def mask_3FF bit_simps dest: d t f)
  show "PTX (PGADDR d t f) = t"
    by (rule bit_word_eqI)
       (auto simp: PGADDR_def PTX_def mask_3FF bit_simps dest: d t f)
  show "PGOFF (PGADDR d t f) = f"
    by (rule bit_word_eqI)
       (auto simp: PGADDR_def PGOFF_def mask_FFF bit_simps dest: d t f)
qed

lemma unat_ROUNDDOWN [unat_simps]: "unat (ROUNDDOWN a n) = unat a - unat a mod unat n"
  by (simp add: ROUNDDOWN_def unat_sub_no_borrow unat_mod)

lemma ROUNDUP_unat:
  assumes "0 < n" and "unat a + unat n \<le> 4294967296"
  shows "unat (ROUNDUP a n) = (unat a + (unat n - 1)) div unat n * unat n"
proof -
  have n: "0 < unat n" using assms(1) by (simp add: word_less_nat_alt)
  have n1: "unat (n - 1) = unat n - 1" using n by (subst unat_sub_no_borrow) simp_all
  have "unat (a + (n - 1)) = unat a + unat (n - 1)"
    by (rule unat_add_no_carry) (use assms(2) n n1 in simp)
  hence "unat (a + n - 1) = unat a + (unat n - 1)" by (simp only: n1 add_diff_eq)
  thus ?thesis by (simp add: ROUNDUP_def unat_simps minus_mod_eq_div_mult)
qed

theorem ROUNDUP_least_multiple:
  assumes "0 < n" and "unat a + unat n \<le> 4294967296"
  shows "unat n dvd unat (ROUNDUP a n)" and "unat a \<le> unat (ROUNDUP a n)"
    and "unat (ROUNDUP a n) < unat a + unat n"
proof -
  have n: "0 < unat n" using assms(1) by (simp add: word_less_nat_alt)
  let ?k = "(unat a + (unat n - 1)) div unat n"
  have eq: "unat (ROUNDUP a n) = ?k * unat n" using ROUNDUP_unat [OF assms] .
  show "unat n dvd unat (ROUNDUP a n)" by (simp add: eq)
  have "?k * unat n + (unat a + (unat n - 1)) mod unat n = unat a + (unat n - 1)"
    by (rule div_mult_mod_eq)
  moreover have "(unat a + (unat n - 1)) mod unat n < unat n" using n by simp
  ultimately show "unat a \<le> unat (ROUNDUP a n)" "unat (ROUNDUP a n) < unat a + unat n"
    using eq n by linarith+
qed

lemma mask_8_16: "(0xff :: u32) = mask 8" "(0xffff :: u32) = mask 16"
  by (simp_all add: mask_eq_exp_minus_1)

theorem seg_base_SEG:
  "seg_base (SEG type base lim dpl) = base" and "seg_base (SEG16 type base lim dpl) = base"
proof -
  have *: "bit (ucast (ucast (base AND mask 16) :: 16 word)
      OR push_bit 16 (ucast (ucast (drop_bit 16 base AND mask 8) :: 8 word))
      OR push_bit 24 (ucast (ucast (drop_bit 24 base) :: 8 word)) :: u32) n = bit base n"
    if n: "n < 32" for n
  proof -
    consider "n < 16" | "16 \<le> n" "n < 24" "n = 16 + (n - 16)" "n - 16 < 8"
      | "24 \<le> n" "n = 24 + (n - 24)" "n - 24 < 8"
      using n by fastforce
    thus ?thesis using n by cases (auto simp: bit_simps)
  qed
  show "seg_base (SEG type base lim dpl) = base"
    and "seg_base (SEG16 type base lim dpl) = base"
    by (rule bit_word_eqI, simp add: seg_base_def SEG_def SEG16_def mask_8_16 *)+
qed

theorem seg_limit_SEG: "seg_limit (SEG type base lim dpl) = lim OR 0xfff"
proof (rule bit_word_eqI)
  fix n assume n: "n < LENGTH(32)"
  consider "n < 12" | "12 \<le> n" "n < 28" "n = 12 + (n - 12)" "n - 12 < 16"
    | "28 \<le> n" "n = 28 + (n - 28)" "n - 28 < 4"  "n - 12 - 16 = n - 28" "\<not> n - 12 < 16" "n - 12 < 20"
    using n by fastforce
  thus "bit (seg_limit (SEG type base lim dpl)) n = bit (lim OR 0xfff) n"
    using n by cases (auto simp: seg_limit_def SEG_def mask_8_16 mask_FFF bit_simps)
qed

theorem gate_off_SETGATE:
  "gate_off (SETGATE g istrap sel off dpl) = off" and "gate_off (SETCALLGATE g sel off dpl) = off"
proof -
  have *: "bit (ucast (ucast (off AND mask 16) :: 16 word)
      OR push_bit 16 (ucast (ucast (drop_bit 16 off) :: 16 word)) :: u32) n = bit off n"
    if n: "n < 32" for n
  proof -
    consider "n < 16" | "16 \<le> n" "n = 16 + (n - 16)" "n - 16 < 16" using n by fastforce
    thus ?thesis using n by cases (auto simp: bit_simps)
  qed
  show "gate_off (SETGATE g istrap sel off dpl) = off"
    and "gate_off (SETCALLGATE g sel off dpl) = off"
    by (rule bit_word_eqI, simp add: gate_off_def SETGATE_def SETCALLGATE_def mask_8_16 *)+
qed

end
