(* ===== verification/Jos_Mem.thy ===== *)
theory Jos_Mem
  imports Jos_Mmu
begin

text \<open>
  Memory and the memory routines of \<open>lib/string.c\<close>.

  An address space is a function from 32-bit addresses to bytes; a 32-bit access is four
  little-endian byte accesses. The routines are modelled in the variant that is compiled
  (\<open>#if ASM\<close>): the string instructions \<open>rep stosl\<close>, \<open>rep movsb\<close>, \<dots> are loops over the
  count register, \<open>std\<close> selects the decreasing direction. The lemmas show that both
  widths and both directions compute the same simple functions \<open>fill\<close> and \<open>copy\<close>.
  A routine that returns its first argument returns only the new memory here.
\<close>

type_synonym mem = "u32 \<Rightarrow> u8"

section \<open>Words in memory\<close>

definition ld32 :: "mem \<Rightarrow> u32 \<Rightarrow> u32" where
  "ld32 m a = ucast (m a) OR push_bit 8 (ucast (m (a + 1)))
     OR push_bit 16 (ucast (m (a + 2))) OR push_bit 24 (ucast (m (a + 3)))"

definition st32 :: "mem \<Rightarrow> u32 \<Rightarrow> u32 \<Rightarrow> mem" where
  "st32 m a v = m(a := ucast v, a + 1 := ucast (drop_bit 8 v),
     a + 2 := ucast (drop_bit 16 v), a + 3 := ucast (drop_bit 24 v))"

section \<open>memset, memmove, memcpy, memcmp, memfind (lib/string.c)\<close>

fun stosb :: "mem \<Rightarrow> u32 \<Rightarrow> u8 \<Rightarrow> nat \<Rightarrow> mem" where
  "stosb m p c 0 = m"
| "stosb m p c (Suc k) = stosb (m(p := c)) (p + 1) c k"

fun stosl :: "mem \<Rightarrow> u32 \<Rightarrow> u32 \<Rightarrow> nat \<Rightarrow> mem" where
  "stosl m p c 0 = m"
| "stosl m p c (Suc k) = stosl (st32 m p c) (p + 4) c k"

definition memset :: "mem \<Rightarrow> u32 \<Rightarrow> u32 \<Rightarrow> u32 \<Rightarrow> mem" where
  "memset m v c n =
     (if n = 0 then m
      else if v mod 4 = 0 \<and> n mod 4 = 0 then
        (let c = c AND 0xFF;
             c = push_bit 24 c OR push_bit 16 c OR push_bit 8 c OR c
         in stosl m v c (unat (n div 4)))
      else stosb m v (ucast c) (unat n))"

fun movsb_up :: "mem \<Rightarrow> u32 \<Rightarrow> u32 \<Rightarrow> nat \<Rightarrow> mem" where
  "movsb_up m d s 0 = m"
| "movsb_up m d s (Suc k) = movsb_up (m(d := m s)) (d + 1) (s + 1) k"

fun movsb_down :: "mem \<Rightarrow> u32 \<Rightarrow> u32 \<Rightarrow> nat \<Rightarrow> mem" where
  "movsb_down m d s 0 = m"
| "movsb_down m d s (Suc k) = movsb_down (m(d := m s)) (d - 1) (s - 1) k"

fun movsl_up :: "mem \<Rightarrow> u32 \<Rightarrow> u32 \<Rightarrow> nat \<Rightarrow> mem" where
  "movsl_up m d s 0 = m"
| "movsl_up m d s (Suc k) = movsl_up (st32 m d (ld32 m s)) (d + 4) (s + 4) k"

fun movsl_down :: "mem \<Rightarrow> u32 \<Rightarrow> u32 \<Rightarrow> nat \<Rightarrow> mem" where
  "movsl_down m d s 0 = m"
| "movsl_down m d s (Suc k) = movsl_down (st32 m d (ld32 m s)) (d - 4) (s - 4) k"

definition memmove :: "mem \<Rightarrow> u32 \<Rightarrow> u32 \<Rightarrow> u32 \<Rightarrow> mem" where
  "memmove m dst src n =
     (let s = src; d = dst in
      if s < d \<and> s + n > d then
        (let s = s + n; d = d + n in
         if s mod 4 = 0 \<and> d mod 4 = 0 \<and> n mod 4 = 0
         then movsl_down m (d - 4) (s - 4) (unat (n div 4))
         else movsb_down m (d - 1) (s - 1) (unat n))
      else
        (if s mod 4 = 0 \<and> d mod 4 = 0 \<and> n mod 4 = 0
         then movsl_up m d s (unat (n div 4))
         else movsb_up m d s (unat n)))"

definition memcpy :: "mem \<Rightarrow> u32 \<Rightarrow> u32 \<Rightarrow> u32 \<Rightarrow> mem" where
  "memcpy m dst src n = memmove m dst src n"

fun memcmp_loop :: "mem \<Rightarrow> u32 \<Rightarrow> u32 \<Rightarrow> nat \<Rightarrow> int" where
  "memcmp_loop m s1 s2 0 = 0"
| "memcmp_loop m s1 s2 (Suc n) =
     (if m s1 \<noteq> m s2 then uint (m s1) - uint (m s2)
      else memcmp_loop m (s1 + 1) (s2 + 1) n)"

definition memcmp :: "mem \<Rightarrow> u32 \<Rightarrow> u32 \<Rightarrow> u32 \<Rightarrow> int" where
  "memcmp m v1 v2 n = memcmp_loop m v1 v2 (unat n)"

function memfind_loop :: "mem \<Rightarrow> u32 \<Rightarrow> u8 \<Rightarrow> u32 \<Rightarrow> u32" where
  "memfind_loop m s c ends =
     (if s < ends then (if m s = c then s else memfind_loop m (s + 1) c ends) else s)"
  by pat_completeness auto
termination
proof (relation "measure (\<lambda>(m, s, c, ends). unat ends - unat s)", goal_cases)
  case (2 m s c ends)
  hence lt: "unat s < unat ends" by (simp add: word_less_nat_alt)
  hence "unat (s + 1) = unat s + 1"
    using unat_lt_2p32 [of ends]
    by (subst unat_add_no_carry) (simp_all del: unat_lt_2p32)
  thus ?case using lt by simp
qed simp

definition memfind :: "mem \<Rightarrow> u32 \<Rightarrow> u32 \<Rightarrow> u32 \<Rightarrow> u32" where
  "memfind m s c n = memfind_loop m s (ucast c) (s + n)"

section \<open>Reference functions\<close>

definition fill :: "mem \<Rightarrow> u32 \<Rightarrow> nat \<Rightarrow> u8 \<Rightarrow> mem" where
  "fill m a n c = (\<lambda>x. if unat (x - a) < n then c else m x)"

definition copy :: "mem \<Rightarrow> u32 \<Rightarrow> u32 \<Rightarrow> nat \<Rightarrow> mem" where
  "copy m d s n = (\<lambda>x. if unat (x - d) < n then m (s + (x - d)) else m x)"

section \<open>Loads and stores\<close>

lemma ld32_st32_same [simp]: "ld32 (st32 m a v) a = v"
proof (rule bit_word_eqI)
  fix n assume n: "n < LENGTH(32)"
  consider "n < 8" | "8 \<le> n" "n < 16" "n = 8 + (n - 8)" "n - 8 < 8"
    | "16 \<le> n" "n < 24" "n = 16 + (n - 16)" "n - 16 < 8"
    | "24 \<le> n" "n = 24 + (n - 24)" "n - 24 < 8"
    using n by fastforce
  thus "bit (ld32 (st32 m a v) a) n = bit v n"
    using n by cases (auto simp: ld32_def st32_def bit_simps)
qed

lemma word4_cases: "(i :: nat) < 4 \<Longrightarrow> i = 0 \<or> i = 1 \<or> i = 2 \<or> i = 3"
  by arith

lemma mod4_unat: "(a :: u32) mod 4 = 0 \<longleftrightarrow> 4 dvd unat a"
  by (simp add: word_unat_eq_iff unat_mod dvd_eq_mod_eq_0)

lemma aligned_neq:
  fixes a b :: u32
  assumes "4 dvd unat a" and "4 dvd unat b" and "a \<noteq> b" and "i < 4" and "j < 4"
  shows "a + i \<noteq> b + j"
proof
  assume "a + i = b + j"
  moreover have "unat (a + i) = unat a + unat i" "unat (b + j) = unat b + unat j"
    using assms by (auto intro!: unat_add_aligned [where n = 4] simp: word_less_nat_alt)
  ultimately have "unat a + unat i = unat b + unat j" by simp
  moreover have "unat i < 4" "unat j < 4" using assms by (simp_all add: word_less_nat_alt)
  ultimately have "unat a = unat b" using assms(1,2) by (auto elim!: dvdE)
  thus False using assms(3) by (simp add: word_unat_eq_iff)
qed

lemma ld32_st32_other:
  assumes "4 dvd unat a" and "4 dvd unat b" and "a \<noteq> b"
  shows "ld32 (st32 m a v) b = ld32 m b"
proof -
  have "b + j \<noteq> a + i" if "i < 4" "j < 4" for i j
    using aligned_neq [OF assms that] by metis
  from this [of 0 0] this [of 0 1] this [of 0 2] this [of 0 3]
    this [of 1 0] this [of 1 1] this [of 1 2] this [of 1 3]
    this [of 2 0] this [of 2 1] this [of 2 2] this [of 2 3]
    this [of 3 0] this [of 3 1] this [of 3 2] this [of 3 3]
  show ?thesis by (simp add: ld32_def st32_def)
qed

lemma st32_ld32:
  "st32 m d (ld32 m s) =
     m(d := m s, d + 1 := m (s + 1), d + 2 := m (s + 2), d + 3 := m (s + 3))"
proof -
  have bytes: "ucast (ld32 m s) = m s" "ucast (drop_bit 8 (ld32 m s)) = m (s + 1)"
    "ucast (drop_bit 16 (ld32 m s)) = m (s + 2)" "ucast (drop_bit 24 (ld32 m s)) = m (s + 3)"
    by (rule bit_word_eqI, auto simp: ld32_def bit_simps dest: bit_imp_le_length)+
  show ?thesis by (simp add: st32_def bytes)
qed

section \<open>Filling\<close>

lemma unat_one_minus: "(x :: u32) \<noteq> 0 \<Longrightarrow> unat (x - 1) = unat x - 1"
  by (subst unat_sub_no_borrow) (simp_all add: Suc_le_eq unat_gt_0)

lemma unat_diff_step:
  fixes x p :: u32
  shows "x \<noteq> p \<Longrightarrow> unat (x - (p + 1)) = unat (x - p) - 1"
  using unat_one_minus [of "x - p"] by (simp add: diff_diff_eq)

lemma stosb_fill: "k \<le> 2 ^ 32 \<Longrightarrow> stosb m p c k = fill m p k c"
proof (induction k arbitrary: m p)
  case (Suc k)
  have "stosb m p c (Suc k) = fill (m(p := c)) (p + 1) k c"
    using Suc by simp
  also have "\<dots> = fill m p (Suc k) c"
  proof
    fix x show "fill (m(p := c)) (p + 1) k c x = fill m p (Suc k) c x"
    proof (cases "x = p")
      case False
      hence "0 < unat (x - p)" by (simp add: unat_gt_0)
      thus ?thesis using False by (auto simp: fill_def unat_diff_step)
    qed (simp add: fill_def)
  qed
  finally show ?case .
qed (simp add: fill_def)

lemma stosb_append: "stosb m p c (j + k) = stosb (stosb m p c j) (p + of_nat j) c k"
  by (induction j arbitrary: m p) (simp_all add: algebra_simps)

lemma st32_pattern:
  fixes c :: u32
  defines "w \<equiv> (let c = c AND 0xFF in push_bit 24 c OR push_bit 16 c OR push_bit 8 c OR c)"
  shows "st32 m p w = stosb m p (ucast c) 4"
proof -
  have bytes: "ucast w = (ucast c :: u8)" "ucast (drop_bit 8 w) = (ucast c :: u8)"
    "ucast (drop_bit 16 w) = (ucast c :: u8)" "ucast (drop_bit 24 w) = (ucast c :: u8)"
    by (rule bit_word_eqI, auto simp: w_def mask_8_16 bit_simps)+
  have "stosb m p (ucast c) 4 =
      m(p := ucast c, p + 1 := ucast c, p + 2 := ucast c, p + 3 := ucast c)"
    by (simp add: numeral_eq_Suc add.commute)
  thus ?thesis by (simp add: st32_def bytes)
qed

lemma stosl_stosb:
  fixes c :: u32
  defines "w \<equiv> (let c = c AND 0xFF in push_bit 24 c OR push_bit 16 c OR push_bit 8 c OR c)"
  shows "stosl m p w k = stosb m p (ucast c) (4 * k)"
proof (induction k arbitrary: m p)
  case (Suc k)
  have "stosl m p w (Suc k) = stosb (stosb m p (ucast c) 4) (p + 4) (ucast c) (4 * k)"
    using Suc st32_pattern [of m p c] by (simp add: w_def)
  thus ?case using stosb_append [of m p "ucast c" 4 "4 * k"] by simp
qed simp

theorem memset_fill: "memset m v c n = fill m v (unat n) (ucast c)"
proof -
  have b: "unat n \<le> 2 ^ 32" using unat_lt_2p32 [of n] by (simp del: unat_lt_2p32)
  consider "n = 0" | "n \<noteq> 0" "v mod 4 = 0 \<and> n mod 4 = 0" | "n \<noteq> 0" "\<not> (v mod 4 = 0 \<and> n mod 4 = 0)"
    by blast
  thus ?thesis
  proof cases
    case 2
    hence "4 * unat (n div 4) = unat n" by (auto simp: mod4_unat unat_div)
    thus ?thesis using 2 stosl_stosb [of m v c] b
      by (simp add: memset_def stosb_fill Let_def)
  qed (auto simp: memset_def stosb_fill [OF b] fill_def)
qed

section \<open>Copying\<close>

lemma offset_eq_iff:
  fixes x d :: u32
  assumes "unat (of_nat k :: u32) = k"
  shows "x = d + of_nat k \<longleftrightarrow> unat (x - d) = k"
proof
  assume "unat (x - d) = k"
  hence "x - d = of_nat k" by (metis of_nat_unat ucast_id)
  thus "x = d + of_nat k" by (simp add: diff_eq_eq add.commute)
qed (use assms in simp)

lemma movsb_up_snoc:
  "movsb_up m d s (Suc k) =
     (let m' = movsb_up m d s k in m'(d + of_nat k := m' (s + of_nat k)))"
proof (induction k arbitrary: m d s)
  case (Suc k)
  have e: "d + 1 + of_nat k = d + of_nat (Suc k)" "s + 1 + of_nat k = s + of_nat (Suc k)"
    by simp_all
  show ?case
    by (simp only: movsb_up.simps(2) [of m d s "Suc k"] movsb_up.simps(2) [of m d s k]
        Suc [of "m(d := m s)" "d + 1" "s + 1"] e)
qed simp

text \<open>An increasing copy is right when no byte is read after it has been overwritten.\<close>

lemma movsb_up_copy:
  assumes "k \<le> 2 ^ 32" and "\<forall>j < k. j \<le> unat (s + of_nat j - d)"
  shows "movsb_up m d s k = copy m d s k"
  using assms
proof (induction k)
  case (Suc k)
  have IH: "movsb_up m d s k = copy m d s k" using Suc by simp
  have k: "unat (of_nat k :: u32) = k" using Suc.prems(1) by (simp add: unat_of_nat)
  have rd: "\<not> unat (s + of_nat k - d) < k"
    using Suc.prems(2) by (simp add: not_less)
  show ?case
  proof
    fix x
    have "x = d + of_nat k \<longleftrightarrow> unat (x - d) = k"
      using k by (rule offset_eq_iff)
    thus "movsb_up m d s (Suc k) x = copy m d s (Suc k) x"
      by (auto simp: movsb_up_snoc IH rd Let_def copy_def less_Suc_eq
          simp del: movsb_up.simps(2))
  qed
qed (simp add: copy_def)

lemma movsb_up_append:
  "movsb_up m d s (j + k) = movsb_up (movsb_up m d s j) (d + of_nat j) (s + of_nat j) k"
  by (induction j arbitrary: m d s) (simp_all add: algebra_simps)

lemma movsb_up_4:
  assumes "4 dvd unat d" and "4 dvd unat s"
  shows "movsb_up m d s 4 = st32 m d (ld32 m s)"
proof -
  have ne: "s + i \<noteq> d + j" if "i < 4" "j < 4" "i \<noteq> j" for i j
    using aligned_neq [OF assms(2,1) _ that(1,2)] that(3) by (cases "s = d") auto
  have 1: "s + 1 \<noteq> d" "s + 2 \<noteq> d" "s + 3 \<noteq> d" "s + 2 \<noteq> d + 1" "s + 3 \<noteq> d + 1" "s + 3 \<noteq> d + 2"
    using ne [of 1 0] ne [of 2 0] ne [of 3 0] ne [of 2 1] ne [of 3 1] ne [of 3 2]
    by simp_all
  have "movsb_up m d s 4 = (let m1 = m(d := m s); m2 = m1(d + 1 := m1 (s + 1));
      m3 = m2(d + 2 := m2 (s + 2)) in m3(d + 3 := m3 (s + 3)))"
    by (simp add: numeral_eq_Suc add.commute Let_def del: fun_upd_apply)
  thus ?thesis by (simp add: st32_ld32 Let_def 1)
qed

lemma aligned_plus_4: "4 dvd unat (a :: u32) \<Longrightarrow> 4 dvd unat (a + 4)"
  by (simp add: unat_word_ariths dvd_mod_iff)

lemma aligned_minus_4: "4 dvd unat (a :: u32) \<Longrightarrow> 4 dvd unat (a - 4)"
  by (auto simp: unat_sub_if' word_le_nat_alt dvd_diff_nat dvd_add)

lemma movsl_up_movsb:
  assumes "4 dvd unat d" and "4 dvd unat s"
  shows "movsl_up m d s k = movsb_up m d s (4 * k)"
  using assms
proof (induction k arbitrary: m d s)
  case (Suc k)
  thus ?case
    using movsb_up_append [of m d s 4 "4 * k"] movsb_up_4 [of d s m]
    by (simp add: aligned_plus_4)
qed simp

text \<open>A decreasing copy, stated for the first destination and source byte.\<close>

lemma movsb_down_copy:
  assumes "k \<le> 2 ^ 32" and "\<forall>i j. i < j \<longrightarrow> j < k \<longrightarrow> s + of_nat i \<noteq> d + of_nat j"
  shows "movsb_down m (d + of_nat k - 1) (s + of_nat k - 1) k = copy m d s k"
  using assms
proof (induction k arbitrary: m)
  case (Suc k)
  let ?m = "m(d + of_nat k := m (s + of_nat k))"
  have k: "unat (of_nat k :: u32) = k" using Suc.prems(1) by (simp add: unat_of_nat)
  have "movsb_down m (d + of_nat (Suc k) - 1) (s + of_nat (Suc k) - 1) (Suc k)
      = movsb_down ?m (d + of_nat k - 1) (s + of_nat k - 1) k"
    by simp
  also have "\<dots> = copy ?m d s k" using Suc by simp
  also have "\<dots> = copy m d s (Suc k)"
  proof
    fix x
    have eq: "x = d + of_nat k \<longleftrightarrow> unat (x - d) = k"
      using k by (rule offset_eq_iff)
    have "s + (x - d) \<noteq> d + of_nat k" if "unat (x - d) < k"
      using Suc.prems(2) that by (metis lessI of_nat_unat ucast_id)
    thus "copy ?m d s k x = copy m d s (Suc k) x"
      using eq by (auto simp: copy_def less_Suc_eq)
  qed
  finally show ?case .
qed (simp add: copy_def)

lemma movsb_down_append:
  "movsb_down m d s (j + k) = movsb_down (movsb_down m d s j) (d - of_nat j) (s - of_nat j) k"
  by (induction j arbitrary: m d s) (simp_all add: algebra_simps)

lemma movsb_down_4:
  assumes "4 dvd unat d" and "4 dvd unat s"
  shows "movsb_down m (d + 3) (s + 3) 4 = st32 m d (ld32 m s)"
proof -
  have ne: "s + i \<noteq> d + j" if "i < 4" "j < 4" "i \<noteq> j" for i j
    using aligned_neq [OF assms(2,1) _ that(1,2)] that(3) by (cases "s = d") auto
  have 1: "s + 2 \<noteq> d + 3" "s + 1 \<noteq> d + 3" "s \<noteq> d + 3" "s + 1 \<noteq> d + 2" "s \<noteq> d + 2" "s \<noteq> d + 1"
    using ne [of 2 3] ne [of 1 3] ne [of 0 3] ne [of 1 2] ne [of 0 2] ne [of 0 1]
    by simp_all
  have e: "d + 3 - 1 = d + 2" "d + 2 - 1 = d + 1" "s + 3 - 1 = s + 2" "s + 2 - 1 = s + 1" 
    by simp_all
  have "movsb_down m (d + 3) (s + 3) 4 = (let m1 = m(d + 3 := m (s + 3)); m2 = m1(d + 2 := m1 (s + 2));
      m3 = m2(d + 1 := m2 (s + 1)) in m3(d := m3 s))"
    by (simp add: eval_nat_numeral Let_def e del: fun_upd_apply)
  thus ?thesis by (simp add: st32_ld32 Let_def 1 fun_upd_twist)
qed

lemma movsl_down_movsb:
  assumes "4 dvd unat d" and "4 dvd unat s"
  shows "movsl_down m d s k = movsb_down m (d + 3) (s + 3) (4 * k)"
  using assms
proof (induction k arbitrary: m d s)
  case (Suc k)
  have al: "4 dvd unat (d - 4)" "4 dvd unat (s - 4)"
    using Suc.prems aligned_minus_4 by blast+
  have "movsl_down m d s (Suc k) = movsb_down (movsb_down m (d + 3) (s + 3) 4)
      (d - 4 + 3) (s - 4 + 3) (4 * k)"
    using Suc.IH [OF al] movsb_down_4 [OF Suc.prems] by simp
  moreover have "d - 4 + 3 = d + 3 - of_nat 4" "s - 4 + 3 = s + 3 - of_nat 4" by simp_all
  ultimately show ?case using movsb_down_append [of m "d + 3" "s + 3" 4 "4 * k"] by simp
qed simp

text \<open>
  \<open>memmove\<close> copies exactly, whatever the overlap of the two ranges, when neither range
  reaches the end of the address space. (When the source range ends exactly at address
  \<open>2 ^ 32\<close>, the overlap test \<open>s + n > d\<close> wraps around, so that case is excluded.)
\<close>

lemma movs_up_copy:
  assumes "unat s + n < 2 ^ 32" and "unat d + n < 2 ^ 32" and "d \<le> s \<or> unat s + n \<le> unat d"
  shows "movsb_up m d s n = copy m d s n"
proof (rule movsb_up_copy)
  show "n \<le> 2 ^ 32" using assms by simp
  show "\<forall>j<n. j \<le> unat (s + of_nat j - d)"
  proof (intro allI impI)
    fix j assume "j < n"
    hence j: "unat (of_nat j :: u32) = j" using assms by (simp add: unat_of_nat)
    have "unat (s + of_nat j) = unat s + j"
      using assms \<open>j < n\<close> j by (subst unat_add_no_carry) simp_all
    thus "j \<le> unat (s + of_nat j - d)"
      using assms \<open>j < n\<close> by (auto simp: unat_sub_if' word_le_nat_alt)
  qed
qed

lemma movs_down_copy:
  assumes "unat s + n < 2 ^ 32" and "unat d + n < 2 ^ 32" and "s < d"
  shows "movsb_down m (d + of_nat n - 1) (s + of_nat n - 1) n = copy m d s n"
proof (rule movsb_down_copy)
  show "n \<le> 2 ^ 32" using assms by simp
  show "\<forall>i j. i < j \<longrightarrow> j < n \<longrightarrow> s + of_nat i \<noteq> d + of_nat j"
  proof (intro allI impI notI)
    fix i j assume ij: "i < j" "j < n" and eq: "s + of_nat i = d + of_nat j"
    have u: "unat (of_nat i :: u32) = i" "unat (of_nat j :: u32) = j"
      using assms ij by (simp_all add: unat_of_nat)
    hence "unat (s + of_nat i) = unat s + i" "unat (d + of_nat j) = unat d + j"
      using assms ij by (subst unat_add_no_carry; simp)+
    thus False using eq assms(3) ij by (simp add: word_less_nat_alt)
  qed
qed

theorem memmove_copy:
  assumes "unat src + unat n < 2 ^ 32" and "unat dst + unat n < 2 ^ 32"
  shows "memmove m dst src n = copy m dst src (unat n)"
proof -
  have sn: "unat (src + n) = unat src + unat n" "unat (dst + n) = unat dst + unat n"
    using assms by (simp_all add: unat_add_no_carry)
  have n4: "4 * unat (n div 4) = unat n" if "n mod 4 = 0"
    using that by (auto simp: mod4_unat unat_div)
  show ?thesis
  proof (cases "src < dst \<and> src + n > dst")
    case True
    have down: "movsb_down m (dst + n - 1) (src + n - 1) (unat n) = copy m dst src (unat n)"
      using movs_down_copy [OF assms] True by simp
    have "movsl_down m (dst + n - 4) (src + n - 4) (unat (n div 4)) = copy m dst src (unat n)"
      if "(src + n) mod 4 = 0" "(dst + n) mod 4 = 0" "n mod 4 = 0"
      using movsl_down_movsb [of "dst + n - 4" "src + n - 4" m "unat (n div 4)"]
        aligned_minus_4 that down n4 by (simp add: mod4_unat)
    thus ?thesis using True down by (simp add: memmove_def Let_def)
  next
    case False
    hence "dst \<le> src \<or> unat src + unat n \<le> unat dst"
      using sn by (auto simp: word_less_nat_alt word_le_nat_alt)
    hence up: "movsb_up m dst src (unat n) = copy m dst src (unat n)"
      using movs_up_copy [OF assms] by simp
    have "movsl_up m dst src (unat (n div 4)) = copy m dst src (unat n)"
      if "src mod 4 = 0" "dst mod 4 = 0" "n mod 4 = 0"
      using movsl_up_movsb [of dst src m "unat (n div 4)"] that up n4 by (simp add: mod4_unat)
    thus ?thesis using False up by (auto simp: memmove_def Let_def)
  qed
qed

section \<open>Comparing and searching\<close>

lemma memcmp_loop_zero:
  "memcmp_loop m p q k = 0 \<longleftrightarrow> (\<forall>i<k. m (p + of_nat i) = m (q + of_nat i))"
proof (induction k arbitrary: p q)
  case (Suc k)
  show ?case
    using Suc.IH [of "p + 1" "q + 1"]
    by (auto simp: All_less_Suc2 add.assoc word_uint_eq_iff)
qed simp

theorem memcmp_zero_iff:
  "memcmp m v1 v2 n = 0 \<longleftrightarrow> (\<forall>i < unat n. m (v1 + of_nat i) = m (v2 + of_nat i))"
  by (simp add: memcmp_def memcmp_loop_zero)

declare memfind_loop.simps [simp del]

lemma memfind_loop_spec:
  assumes "s \<le> ends"
  shows "let r = memfind_loop m s c ends in s \<le> r \<and> r \<le> ends \<and> (r < ends \<longrightarrow> m r = c)
     \<and> (\<forall>x. s \<le> x \<and> x < r \<longrightarrow> m x \<noteq> c)"
  using assms
proof (induction m s c ends rule: memfind_loop.induct)
  case (1 m s c ends)
  consider "\<not> s < ends" | "s < ends" "m s = c" | "s < ends" "m s \<noteq> c" by blast
  thus ?case
  proof cases
    case 3
    hence "s + 1 \<le> ends" "unat (s + 1) = unat s + 1"
      using unat_lt_2p32 [of ends]
      by (auto simp: word_le_nat_alt word_less_nat_alt unat_word_ariths simp del: unat_lt_2p32)
    note IH = "1.IH" [OF 3 this(1)] and s1 = this(2)
    have "x = s \<or> s + 1 \<le> x" if "s \<le> x" for x
      using that s1 by (auto simp: word_le_nat_alt word_unat_eq_iff)
    moreover have "s \<le> x" if "s + 1 \<le> x" for x
      using that s1 by (auto simp: word_le_nat_alt)
    ultimately show ?thesis using IH 3
      by (simp add: memfind_loop.simps [of m s] Let_def) blast
  next
    case 1
    hence "memfind_loop m s c ends = s" by (simp add: memfind_loop.simps [of m s])
    thus ?thesis using 1 "1.prems" by auto
  next
    case 2
    hence "memfind_loop m s c ends = s" by (simp add: memfind_loop.simps [of m s])
    thus ?thesis using 2 "1.prems" by auto
  qed
qed

end
