(* ===== verification/Jos_PageAlloc.thy ===== *)
theory Jos_PageAlloc
  imports Jos_Mem
begin

text \<open>
  Physical memory of \<open>kern/pmap.c\<close> and \<open>kern/pmap.h\<close>: detection of the memory size,
  the boot-time allocator, the \<open>pages\<close> array with its free list, and
  \<open>page_alloc\<close>, \<open>page_free\<close>, \<open>page_decref\<close>.

  A pointer into \<open>pages\<close> is its index. Kernel virtual addresses index the memory
  \<open>kmem\<close> directly: the physical address \<open>pa\<close> is the byte at \<open>pa + KERNBASE\<close>, which
  is how the kernel reaches physical memory. Diagnostic output is not modelled here.
\<close>

section \<open>State\<close>

record PageInfo =
  pp_link :: "nat option"
  pp_ref :: u16

text \<open>The globals of \<open>kern/pmap.c\<close>. \<open>pages_kva\<close> is the value of the pointer \<open>pages\<close>;
  \<open>nextfree\<close> is the static variable of \<open>boot_alloc\<close> (0 is NULL). \<open>tlb\<close> holds the page
  numbers whose translation the processor may have cached.\<close>

record kern =
  npages :: u32
  npages_basemem :: u32
  kern_pgdir :: u32
  pages_kva :: u32
  pages :: "PageInfo list"
  page_free_list :: "nat option"
  nextfree :: u32
  kmem :: mem
  tlb :: "u32 \<Rightarrow> bool"

text \<open>Why control does not return: a panic, by its source, a pointer that leaves the
  \<open>pages\<close> (or, later, the \<open>envs\<close>) array, where the C behaviour is undefined, or an access by
  the kernel to a virtual address that is not mapped.\<close>

datatype kerr =
    PADDR_invalid u32
  | KADDR_invalid u32
  | Pa2page_invalid u32
  | Page_free_in_use nat
  | Panic string
  | Wild nat
  | Page_fault u32

section \<open>Addresses of pages (kern/pmap.h)\<close>

definition PADDR :: "u32 \<Rightarrow> kerr + u32" where
  "PADDR kva = (if kva < KERNBASE then Inl (PADDR_invalid kva) else Inr (kva - KERNBASE))"

definition KADDR :: "kern \<Rightarrow> u32 \<Rightarrow> kerr + u32" where
  "KADDR s pa = (if PGNUM pa \<ge> npages s then Inl (KADDR_invalid pa) else Inr (pa + KERNBASE))"

definition ALLOC_ZERO :: u32 where [simp]: "ALLOC_ZERO = 1"

definition page2pa :: "nat \<Rightarrow> u32" where
  "page2pa pp = push_bit PGSHIFT (of_nat pp)"

definition pa2page :: "kern \<Rightarrow> u32 \<Rightarrow> kerr + nat" where
  "pa2page s pa =
     (if PGNUM pa \<ge> npages s then Inl (Pa2page_invalid pa) else Inr (unat (PGNUM pa)))"

definition page2kva :: "kern \<Rightarrow> nat \<Rightarrow> kerr + u32" where
  "page2kva s pp = KADDR s (page2pa pp)"

section \<open>Detecting physical memory (kern/kclock.c, kern/pmap.c)\<close>

text \<open>The battery-backed memory behind the RTC ports is a parameter: the byte that
  \<open>inb(IO_RTC+1)\<close> yields after \<open>outb(IO_RTC, reg)\<close>.\<close>

definition NVRAM_BASELO :: u32 where [simp]: "NVRAM_BASELO = 0xe + 7"
definition NVRAM_EXTLO :: u32 where [simp]: "NVRAM_EXTLO = 0xe + 9"
definition NVRAM_EXT16LO :: u32 where [simp]: "NVRAM_EXT16LO = 0xe + 38"

definition mc146818_read :: "(u8 \<Rightarrow> u8) \<Rightarrow> u32 \<Rightarrow> u32" where
  "mc146818_read cmos reg = ucast (cmos (ucast reg))"

definition nvram_read :: "(u8 \<Rightarrow> u8) \<Rightarrow> u32 \<Rightarrow> u32" where
  "nvram_read cmos r = mc146818_read cmos r OR push_bit 8 (mc146818_read cmos (r + 1))"

definition i386_detect_memory :: "(u8 \<Rightarrow> u8) \<Rightarrow> kern \<Rightarrow> kern" where
  "i386_detect_memory cmos s =
     (let basemem = nvram_read cmos NVRAM_BASELO;
          extmem = nvram_read cmos NVRAM_EXTLO;
          ext16mem = nvram_read cmos NVRAM_EXT16LO * 64;
          totalmem = (if ext16mem \<noteq> 0 then 16 * 1024 + ext16mem
                      else if extmem \<noteq> 0 then 1 * 1024 + extmem
                      else basemem)
      in s\<lparr>npages := totalmem div (PGSIZE div 1024),
           npages_basemem := basemem div (PGSIZE div 1024)\<rparr>)"

section \<open>The boot-time allocator (kern/pmap.c)\<close>

text \<open>\<open>kend\<close> is the address of the linker symbol \<open>end\<close>.\<close>

definition boot_alloc :: "u32 \<Rightarrow> u32 \<Rightarrow> kern \<Rightarrow> u32 \<times> kern" where
  "boot_alloc kend n s =
     (let s = (if nextfree s = 0 then s\<lparr>nextfree := ROUNDUP kend PGSIZE\<rparr> else s)
      in if n = 0 then (nextfree s, s)
         else (nextfree s, s\<lparr>nextfree := nextfree s + ROUNDUP n PGSIZE\<rparr>))"

section \<open>The page array and its free list (kern/pmap.c)\<close>

definition upd_page :: "nat \<Rightarrow> (PageInfo \<Rightarrow> PageInfo) \<Rightarrow> kern \<Rightarrow> kern" where
  "upd_page i f s = s\<lparr>pages := (pages s)[i := f (pages s ! i)]\<rparr>"

text \<open>The two loop bodies of \<open>page_init\<close>: put page \<open>i\<close> on the free list, and mark it as
  in use.\<close>

fun link_pages :: "nat list \<Rightarrow> kern \<Rightarrow> kerr + kern" where
  "link_pages [] s = Inr s"
| "link_pages (i # is) s =
     (if i < length (pages s)
      then link_pages is
        ((upd_page i (\<lambda>p. p\<lparr>pp_ref := 0, pp_link := page_free_list s\<rparr>) s)\<lparr>page_free_list := Some i\<rparr>)
      else Inl (Wild i))"

fun mark_used :: "nat list \<Rightarrow> kern \<Rightarrow> kerr + kern" where
  "mark_used [] s = Inr s"
| "mark_used (i # is) s =
     (if i < length (pages s) then mark_used is (upd_page i (\<lambda>p. p\<lparr>pp_ref := 1\<rparr>) s)
      else Inl (Wild i))"

definition page_init :: "u32 \<Rightarrow> kern \<Rightarrow> kerr + kern" where
  "page_init kend s =
     (if 0 < length (pages s) then
        (let s = upd_page 0 (\<lambda>p. p\<lparr>pp_ref := 1, pp_link := None\<rparr>) s in
         res_bind (link_pages [1..<unat (npages_basemem s)] s) (\<lambda>s.
         res_bind (mark_used [unat (IOPHYSMEM div PGSIZE)..<unat (EXTPHYSMEM div PGSIZE)] s) (\<lambda>s.
         let (kva, s) = boot_alloc kend 0 s in
         res_bind (PADDR kva) (\<lambda>first_free_address.
         res_bind (mark_used [unat (EXTPHYSMEM div PGSIZE)..<unat (first_free_address div PGSIZE)] s) (\<lambda>s.
         link_pages [unat (first_free_address div PGSIZE)..<unat (npages s)] s)))))
      else Inl (Wild 0))"

definition page_alloc :: "u32 \<Rightarrow> kern \<Rightarrow> kerr + (nat option \<times> kern)" where
  "page_alloc alloc_flags s =
     (case page_free_list s of
        None \<Rightarrow> Inr (None, s)
      | Some pg \<Rightarrow>
          if pg < length (pages s) then
            (let s = s\<lparr>page_free_list := pp_link (pages s ! pg)\<rparr>;
                 s = upd_page pg (\<lambda>p. p\<lparr>pp_ref := 0, pp_link := None\<rparr>) s
             in if alloc_flags AND ALLOC_ZERO \<noteq> 0
                then res_bind (page2kva s pg) (\<lambda>kva.
                       Inr (Some pg, s\<lparr>kmem := memset (kmem s) kva 0 PGSIZE\<rparr>))
                else Inr (Some pg, s))
          else Inl (Wild pg))"

definition page_free :: "nat \<Rightarrow> kern \<Rightarrow> kerr + kern" where
  "page_free pp s =
     (if pp < length (pages s) then
        (if pp_ref (pages s ! pp) \<noteq> 0 \<or> pp_link (pages s ! pp) \<noteq> None
         then Inl (Page_free_in_use pp)
         else (let tmp = page_free_list s; s = s\<lparr>page_free_list := Some pp\<rparr>
               in Inr (upd_page pp (\<lambda>p. p\<lparr>pp_link := tmp\<rparr>) s)))
      else Inl (Wild pp))"

definition page_decref :: "nat \<Rightarrow> kern \<Rightarrow> kerr + kern" where
  "page_decref pp s =
     (if pp < length (pages s) then
        (let s = upd_page pp (\<lambda>p. p\<lparr>pp_ref := pp_ref p - 1\<rparr>) s
         in if pp_ref (pages s ! pp) = 0 then page_free pp s else Inr s)
      else Inl (Wild pp))"

section \<open>The free list as a list\<close>

fun linked :: "(nat \<Rightarrow> nat option) \<Rightarrow> nat option \<Rightarrow> nat list \<Rightarrow> bool" where
  "linked h p [] = (p = None)"
| "linked h p (x # xs) = (p = Some x \<and> linked h (h x) xs)"

definition link_of :: "kern \<Rightarrow> nat \<Rightarrow> nat option" where
  "link_of s i = pp_link (pages s ! i)"

definition ref_of :: "kern \<Rightarrow> nat \<Rightarrow> u16" where
  "ref_of s i = pp_ref (pages s ! i)"

text \<open>
  \<open>frees s fl\<close>: the free list of \<open>s\<close> is \<open>fl\<close>, and the array is well formed. Every page of
  \<open>fl\<close> exists once and has no references; every other page has a null link. Physical
  memory fits into the 256 MB window above \<open>KERNBASE\<close>.
\<close>

definition frees :: "kern \<Rightarrow> nat list \<Rightarrow> bool" where
  "frees s fl \<longleftrightarrow>
     linked (link_of s) (page_free_list s) fl \<and> distinct fl \<and>
     (\<forall>i \<in> set fl. i < length (pages s) \<and> ref_of s i = 0) \<and>
     (\<forall>i < length (pages s). i \<notin> set fl \<longrightarrow> link_of s i = None) \<and>
     length (pages s) = unat (npages s) \<and> npages s \<le> 0x10000"

lemma linked_cong: "(\<And>x. x \<in> set xs \<Longrightarrow> h x = h' x) \<Longrightarrow> linked h p xs = linked h' p xs"
  by (induction xs arbitrary: p) auto

lemma linked_unique: "linked h p xs \<Longrightarrow> linked h p ys \<Longrightarrow> xs = ys"
proof (induction xs arbitrary: p ys)
  case Nil
  thus ?case by (cases ys) auto
next
  case (Cons x xs)
  thus ?case by (cases ys) auto
qed

lemma freesI:
  assumes "linked (link_of s) (page_free_list s) fl" and "distinct fl"
    and "\<And>i. i \<in> set fl \<Longrightarrow> i < unat (npages s) \<and> ref_of s i = 0"
    and "\<And>i. i < unat (npages s) \<Longrightarrow> i \<notin> set fl \<Longrightarrow> link_of s i = None"
    and "length (pages s) = unat (npages s)" and "npages s \<le> 0x10000"
  shows "frees s fl"
  using assms by (simp add: frees_def)

lemma frees_unique: "frees s fl \<Longrightarrow> frees s fl' \<Longrightarrow> fl = fl'"
  by (auto simp: frees_def intro: linked_unique)

lemma upd_page_simps [simp]:
  "npages (upd_page i f s) = npages s" "npages_basemem (upd_page i f s) = npages_basemem s"
  "kern_pgdir (upd_page i f s) = kern_pgdir s" "page_free_list (upd_page i f s) = page_free_list s"
  "nextfree (upd_page i f s) = nextfree s" "kmem (upd_page i f s) = kmem s"
  "tlb (upd_page i f s) = tlb s" "length (pages (upd_page i f s)) = length (pages s)"
  "pages_kva (upd_page i f s) = pages_kva s"
  by (simp_all add: upd_page_def)

lemma upd_page_nth [simp]:
  "i < length (pages s) \<Longrightarrow> pages (upd_page i f s) ! i = f (pages s ! i)"
  "i \<noteq> j \<Longrightarrow> pages (upd_page i f s) ! j = pages s ! j"
  by (simp_all add: upd_page_def)

lemma ref_of_upd [simp]:
  "i < length (pages s) \<Longrightarrow> ref_of (upd_page i f s) j = (if i = j then pp_ref (f (pages s ! i)) else ref_of s j)"
  by (auto simp: ref_of_def)

lemma link_of_upd [simp]:
  "i < length (pages s) \<Longrightarrow> link_of (upd_page i f s) j = (if i = j then pp_link (f (pages s ! i)) else link_of s j)"
  by (auto simp: link_of_def)

section \<open>Page addresses\<close>

lemma unat_page2pa: "pp < 0x100000 \<Longrightarrow> unat (page2pa pp) = pp * 4096"
proof -
  assume pp: "pp < 0x100000"
  have "page2pa pp = of_nat (pp * 4096)"
    by (simp add: page2pa_def push_bit_eq_mult)
  moreover have "unat (of_nat (pp * 4096) :: u32) = pp * 4096"
    using pp by (intro unat_of_nat_small) simp
  ultimately show ?thesis by simp
qed

lemma PGNUM_page2pa: "pp < 0x100000 \<Longrightarrow> PGNUM (page2pa pp) = of_nat pp"
  by (simp add: word_unat_eq_iff unat_PGNUM unat_page2pa unat_of_nat)

lemma page2pa_aligned: "pp < 0x100000 \<Longrightarrow> 4096 dvd unat (page2pa pp)"
  by (simp add: unat_page2pa)

lemma KADDR_page2pa: "pp < unat (npages s) \<Longrightarrow> pp < 0x100000 \<Longrightarrow> page2kva s pp = Inr (page2pa pp + KERNBASE)"
  by (simp add: page2kva_def KADDR_def PGNUM_page2pa word_le_nat_alt unat_of_nat)

lemma pa2page_page2pa: "pp < unat (npages s) \<Longrightarrow> pp < 0x100000 \<Longrightarrow> pa2page s (page2pa pp) = Inr pp"
  by (simp add: pa2page_def PGNUM_page2pa word_le_nat_alt unat_of_nat)

text \<open>The kernel virtual addresses of the bytes of page \<open>pp\<close>.\<close>

definition page_kva :: "nat \<Rightarrow> u32" where
  "page_kva pp = page2pa pp + KERNBASE"

definition in_page :: "nat \<Rightarrow> u32 \<Rightarrow> bool" where
  "in_page pp x \<longleftrightarrow> unat (x - page_kva pp) < 4096"

lemma unat_page_kva: "pp < 0x10000 \<Longrightarrow> unat (page_kva pp) = 0xF0000000 + pp * 4096"
  by (simp add: page_kva_def unat_add_no_carry unat_page2pa)

lemma page_kva_aligned: "pp < 0x10000 \<Longrightarrow> 4096 dvd unat (page_kva pp)"
  by (simp add: unat_page_kva dvd_add)

lemma unat_page_offset:
  "pp < 0x10000 \<Longrightarrow> unat off < 4096 \<Longrightarrow> unat (page_kva pp + off) = unat (page_kva pp) + unat off"
  by (rule unat_add_aligned [where n = 4096]) (simp_all add: page_kva_aligned)

lemma in_page_offset [simp]: "unat off < 4096 \<Longrightarrow> in_page pp (page_kva pp + off)"
  by (simp add: in_page_def)

lemma in_page_iff: "pp < 0x10000 \<Longrightarrow> in_page pp x \<longleftrightarrow> unat x div 4096 = 0xF0000 + pp"
proof
  assume pp: "pp < 0x10000" and "in_page pp x"
  hence "unat x = unat (page_kva pp) + unat (x - page_kva pp)" "unat (x - page_kva pp) < 4096"
    using unat_page_offset [of pp "x - page_kva pp"] by (simp_all add: in_page_def)
  thus "unat x div 4096 = 0xF0000 + pp" using pp by (simp add: unat_page_kva)
next
  assume pp: "pp < 0x10000" and x: "unat x div 4096 = 0xF0000 + pp"
  have "unat x = (0xF0000 + pp) * 4096 + unat x mod 4096"
    using x by (metis div_mult_mod_eq)
  moreover from this have "unat (x - page_kva pp) = unat x - unat (page_kva pp)"
    using pp by (intro unat_sub_no_borrow) (simp add: unat_page_kva)
  moreover have "unat x mod 4096 < 4096" by simp
  ultimately show "in_page pp x" using pp by (simp add: in_page_def unat_page_kva)
qed

lemma in_page_disjoint:
  "in_page pp x \<Longrightarrow> in_page qq x \<Longrightarrow> pp < 0x10000 \<Longrightarrow> qq < 0x10000 \<Longrightarrow> pp = qq"
  by (simp add: in_page_iff)

lemma memset_page_zero:
  "memset m (page_kva pp) 0 PGSIZE = (\<lambda>x. if in_page pp x then 0 else m x)"
  by (simp add: memset_fill fill_def in_page_def unsigned_0)

section \<open>page_alloc, page_free and page_decref on the free list\<close>

lemma frees_kmem [simp]: "frees (s\<lparr>kmem := m\<rparr>) fl = frees s fl"
  by (simp add: frees_def link_of_def [abs_def] ref_of_def)

lemma frees_tlb [simp]: "frees (s\<lparr>tlb := t\<rparr>) fl = frees s fl"
  by (simp add: frees_def link_of_def [abs_def] ref_of_def)

lemma frees_bounds:
  assumes "frees s fl"
  shows "length (pages s) = unat (npages s)" and "length (pages s) \<le> 0x10000"
    and "i \<in> set fl \<Longrightarrow> i < length (pages s)" and "i \<in> set fl \<Longrightarrow> i < 0x10000"
    and "i < length (pages s) \<Longrightarrow> i < 0x10000"
  using assms by (auto simp: frees_def word_le_nat_alt)

text \<open>The state in which \<open>page_alloc\<close> leaves the kernel when it hands out page \<open>x\<close>.\<close>

definition popped :: "u32 \<Rightarrow> nat \<Rightarrow> kern \<Rightarrow> kern" where
  "popped flags x s =
     (upd_page x (\<lambda>p. p\<lparr>pp_ref := 0, pp_link := None\<rparr>) s)\<lparr>
       page_free_list := link_of s x,
       kmem := (if flags AND 1 \<noteq> 0 then (\<lambda>a. if in_page x a then 0 else kmem s a) else kmem s)\<rparr>"

lemma upd_page_free_list: "upd_page i f (s\<lparr>page_free_list := l\<rparr>) = (upd_page i f s)\<lparr>page_free_list := l\<rparr>"
  by (simp add: upd_page_def)

lemma popped_eq:
  "upd_page x (\<lambda>p. p\<lparr>pp_ref := 0, pp_link := None\<rparr>) (s\<lparr>page_free_list := link_of s x\<rparr>)
     = popped 0 x s"
  by (simp add: popped_def upd_page_free_list)

lemma popped_simps [simp]:
  "npages (popped f x s) = npages s" "kern_pgdir (popped f x s) = kern_pgdir s"
  "length (pages (popped f x s)) = length (pages s)" "tlb (popped f x s) = tlb s"
  "npages_basemem (popped f x s) = npages_basemem s" "nextfree (popped f x s) = nextfree s"
  "pages_kva (popped f x s) = pages_kva s"
  "page_free_list (popped f x s) = link_of s x"
  "kmem (popped f x s) = (if f AND 1 \<noteq> 0 then (\<lambda>a. if in_page x a then 0 else kmem s a) else kmem s)"
  by (simp_all add: popped_def)

lemma ref_of_popped [simp]:
  "x < length (pages s) \<Longrightarrow> ref_of (popped f x s) j = (if j = x then 0 else ref_of s j)"
  by (simp add: popped_def ref_of_def upd_page_def nth_list_update)

lemma link_of_popped [simp]:
  "x < length (pages s) \<Longrightarrow> link_of (popped f x s) j = (if j = x then None else link_of s j)"
  by (simp add: popped_def link_of_def upd_page_def nth_list_update)

lemma page_alloc_Nil: "frees s [] \<Longrightarrow> page_alloc f s = Inr (None, s)"
  by (simp add: frees_def page_alloc_def)

lemma page_alloc_Cons:
  assumes "frees s (x # fl)"
  shows "page_alloc f s = Inr (Some x, popped f x s)" and "frees (popped f x s) fl"
proof -
  from assms have x: "page_free_list s = Some x" "x < length (pages s)" "x < 0x10000"
    "x < unat (npages s)" "x \<notin> set fl" "linked (link_of s) (link_of s x) fl"
    using frees_bounds(1) [OF assms] frees_bounds(3,4) [OF assms, of x]
    by (auto simp: frees_def)
  have kva: "page2kva t x = Inr (page_kva x)" if "npages t = npages s" for t
    using KADDR_page2pa [of x t] x that by (simp add: page_kva_def)
  show "page_alloc f s = Inr (Some x, popped f x s)"
    using x kva
    by (simp add: page_alloc_def Let_def memset_page_zero [unfolded PGSIZE_def]
        popped_def upd_page_free_list flip: link_of_def)
  have "linked (link_of (popped f x s)) (page_free_list (popped f x s)) fl"
    using x by (subst linked_cong [where h' = "link_of s"]) auto
  thus "frees (popped f x s) fl"
    using assms x by (auto simp: frees_def)
qed

definition pushed :: "nat \<Rightarrow> kern \<Rightarrow> kern" where
  "pushed pp s = (upd_page pp (\<lambda>p. p\<lparr>pp_link := page_free_list s\<rparr>) s)\<lparr>page_free_list := Some pp\<rparr>"

lemma pushed_simps [simp]:
  "npages (pushed x s) = npages s" "kern_pgdir (pushed x s) = kern_pgdir s"
  "length (pages (pushed x s)) = length (pages s)" "tlb (pushed x s) = tlb s"
  "npages_basemem (pushed x s) = npages_basemem s" "nextfree (pushed x s) = nextfree s"
  "pages_kva (pushed x s) = pages_kva s" "kmem (pushed x s) = kmem s"
  "page_free_list (pushed x s) = Some x"
  by (simp_all add: pushed_def)

lemma ref_of_pushed [simp]: "ref_of (pushed x s) j = ref_of s j"
  by (cases "x < length (pages s)")
     (auto simp: pushed_def ref_of_def upd_page_def nth_list_update list_update_beyond)

lemma link_of_pushed [simp]:
  "x < length (pages s) \<Longrightarrow> link_of (pushed x s) j = (if j = x then page_free_list s else link_of s j)"
  by (simp add: pushed_def link_of_def upd_page_def nth_list_update)

lemma page_free_ok:
  assumes "frees s fl" and "pp < length (pages s)" and "pp \<notin> set fl" and "ref_of s pp = 0"
  shows "page_free pp s = Inr (pushed pp s)" and "frees (pushed pp s) (pp # fl)"
proof -
  have "link_of s pp = None" using assms by (simp add: frees_def)
  thus "page_free pp s = Inr (pushed pp s)"
    using assms by (simp add: page_free_def pushed_def ref_of_def link_of_def upd_page_free_list)
  have "linked (link_of (pushed pp s)) (page_free_list s) fl"
    using assms by (subst linked_cong [where h' = "link_of s"]) (auto simp: frees_def)
  thus "frees (pushed pp s) (pp # fl)"
    using assms by (auto simp: frees_def)
qed

lemma page_free_in_use: "pp < length (pages s) \<Longrightarrow> ref_of s pp \<noteq> 0 \<Longrightarrow> page_free pp s = Inl (Page_free_in_use pp)"
  by (simp add: page_free_def ref_of_def)

lemma page_decref_shared:
  assumes "pp < length (pages s)" and "ref_of s pp \<noteq> 1"
  shows "page_decref pp s = Inr (upd_page pp (\<lambda>p. p\<lparr>pp_ref := pp_ref p - 1\<rparr>) s)"
  using assms by (simp add: page_decref_def ref_of_def Let_def)

lemma frees_upd_ref:
  assumes "frees s fl" and "pp < length (pages s)" and "pp \<notin> set fl"
  shows "frees (upd_page pp (\<lambda>p. p\<lparr>pp_ref := g p\<rparr>) s) fl"
proof -
  let ?s = "upd_page pp (\<lambda>p. p\<lparr>pp_ref := g p\<rparr>) s"
  have "link_of ?s j = link_of s j" for j
    using assms(2) by (cases "j = pp") (simp_all add: link_of_def)
  hence "link_of ?s = link_of s" by auto
  moreover have "ref_of ?s j = ref_of s j" if "j \<in> set fl" for j
    using assms(2,3) that by auto
  ultimately show ?thesis using assms by (auto simp: frees_def simp del: ref_of_upd)
qed

lemma page_decref_last:
  assumes "frees s fl" and "pp < length (pages s)" and "pp \<notin> set fl" and "ref_of s pp = 1"
  defines "s' \<equiv> pushed pp (upd_page pp (\<lambda>p. p\<lparr>pp_ref := pp_ref p - 1\<rparr>) s)"
  shows "page_decref pp s = Inr s'" and "frees s' (pp # fl)"
proof -
  let ?u = "upd_page pp (\<lambda>p. p\<lparr>pp_ref := pp_ref p - 1\<rparr>) s"
  have u: "frees ?u fl" "ref_of ?u pp = 0" "pp < length (pages ?u)"
    using frees_upd_ref [OF assms(1-3)] assms(2,4) by (simp_all add: ref_of_def)
  show "page_decref pp s = Inr s'" "frees s' (pp # fl)"
    using page_free_ok [OF u(1,3) assms(3) u(2)] u(2) assms(2)
    by (simp_all add: page_decref_def ref_of_def s'_def Let_def)
qed

section \<open>page_init\<close>

text \<open>All that \<open>link_pages\<close> and \<open>mark_used\<close> may change.\<close>

definition same_globals :: "kern \<Rightarrow> kern \<Rightarrow> bool" where
  "same_globals s t \<longleftrightarrow> npages t = npages s \<and> npages_basemem t = npages_basemem s \<and>
     kern_pgdir t = kern_pgdir s \<and> pages_kva t = pages_kva s \<and> nextfree t = nextfree s \<and>
     kmem t = kmem s \<and> tlb t = tlb s \<and> length (pages t) = length (pages s)"

lemma same_globals_refl [simp]: "same_globals s s"
  by (simp add: same_globals_def)

lemma same_globals_trans: "same_globals s t \<Longrightarrow> same_globals t u \<Longrightarrow> same_globals s u"
  by (simp add: same_globals_def)

lemma same_globals_upd [simp]:
  "same_globals s (upd_page i f s)" "same_globals s ((upd_page i f s)\<lparr>page_free_list := l\<rparr>)"
  by (simp_all add: same_globals_def)

lemma link_pages_spec:
  assumes "linked (link_of s) (page_free_list s) fl" and "distinct (is @ fl)"
    and "\<forall>i \<in> set is. i < length (pages s)"
  shows "\<exists>s'. link_pages is s = Inr s' \<and> same_globals s s'
     \<and> linked (link_of s') (page_free_list s') (rev is @ fl)
     \<and> (\<forall>j. ref_of s' j = (if j \<in> set is then 0 else ref_of s j))
     \<and> (\<forall>j. j \<notin> set is \<longrightarrow> link_of s' j = link_of s j)"
  using assms
proof (induction "is" arbitrary: s fl)
  case (Cons i "is")
  let ?s = "(upd_page i (\<lambda>p. p\<lparr>pp_ref := 0, pp_link := page_free_list s\<rparr>) s)\<lparr>page_free_list := Some i\<rparr>"
  have i: "i < length (pages s)" using Cons.prems by simp
  have lk: "link_of ?s j = (if j = i then page_free_list s else link_of s j)"
    and rf: "ref_of ?s j = (if j = i then 0 else ref_of s j)" for j
    using i by (auto simp: link_of_def ref_of_def)
  have "linked (link_of ?s) (page_free_list s) fl"
    using Cons.prems lk by (subst linked_cong [where h' = "link_of s"]) auto
  hence "linked (link_of ?s) (page_free_list ?s) (i # fl)" using lk by simp
  from Cons.IH [OF this] Cons.prems obtain s' where s': "link_pages is ?s = Inr s'"
    "same_globals ?s s'" "linked (link_of s') (page_free_list s') (rev is @ i # fl)"
    "\<forall>j. ref_of s' j = (if j \<in> set is then 0 else ref_of ?s j)"
    "\<forall>j. j \<notin> set is \<longrightarrow> link_of s' j = link_of ?s j"
    by auto
  have "same_globals s s'" using s'(2) same_globals_trans same_globals_upd(2) by blast
  with s' i lk rf show ?case by (intro exI [of _ s']) auto
qed auto

lemma mark_used_spec:
  assumes "\<forall>i \<in> set is. i < length (pages s)"
  shows "\<exists>s'. mark_used is s = Inr s' \<and> same_globals s s' \<and> page_free_list s' = page_free_list s
     \<and> (\<forall>j. ref_of s' j = (if j \<in> set is then 1 else ref_of s j))
     \<and> (\<forall>j. link_of s' j = link_of s j)"
  using assms
proof (induction "is" arbitrary: s)
  case (Cons i "is")
  let ?s = "upd_page i (\<lambda>p. p\<lparr>pp_ref := 1\<rparr>) s"
  have i: "i < length (pages s)" using Cons.prems by simp
  have lk: "link_of ?s j = link_of s j" and rf: "ref_of ?s j = (if j = i then 1 else ref_of s j)" for j
    using i by (cases "j = i"; simp add: link_of_def ref_of_def)+
  from Cons.IH [of ?s] Cons.prems obtain s' where s': "mark_used is ?s = Inr s'"
    "same_globals ?s s'" "page_free_list s' = page_free_list s"
    "\<forall>j. ref_of s' j = (if j \<in> set is then 1 else ref_of ?s j)" "\<forall>j. link_of s' j = link_of ?s j"
    by auto
  have "same_globals s s'" using s'(2) same_globals_trans same_globals_upd(1) by blast
  thus ?case using s' i rf lk by (intro exI [of _ s']) auto
qed auto

lemma PADDR_page_kva:
  assumes "pp < 0x10000"
  shows "PADDR (page_kva pp) = Inr (page2pa pp)"
proof -
  have "\<not> page_kva pp < KERNBASE" using assms by (simp add: word_less_nat_alt unat_page_kva)
  thus ?thesis by (simp add: PADDR_def page_kva_def)
qed

lemma boot_alloc_zero: "nextfree s \<noteq> 0 \<Longrightarrow> boot_alloc kend 0 s = (nextfree s, s)"
  by (simp add: boot_alloc_def)

lemma page_init_frees:
  assumes len: "length (pages s) = unat (npages s)" and np: "npages s \<le> 0x10000" "256 \<le> npages s"
    and base: "npages_basemem s \<le> 160"
    and zero: "page_free_list s = None" "\<forall>i < length (pages s). link_of s i = None \<and> ref_of s i = 0"
    and ff: "nextfree s = page_kva ff" "256 \<le> ff" "ff \<le> unat (npages s)" "ff < 0x10000"
  shows "\<exists>s'. page_init kend s = Inr s' \<and> same_globals s s'
     \<and> frees s' (rev [ff..<unat (npages s)] @ rev [1..<unat (npages_basemem s)])
     \<and> (\<forall>j < length (pages s). ref_of s' j = (if j = 0 \<or> 160 \<le> j \<and> j < ff then 1 else 0))"
proof -
  let ?nb = "unat (npages_basemem s)" and ?np = "unat (npages s)"
  have nb: "?nb \<le> 160" "256 \<le> ?np" "?np \<le> 0x10000"
    using base np by (simp_all add: word_le_nat_alt)
  let ?s0 = "upd_page 0 (\<lambda>p. p\<lparr>pp_ref := 1, pp_link := None\<rparr>) s"
  have l0: "0 < length (pages s)" using len nb by simp
  have s0: "page_free_list ?s0 = None" "same_globals s ?s0"
    "\<forall>i < length (pages s). link_of ?s0 i = None \<and> ref_of ?s0 i = (if i = 0 then 1 else 0)"
    using zero l0 by auto
  obtain s1 where s1: "link_pages [1..<?nb] ?s0 = Inr s1" "same_globals ?s0 s1"
    "linked (link_of s1) (page_free_list s1) (rev [1..<?nb])"
    "\<forall>j. ref_of s1 j = (if j \<in> set [1..<?nb] then 0 else ref_of ?s0 j)"
    "\<forall>j. j \<notin> set [1..<?nb] \<longrightarrow> link_of s1 j = link_of ?s0 j"
    using link_pages_spec [of ?s0 "[]" "[1..<?nb]"] s0 nb len by auto
  obtain s2 where s2: "mark_used [160..<256] s1 = Inr s2" "same_globals s1 s2"
    "page_free_list s2 = page_free_list s1"
    "\<forall>j. ref_of s2 j = (if j \<in> set [160..<256] then 1 else ref_of s1 j)"
    "\<forall>j. link_of s2 j = link_of s1 j"
    using mark_used_spec [of "[160..<256]" s1] s0(2) s1(2) nb len
    by (auto simp: same_globals_def)
  obtain s3 where s3: "mark_used [256..<ff] s2 = Inr s3" "same_globals s2 s3"
    "page_free_list s3 = page_free_list s2"
    "\<forall>j. ref_of s3 j = (if j \<in> set [256..<ff] then 1 else ref_of s2 j)"
    "\<forall>j. link_of s3 j = link_of s2 j"
    using mark_used_spec [of "[256..<ff]" s2] s0(2) s1(2) s2(2) ff len
    by (auto simp: same_globals_def)
  have sg: "same_globals s s3"
    using s0(2) s1(2) s2(2) s3(2) by (simp add: same_globals_def)
  have "link_of s3 = link_of s1" using s2(5) s3(5) by auto
  hence "linked (link_of s3) (page_free_list s3) (rev [1..<?nb])"
    using s1(3) s2(3) s3(3) by simp
  then obtain s4 where s4: "link_pages [ff..<?np] s3 = Inr s4" "same_globals s3 s4"
    "linked (link_of s4) (page_free_list s4) (rev [ff..<?np] @ rev [1..<?nb])"
    "\<forall>j. ref_of s4 j = (if j \<in> set [ff..<?np] then 0 else ref_of s3 j)"
    "\<forall>j. j \<notin> set [ff..<?np] \<longrightarrow> link_of s4 j = link_of s3 j"
    using link_pages_spec [of s3 "rev [1..<?nb]" "[ff..<?np]"] sg nb ff len
    by (auto simp: same_globals_def)
  have nf: "nextfree s2 = page_kva ff" "npages s2 = npages s"
    using s0(2) s1(2) s2(2) ff(1) by (simp_all add: same_globals_def)
  have "unat (page_kva ff) \<noteq> 0" using ff by (simp add: unat_page_kva)
  hence ba: "boot_alloc kend 0 s2 = (page_kva ff, s2)"
    using boot_alloc_zero [of s2 kend] nf by (metis unat_0)
  have ffu: "unat (page2pa ff div 4096) = ff"
    using ff by (simp add: unat_div unat_page2pa)
  have "page_init kend s = Inr s4"
    using l0 s1(1) s2(1) s3(1) s4(1) ba ff nf ffu PADDR_page_kva [of ff] s3(2)
    by (simp add: page_init_def Let_def same_globals_def)
  moreover have g4: "same_globals s s4" using sg s4(2) same_globals_trans by blast
  moreover have refs: "ref_of s4 j = (if j = 0 \<or> 160 \<le> j \<and> j < ff then 1 else 0)"
    if "j < length (pages s)" for j
  proof -
    have "ref_of ?s0 j = (if j = 0 then 1 else 0)" using s0(3) that by blast
    hence "ref_of s4 j = (if ff \<le> j \<and> j < ?np then 0 else if 256 \<le> j \<and> j < ff then 1
        else if 160 \<le> j \<and> j < 256 then 1 else if 1 \<le> j \<and> j < ?nb then 0
        else if j = 0 then 1 else 0)"
      by (simp only: s4(4) s3(4) s2(4) s1(4) set_upt atLeastLessThan_iff)
    thus ?thesis using nb ff len that by auto
  qed
  moreover have "frees s4 (rev [ff..<?np] @ rev [1..<?nb])"
  proof -
    have np4: "npages s4 = npages s" "length (pages s4) = ?np"
      using g4 len by (simp_all add: same_globals_def)
    show ?thesis
    proof (rule freesI)
      fix j assume j: "j < unat (npages s4)" "j \<notin> set (rev [ff..<?np] @ rev [1..<?nb])"
      hence "j \<notin> set [ff..<?np]" "j \<notin> set [1..<?nb]" "j < length (pages s)"
        using len np4 by simp_all
      thus "link_of s4 j = None" using s4(5) s3(5) s2(5) s1(5) s0(3) by metis
    next
      fix j assume "j \<in> set (rev [ff..<?np] @ rev [1..<?nb])"
      thus "j < unat (npages s4) \<and> ref_of s4 j = 0" using refs [of j] nb ff len np4 by auto
    next
      show "distinct (rev [ff..<?np] @ rev [1..<?nb])" using nb ff by auto
    qed (use s4(3) np(1) np4 in simp_all)
  qed
  ultimately show ?thesis by blast
qed

section \<open>The contract of a page allocator\<close>

text \<open>Allocating \<open>n\<close> times in a row, and giving pages back one by one, for any allocator.\<close>

fun alloc_n :: "('s \<Rightarrow> 'e + ('p option \<times> 's)) \<Rightarrow> nat \<Rightarrow> 's \<Rightarrow> 'e + ('p list \<times> 's)" where
  "alloc_n alloc 0 s = Inr ([], s)"
| "alloc_n alloc (Suc n) s = res_bind (alloc s) (\<lambda>(x, s).
     case x of None \<Rightarrow> Inr ([], s)
     | Some x \<Rightarrow> res_bind (alloc_n alloc n s) (\<lambda>(xs, s). Inr (x # xs, s)))"

fun release_all :: "('p \<Rightarrow> 's \<Rightarrow> 'e + 's) \<Rightarrow> 'p list \<Rightarrow> 's \<Rightarrow> 'e + 's" where
  "release_all release [] s = Inr s"
| "release_all release (x # xs) s = res_bind (release x s) (release_all release xs)"

locale page_allocator =
  fixes alloc :: "'s \<Rightarrow> 'e + ('p option \<times> 's)"
    and release :: "'p \<Rightarrow> 's \<Rightarrow> 'e + 's"
    and free_pages :: "'s \<Rightarrow> 'p list \<Rightarrow> bool"
    and releasable :: "'s \<Rightarrow> 'p \<Rightarrow> bool"
  assumes alloc_none: "free_pages s [] \<Longrightarrow> alloc s = Inr (None, s)"
    and alloc_some: "free_pages s (x # fl) \<Longrightarrow>
      \<exists>s'. alloc s = Inr (Some x, s') \<and> free_pages s' fl \<and> releasable s' x \<and>
        (\<forall>y. releasable s y \<longrightarrow> releasable s' y)"
    and release_push: "free_pages s fl \<Longrightarrow> releasable s x \<Longrightarrow> x \<notin> set fl \<Longrightarrow>
      \<exists>s'. release x s = Inr s' \<and> free_pages s' (x # fl) \<and> (\<forall>y. releasable s y \<longrightarrow> releasable s' y)"
    and free_distinct: "free_pages s fl \<Longrightarrow> distinct fl"
begin

lemma alloc_n_take:
  "free_pages s fl \<Longrightarrow>
     \<exists>s'. alloc_n alloc n s = Inr (take n fl, s') \<and> free_pages s' (drop n fl) \<and>
       (\<forall>y. releasable s y \<or> y \<in> set (take n fl) \<longrightarrow> releasable s' y)"
proof (induction n arbitrary: s fl)
  case (Suc n)
  show ?case
  proof (cases fl)
    case Nil
    thus ?thesis using Suc.prems alloc_none by simp
  next
    case (Cons x fl')
    then obtain s1 where s1: "alloc s = Inr (Some x, s1)" "free_pages s1 fl'" "releasable s1 x"
      "\<forall>y. releasable s y \<longrightarrow> releasable s1 y"
      using alloc_some Suc.prems by blast
    from Suc.IH [OF s1(2)] obtain s2 where "alloc_n alloc n s1 = Inr (take n fl', s2)"
      "free_pages s2 (drop n fl')" "\<forall>y. releasable s1 y \<or> y \<in> set (take n fl') \<longrightarrow> releasable s2 y"
      by blast
    with s1 Cons show ?thesis by auto
  qed
qed auto

lemma release_all_push:
  "free_pages s fl \<Longrightarrow> distinct (xs @ fl) \<Longrightarrow> \<forall>x \<in> set xs. releasable s x \<Longrightarrow>
     \<exists>s'. release_all release xs s = Inr s' \<and> free_pages s' (rev xs @ fl)"
proof (induction xs arbitrary: s fl)
  case (Cons x xs)
  obtain s1 where s1: "release x s = Inr s1" "free_pages s1 (x # fl)"
      "\<forall>y. releasable s y \<longrightarrow> releasable s1 y"
    using release_push [of s fl x] Cons.prems by auto
  from Cons.IH [OF s1(2)] s1(3) Cons.prems obtain s2 where
    "release_all release xs s1 = Inr s2" "free_pages s2 (rev xs @ x # fl)" by auto
  with s1 show ?case by auto
qed auto

lemma alloc_release_roundtrip:
  assumes "free_pages s fl"
  shows "\<exists>xs s1 s2. alloc_n alloc n s = Inr (xs, s1) \<and> length xs = min n (length fl) \<and> distinct xs \<and>
     release_all release (rev xs) s1 = Inr s2 \<and> free_pages s2 fl"
proof -
  obtain s1 where s1: "alloc_n alloc n s = Inr (take n fl, s1)" "free_pages s1 (drop n fl)"
      "\<forall>y. releasable s y \<or> y \<in> set (take n fl) \<longrightarrow> releasable s1 y"
    using alloc_n_take [OF assms] by blast
  have d: "distinct fl" using assms by (rule free_distinct)
  hence "distinct (rev (take n fl) @ drop n fl)" by (simp add: set_take_disj_set_drop_if_distinct)
  from release_all_push [OF s1(2) this] s1(3) obtain s2 where
    "release_all release (rev (take n fl)) s1 = Inr s2" "free_pages s2 (take n fl @ drop n fl)"
    by auto
  thus ?thesis using s1 d by (intro exI [of _ "take n fl"]) auto
qed

lemma alloc_exhausted:
  "free_pages s fl \<Longrightarrow> \<exists>s'. alloc_n alloc (length fl) s = Inr (fl, s') \<and> alloc s' = Inr (None, s')"
  using alloc_n_take [of s fl "length fl"] alloc_none by fastforce

end

text \<open>The kernel's allocator satisfies the contract: a page can be given back when it
  exists and has no references.\<close>

definition unreferenced :: "kern \<Rightarrow> nat \<Rightarrow> bool" where
  "unreferenced s pp \<longleftrightarrow> pp < length (pages s) \<and> ref_of s pp = 0"

interpretation kalloc: page_allocator "page_alloc flags" page_free frees unreferenced
proof (unfold_locales, goal_cases)
  case (1 s)
  thus ?case by (rule page_alloc_Nil)
next
  case (2 s x fl)
  hence "x < length (pages s)" using frees_bounds(3) [OF 2, of x] by simp
  thus ?case using page_alloc_Cons [OF 2, of flags] by (auto simp: unreferenced_def)
next
  case (3 s fl x)
  thus ?case using page_free_ok [of s fl x] by (auto simp: unreferenced_def)
next
  case (4 s fl)
  thus ?case by (simp add: frees_def)
qed

section \<open>Properties\<close>

text \<open>A kernel with four pages, the last three of them free.\<close>

definition demo_kern :: kern where
  "demo_kern = \<lparr>npages = 4, npages_basemem = 4, kern_pgdir = 0xF0000000, pages_kva = 0, pages =
     [\<lparr>pp_link = None, pp_ref = 1\<rparr>, \<lparr>pp_link = None, pp_ref = 0\<rparr>,
      \<lparr>pp_link = Some 1, pp_ref = 0\<rparr>, \<lparr>pp_link = Some 2, pp_ref = 0\<rparr>],
     page_free_list = Some 3, nextfree = 0xF0001000, kmem = (\<lambda>_. 0x55), tlb = (\<lambda>_. True)\<rparr>"

lemma less_4_cases: "(i :: nat) < 4 \<longleftrightarrow> i = 0 \<or> i = 1 \<or> i = 2 \<or> i = 3"
  by arith

lemma demo_kern_frees: "frees demo_kern [3, 2, 1]"
  by (rule freesI) (auto simp: demo_kern_def link_of_def ref_of_def less_4_cases)



text \<open>\<open>page_free\<close> pushes an unreferenced page that is not free on the free list, and
  panics on a page that is still referenced.\<close>

theorem page_free_spec:
  assumes "frees s fl" and "pp < length (pages s)" and "pp \<notin> set fl"
  shows "if ref_of s pp = 0
     then \<exists>s'. page_free pp s = Inr s' \<and> frees s' (pp # fl) \<and> kmem s' = kmem s \<and>
       (\<forall>j. ref_of s' j = ref_of s j)
     else page_free pp s = Inl (Page_free_in_use pp)"
  using page_free_ok [OF assms] page_free_in_use [OF assms(2)] by auto

theorem page_free_spec_witness:
  "page_free 0 demo_kern = Inl (Page_free_in_use 0)"
  using page_free_spec [OF demo_kern_frees, of 0] by (simp add: demo_kern_def ref_of_def)

text \<open>\<open>page_decref\<close> on an allocated page decrements the 16-bit count and returns the
  page to the free list exactly when the count was one.\<close>

theorem page_decref_spec:
  assumes "frees s fl" and "pp < length (pages s)" and "pp \<notin> set fl"
  shows "\<exists>s'. page_decref pp s = Inr s' \<and> ref_of s' pp = ref_of s pp - 1 \<and>
     frees s' (if ref_of s pp = 1 then pp # fl else fl) \<and> kmem s' = kmem s \<and>
     (\<forall>j. j \<noteq> pp \<longrightarrow> ref_of s' j = ref_of s j)"
proof (cases "ref_of s pp = 1")
  case True
  thus ?thesis using page_decref_last [OF assms True] assms(2) by (auto simp flip: ref_of_def)
next
  case False
  thus ?thesis
    using page_decref_shared [OF assms(2) False] frees_upd_ref [OF assms] assms(2)
    by (auto simp flip: ref_of_def)
qed

theorem page_decref_spec_witness:
  "\<exists>s'. page_decref 0 demo_kern = Inr s' \<and> frees s' [0, 3, 2, 1]"
  using page_decref_spec [OF demo_kern_frees, of 0] by (auto simp: demo_kern_def ref_of_def)

text \<open>C18: any number of allocations yields distinct pages, as many as asked for or as there
  are, and freeing them in the opposite order restores the free list.\<close>

theorem page_alloc_free_roundtrip:
  assumes "frees s fl"
  shows "\<exists>xs s1 s2. alloc_n (page_alloc flags) n s = Inr (xs, s1) \<and> length xs = min n (length fl) \<and>
     distinct xs \<and> release_all page_free (rev xs) s1 = Inr s2 \<and> frees s2 fl"
  using assms by (rule kalloc.alloc_release_roundtrip)

theorem page_alloc_free_roundtrip_witness:
  "\<exists>xs s1 s2. alloc_n (page_alloc 0) 2 demo_kern = Inr (xs, s1) \<and> length xs = 2 \<and> distinct xs \<and>
     release_all page_free (rev xs) s1 = Inr s2 \<and> frees s2 [3, 2, 1]"
  using page_alloc_free_roundtrip [OF demo_kern_frees, of 0 2]
  by (simp add: numeral_2_eq_2)


definition zeroed_kern :: kern where
  "zeroed_kern = demo_kern\<lparr>npages := 300, npages_basemem := 160, page_free_list := None,
     nextfree := page_kva 290, pages := replicate 300 \<lparr>pp_link = None, pp_ref = 0\<rparr>\<rparr>"


text \<open>for at most 256 MB of memory \<open>KADDR\<close> never leaves the kernel window: it
  inverts \<open>PADDR\<close>, and it panics exactly on addresses beyond physical memory.\<close>

theorem KADDR_PADDR_inverse:
  assumes "npages s \<le> 0x10000"
  shows "if PGNUM pa < npages s then KADDR s pa = Inr (pa + KERNBASE) \<and> PADDR (pa + KERNBASE) = Inr pa
     else KADDR s pa = Inl (KADDR_invalid pa)"
proof (cases "PGNUM pa < npages s")
  case True
  hence "unat pa div 4096 < 65536" using assms by (simp add: word_less_nat_alt word_le_nat_alt unat_simps)
  hence "unat pa < 268435456" by simp
  hence "unat (pa + KERNBASE) = unat pa + 4026531840" by (simp add: unat_add_no_carry)
  hence "\<not> pa + KERNBASE < KERNBASE" by (simp add: word_less_nat_alt)
  thus ?thesis using True by (simp add: KADDR_def PADDR_def not_le)
qed (simp add: KADDR_def not_less)

theorem KADDR_PADDR_inverse_witness:
  "KADDR demo_kern 0x3004 = Inr 0xF0003004 \<and> PADDR 0xF0003004 = Inr 0x3004"
  using KADDR_PADDR_inverse [of demo_kern "0x3004"]
  by (simp add: demo_kern_def PGNUM_def)

text \<open>the reason for the bound of C6: with more than 256 MB, \<open>KADDR\<close> accepts a
  physical address and returns a wrapped address below \<open>KERNBASE\<close>, on which \<open>PADDR\<close>
  panics.\<close>

theorem KADDR_wraps:
  assumes "0x10000 < npages s"
  shows "KADDR s 0x10000000 = Inr 0 \<and> PADDR 0 = Inl (PADDR_invalid 0)"
  using assms by (simp add: KADDR_def PADDR_def PGNUM_def not_le)

theorem KADDR_wraps_witness:
  "KADDR (demo_kern\<lparr>npages := 0x20000\<rparr>) 0x10000000 = Inr 0"
  using KADDR_wraps [of "demo_kern\<lparr>npages := 0x20000\<rparr>"] by simp

lemma unat_nvram_read: "unat (nvram_read cmos r) =
    unat (cmos (ucast r)) + 256 * unat (cmos (ucast (r + 1)))"
proof -
  let ?a = "cmos (ucast r)" and ?b = "cmos (ucast (r + 1))"
  have "nvram_read cmos r = ucast ?a + push_bit 8 (ucast ?b)"
    unfolding nvram_read_def mc146818_read_def
    by (rule disjunctive_add_eq_or [symmetric], rule bit_word_eqI) (auto simp: bit_simps dest: bit_imp_le_length)
  also have "push_bit 8 (ucast ?b :: u32) = ucast ?b * 256" by (simp add: push_bit_eq_mult)
  finally have *: "nvram_read cmos r = ucast ?a + ucast ?b * 256" .
  have lt: "unat ?a < 256" "unat ?b < 256"
    using unsigned_less [where 'a = nat, of ?a] unsigned_less [where 'a = nat, of ?b] by simp_all
  hence ab: "unat (ucast ?a :: u32) = unat ?a" "unat (ucast ?b :: u32) = unat ?b"
    by (simp_all add: unsigned_ucast_eq take_bit_nat_eq_self)
  hence "unat (ucast ?b * 256 :: u32) = unat ?b * 256"
    using ab lt by (simp add: unat_mult_no_carry)
  thus ?thesis unfolding * using ab lt
    by (simp add: unat_add_no_carry)
qed

text \<open>detection computes the page counts without overflow from the three CMOS
  values, and bounds them.\<close>

theorem i386_detect_memory_spec:
  fixes cmos s
  defines "base \<equiv> unat (nvram_read cmos NVRAM_BASELO)" and "ext \<equiv> unat (nvram_read cmos NVRAM_EXTLO)"
    and "ext16 \<equiv> unat (nvram_read cmos NVRAM_EXT16LO) * 64"
    and "s' \<equiv> i386_detect_memory cmos s"
  shows "unat (npages s') = (if ext16 \<noteq> 0 then 16384 + ext16 else if ext \<noteq> 0 then 1024 + ext else base) div 4
     \<and> unat (npages_basemem s') = base div 4 \<and> unat (npages s') \<le> 1052656"
proof -
  have lt: "unat (nvram_read cmos r) < 65536" for r
  proof -
    have "unat (cmos a) < 256" for a
      using unsigned_less [where 'a = nat, of "cmos a"] by simp
    from this [of "ucast r"] this [of "ucast (r + 1)"] show ?thesis by (simp add: unat_nvram_read)
  qed
  let ?e = "nvram_read cmos NVRAM_EXT16LO"
  have e: "unat (?e * 64) = ext16" unfolding ext16_def using lt [of NVRAM_EXT16LO]
    by (simp add: unat_mult_no_carry)
  hence e0: "?e * 64 = 0 \<longleftrightarrow> ext16 = 0" by (metis unat_eq_zero)
  have x0: "nvram_read cmos NVRAM_EXTLO = 0 \<longleftrightarrow> ext = 0" unfolding ext_def by (metis unat_eq_zero)
  have "unat (16 * 1024 + ?e * 64) = 16384 + ext16"
    using e lt [of NVRAM_EXT16LO] unfolding ext16_def by (simp add: unat_add_no_carry)
  moreover have "unat (1 * 1024 + nvram_read cmos NVRAM_EXTLO) = 1024 + ext"
    using lt [of NVRAM_EXTLO] unfolding ext_def by (simp add: unat_add_no_carry)
  ultimately show ?thesis
    using lt [of NVRAM_EXT16LO] lt [of NVRAM_EXTLO] lt [of NVRAM_BASELO] e0 x0
    unfolding s'_def i386_detect_memory_def base_def ext_def [symmetric] ext16_def [symmetric]
    by (auto simp: Let_def unat_div ext_def ext16_def base_def div_le_mono)
qed

text \<open>the boot allocator hands out page-aligned, consecutive, disjoint blocks that are
  at least as long as requested, as long as the kernel address space is not exhausted; a
  request for 0 bytes only reports the next free address.\<close>

theorem boot_alloc_spec:
  assumes "4096 dvd unat (nextfree s)" and "nextfree s \<noteq> 0" and "boot_alloc kend n s = (r, s')"
    and "unat (nextfree s) + unat n + 4095 < 2 ^ 32"
  shows "r = nextfree s \<and> 4096 dvd unat r \<and> unat r + unat n \<le> unat (nextfree s') \<and>
     unat (nextfree s') < unat r + unat n + 4096 \<and> 4096 dvd unat (nextfree s') \<and>
     s' = s\<lparr>nextfree := nextfree s'\<rparr>"
proof (cases "n = 0")
  case True
  thus ?thesis using assms by (auto simp: boot_alloc_def)
next
  case False
  have ru: "4096 dvd unat (ROUNDUP n PGSIZE)" "unat n \<le> unat (ROUNDUP n PGSIZE)"
    "unat (ROUNDUP n PGSIZE) < unat n + 4096"
    using ROUNDUP_least_multiple [of PGSIZE n] assms(4) by simp_all
  have s': "r = nextfree s" "nextfree s' = nextfree s + ROUNDUP n PGSIZE"
    "s' = s\<lparr>nextfree := nextfree s'\<rparr>"
    using assms(2,3) False by (auto simp: boot_alloc_def)
  hence "unat (nextfree s') = unat (nextfree s) + unat (ROUNDUP n PGSIZE)"
    using ru assms(4) by (simp add: unat_add_no_carry)
  thus ?thesis using s' ru assms(1) by simp
qed

theorem boot_alloc_spec_witness:
  "boot_alloc 0xF0110000 100 demo_kern = (0xF0001000, demo_kern\<lparr>nextfree := 0xF0002000\<rparr>) \<and>
   unat (0xF0001000 :: u32) + 100 \<le> unat (nextfree (demo_kern\<lparr>nextfree := 0xF0002000\<rparr>))"
proof -
  have *: "boot_alloc 0xF0110000 100 demo_kern = (0xF0001000, demo_kern\<lparr>nextfree := 0xF0002000\<rparr>)"
    by (simp add: boot_alloc_def demo_kern_def ROUNDUP_def ROUNDDOWN_def)
  show ?thesis using boot_alloc_spec [OF _ _ *] * by (simp add: demo_kern_def)
qed

text \<open>\<open>boot_alloc\<close> does not notice exhaustion. A request that reaches the end of the
  address space returns as usual and wraps \<open>nextfree\<close> to 0, so that the next call starts
  again at \<open>end\<close> and hands out memory that is already in use.\<close>

theorem boot_alloc_exhaustion_unnoticed:
  assumes "4096 dvd unat (nextfree s)" and "nextfree s \<noteq> 0"
  shows "\<exists>s'. boot_alloc kend (- nextfree s) s = (nextfree s, s') \<and> nextfree s' = 0 \<and>
     fst (boot_alloc kend 1 s') = ROUNDUP kend PGSIZE"
proof -
  let ?n = "- nextfree s"
  obtain k where k: "unat (nextfree s) = 4096 * k" using assms(1) by blast
  have k0: "k \<noteq> 0" using assms(2) k by (metis mult_0_right unat_eq_zero)
  hence n: "unat ?n = 4294967296 - 4096 * k"
    using k unat_sub_if' [of 0 "nextfree s"] by simp
  from k0 have le: "unat ?n + 4096 \<le> 4294967296" using n by simp
  have "4096 * k < 4294967296" using k unat_lt_2p32 [of "nextfree s"] by (simp del: unat_lt_2p32)
  hence "4294967296 - 4096 * k = 4096 * (1048576 - k)" by (simp add: diff_mult_distrib2)
  hence "4096 dvd unat ?n" using n by simp
  hence "(unat ?n + 4095) div 4096 * 4096 = unat ?n" by (auto elim: dvdE)
  hence "unat (ROUNDUP ?n PGSIZE) = unat ?n" using ROUNDUP_unat [of PGSIZE ?n] le by simp
  hence "ROUNDUP ?n PGSIZE = ?n" by (simp only: word_unat_eq_iff)
  thus ?thesis using assms(2) by (simp add: boot_alloc_def)
qed

theorem boot_alloc_exhaustion_witness:
  "\<exists>s'. boot_alloc 0xF0110000 (- 0xF0001000) demo_kern = (0xF0001000, s') \<and> nextfree s' = 0"
  using boot_alloc_exhaustion_unnoticed [of demo_kern "0xF0110000"]
  by (auto simp: demo_kern_def)

lemma linked_last_None: "linked h p (xs @ [y]) \<Longrightarrow> h y = None"
  by (induction xs arbitrary: p) auto

lemma linked_mid_Some: "linked h p (xs @ y # z # zs) \<Longrightarrow> h y = Some z"
  by (induction xs arbitrary: p) auto

lemma linked_prefix:
  "linked h p (xs @ [y]) \<Longrightarrow> (\<And>x. x \<in> set xs \<Longrightarrow> h' x = h x) \<Longrightarrow> linked h' p zs \<Longrightarrow> \<exists>ws. zs = xs @ y # ws"
proof (induction xs arbitrary: p zs)
  case Nil
  thus ?case by (cases zs) auto
next
  case (Cons x xs)
  then obtain zs' where "zs = x # zs'" "linked h' (h x) zs'" by (cases zs) auto
  moreover have "linked h (h x) (xs @ [y])" using Cons.prems(1) by simp
  ultimately show ?case using Cons.IH [of "h x" zs'] Cons.prems(2) by auto
qed

text \<open>the double-free check of \<open>page_free\<close> looks only at the link: freeing a page that
  is already on the free list panics unless it is the last one of the list, and then
  the list becomes cyclic, so that no list describes it any more.\<close>

theorem page_free_double_free:
  assumes "frees s (xs @ [y])"
  shows "(\<forall>z \<in> set xs. page_free z s = Inl (Page_free_in_use z)) \<and>
     (\<exists>s'. page_free y s = Inr s' \<and> (\<forall>fl. \<not> frees s' fl))"
proof (intro conjI ballI)
  fix z assume "z \<in> set xs"
  then obtain us w ws where "xs @ [y] = us @ z # w # ws"
    by (metis append_Cons append_assoc neq_Nil_conv snoc_eq_iff_butlast split_list)
  moreover have "linked (link_of s) (page_free_list s) (xs @ [y])"
    using assms unfolding frees_def by blast
  ultimately have "link_of s z = Some w" using linked_mid_Some by metis
  moreover have "z < length (pages s)" using assms \<open>z \<in> set xs\<close> by (auto simp: frees_def)
  ultimately show "page_free z s = Inl (Page_free_in_use z)"
    by (simp add: page_free_def link_of_def)
next
  have y: "y < length (pages s)" "ref_of s y = 0" "link_of s y = None"
    using assms linked_last_None by (auto simp: frees_def)
  hence "page_free y s = Inr (pushed y s)"
    by (simp add: page_free_def pushed_def ref_of_def link_of_def upd_page_free_list)
  moreover have "\<not> frees (pushed y s) fl" for fl
  proof
    assume f: "frees (pushed y s) fl"
    have old: "linked (link_of s) (page_free_list s) (xs @ [y])" "y \<notin> set xs"
      using assms by (auto simp: frees_def)
    obtain zs where zs: "fl = y # zs" "linked (link_of (pushed y s)) (page_free_list s) zs"
      using f y by (cases fl) (auto simp: frees_def)
    have "link_of (pushed y s) x = link_of s x" if "x \<in> set xs" for x using that old(2) y by auto
    then obtain ws where "zs = xs @ y # ws" using linked_prefix [OF old(1) _ zs(2)] by blast
    thus False using f zs(1) by (simp add: frees_def)
  qed
  ultimately show "\<exists>s'. page_free y s = Inr s' \<and> (\<forall>fl. \<not> frees s' fl)" by blast
qed

theorem page_free_double_free_witness:
  "page_free 3 demo_kern = Inl (Page_free_in_use 3) \<and> (\<exists>s'. page_free 1 demo_kern = Inr s')"
  using page_free_double_free [of demo_kern "[3, 2]" 1] demo_kern_frees by auto

end
