(* ===== verification/Jos_PageTable.thy ===== *)
theory Jos_PageTable
  imports Jos_PageAlloc
begin

text \<open>
  Page tables of \<open>kern/pmap.c\<close>: \<open>pgdir_walk\<close>, \<open>boot_map_region\<close>, \<open>page_lookup\<close>,
  \<open>page_remove\<close>, \<open>page_insert\<close>, \<open>tlb_invalidate\<close> and \<open>check_va2pa\<close>.
  A page directory is given, as in the source, by its kernel virtual address.

  The invariant \<open>aspace\<close> of the user part of an address space says that directory, page
  tables and mapped pages exist, that page tables are not shared, and that every page
  is referenced at least as often as it is used; it follows that no page in use is on the
  free list.
\<close>

section \<open>Operations\<close>

definition E_NO_MEM :: int where [simp]: "E_NO_MEM = 4"

definition pgdir_walk :: "u32 \<Rightarrow> u32 \<Rightarrow> bool \<Rightarrow> kern \<Rightarrow> kerr + (u32 option \<times> kern)" where
  "pgdir_walk pgdir va create s =
     (let page_dir_idx = PDX va; page_tab_idx = PTX va;
          pde = ld32 (kmem s) (pgdir + 4 * page_dir_idx)
      in if present pde
         then res_bind (KADDR s (PTE_ADDR pde)) (\<lambda>pgtab. Inr (Some (pgtab + 4 * page_tab_idx), s))
         else if create
         then res_bind (page_alloc ALLOC_ZERO s) (\<lambda>(new_pageInfo, s).
           case new_pageInfo of
             None \<Rightarrow> Inr (None, s)
           | Some pp \<Rightarrow>
               (let s = upd_page pp (\<lambda>p. p\<lparr>pp_ref := pp_ref p + 1\<rparr>) s in
                res_bind (page2kva s pp) (\<lambda>pgtab.
                res_bind (PADDR pgtab) (\<lambda>pa.
                Inr (Some (pgtab + 4 * page_tab_idx),
                     s\<lparr>kmem := st32 (kmem s) (pgdir + 4 * page_dir_idx)
                                (pa OR PTE_P OR PTE_W OR PTE_U)\<rparr>)))))
         else Inr (None, s))"

fun boot_map_loop :: "nat \<Rightarrow> u32 \<Rightarrow> u32 \<Rightarrow> u32 \<Rightarrow> u32 \<Rightarrow> kern \<Rightarrow> kerr + kern" where
  "boot_map_loop 0 pgdir va pa perm s = Inr s"
| "boot_map_loop (Suc n) pgdir va pa perm s =
     res_bind (pgdir_walk pgdir va True s) (\<lambda>(pgtab, s).
       case pgtab of
         None \<Rightarrow> Inr s
       | Some pgtab \<Rightarrow>
           boot_map_loop n pgdir (va + PGSIZE) (pa + PGSIZE) perm
             (s\<lparr>kmem := st32 (kmem s) pgtab (pa OR perm OR PTE_P)\<rparr>))"

definition boot_map_region :: "u32 \<Rightarrow> u32 \<Rightarrow> u32 \<Rightarrow> u32 \<Rightarrow> u32 \<Rightarrow> kern \<Rightarrow> kerr + kern" where
  "boot_map_region pgdir va sz pa perm s = boot_map_loop (unat (PGNUM sz)) pgdir va pa perm s"

text \<open>The result carries the page and the address stored through \<open>pte_store\<close>.\<close>

definition page_lookup :: "u32 \<Rightarrow> u32 \<Rightarrow> kern \<Rightarrow> kerr + ((nat \<times> u32) option \<times> kern)" where
  "page_lookup pgdir va s =
     res_bind (pgdir_walk pgdir va False s) (\<lambda>(pgtab, s).
       case pgtab of
         None \<Rightarrow> Inr (None, s)
       | Some pgtab \<Rightarrow>
           res_bind (pa2page s (PTE_ADDR (ld32 (kmem s) pgtab))) (\<lambda>pp. Inr (Some (pp, pgtab), s)))"

definition tlb_invalidate :: "u32 \<Rightarrow> u32 \<Rightarrow> kern \<Rightarrow> kern" where
  "tlb_invalidate pgdir va s = s\<lparr>tlb := (tlb s)(PGNUM va := False)\<rparr>"

definition page_remove :: "u32 \<Rightarrow> u32 \<Rightarrow> kern \<Rightarrow> kerr + kern" where
  "page_remove pgdir va s =
     res_bind (page_lookup pgdir va s) (\<lambda>(r, s).
       case r of
         None \<Rightarrow> Inr s
       | Some (pInfo, pgtab) \<Rightarrow>
           res_bind (page_decref pInfo s) (\<lambda>s.
             Inr (tlb_invalidate pgdir va (s\<lparr>kmem := st32 (kmem s) pgtab 0\<rparr>))))"

definition page_insert :: "u32 \<Rightarrow> nat \<Rightarrow> u32 \<Rightarrow> u32 \<Rightarrow> kern \<Rightarrow> kerr + (int \<times> kern)" where
  "page_insert pgdir pp va perm s =
     res_bind (pgdir_walk pgdir va True s) (\<lambda>(pgtab, s).
       case pgtab of
         None \<Rightarrow> Inr (- E_NO_MEM, s)
       | Some pgtab \<Rightarrow>
           (let map_page = (\<lambda>s.
                  let s = s\<lparr>kmem := st32 (kmem s) pgtab (page2pa pp OR perm OR PTE_P)\<rparr>
                  in if pp < length (pages s)
                     then Inr (0, upd_page pp (\<lambda>p. p\<lparr>pp_ref := pp_ref p + 1\<rparr>) s)
                     else Inl (Wild pp))
            in if present (ld32 (kmem s) pgtab)
               then (if page2pa pp = PTE_ADDR (ld32 (kmem s) pgtab)
                     then Inr (0, s\<lparr>kmem := st32 (kmem s) pgtab (page2pa pp OR perm OR PTE_P)\<rparr>)
                     else res_bind (page_remove pgdir va s) map_page)
               else map_page s))"

definition check_va2pa :: "u32 \<Rightarrow> u32 \<Rightarrow> kern \<Rightarrow> kerr + u32" where
  "check_va2pa pgdir va s =
     (let pde = ld32 (kmem s) (pgdir + 4 * PDX va)
      in if \<not> present pde then Inr (NOT 0)
         else res_bind (KADDR s (PTE_ADDR pde)) (\<lambda>p.
           let pte = ld32 (kmem s) (p + 4 * PTX va)
           in if \<not> present pte then Inr (NOT 0) else Inr (PTE_ADDR pte)))"

section \<open>Entries of the user part\<close>

definition pt_page :: "u32 \<Rightarrow> nat" where
  "pt_page e = unat (PGNUM e)"

definition pde :: "kern \<Rightarrow> nat \<Rightarrow> u32 \<Rightarrow> u32" where
  "pde s d i = ld32 (kmem s) (page_kva d + 4 * i)"

definition slot :: "kern \<Rightarrow> nat \<Rightarrow> u32 \<Rightarrow> u32 \<Rightarrow> u32" where
  "slot s d i j = page_kva (pt_page (pde s d i)) + 4 * j"

definition entry :: "kern \<Rightarrow> nat \<Rightarrow> u32 \<Rightarrow> u32 \<Rightarrow> u32 option" where
  "entry s d i j =
     (if present (pde s d i) \<and> present (ld32 (kmem s) (slot s d i j))
      then Some (ld32 (kmem s) (slot s d i j)) else None)"

text \<open>How many user mappings, and how many user page tables, of directory \<open>d\<close> use page \<open>q\<close>.\<close>

definition nmaps :: "kern \<Rightarrow> nat \<Rightarrow> nat \<Rightarrow> nat" where
  "nmaps s d q = card {(i, j). i < PDX UTOP \<and> j < 1024 \<and> (\<exists>e. entry s d i j = Some e \<and> pt_page e = q)}"

definition ntabs :: "kern \<Rightarrow> nat \<Rightarrow> nat \<Rightarrow> nat" where
  "ntabs s d q = card {i. i < PDX UTOP \<and> present (pde s d i) \<and> pt_page (pde s d i) = q}"

definition aspace :: "kern \<Rightarrow> nat \<Rightarrow> bool" where
  "aspace s d \<longleftrightarrow> d < length (pages s) \<and>
     (\<forall>i < PDX UTOP. present (pde s d i) \<longrightarrow>
        pt_page (pde s d i) < length (pages s) \<and> pt_page (pde s d i) \<noteq> d) \<and>
     (\<forall>i < PDX UTOP. \<forall>j < PDX UTOP. present (pde s d i) \<longrightarrow> present (pde s d j) \<longrightarrow>
        pt_page (pde s d i) = pt_page (pde s d j) \<longrightarrow> i = j) \<and>
     (\<forall>i < PDX UTOP. \<forall>j < 1024. \<forall>e. entry s d i j = Some e \<longrightarrow> pt_page e < length (pages s)) \<and>
     (\<forall>q < length (pages s).
        nmaps s d q + ntabs s d q + (if q = d then 1 else 0) \<le> unat (ref_of s q))"

section \<open>Slots in memory\<close>

lemma PDX_UTOP [simp]: "PDX UTOP = 955" "PDX 0xEEC00000 = 955"
  by (simp_all add: PDX_def)

lemma user_va_iff: "va < UTOP \<longleftrightarrow> PDX va < 955"
  by (simp add: word_less_nat_alt unat_PDX div_less_iff_less_mult)

lemma PDX_less [simp]: "PDX va < 1024"
  using unat_lt_2p32 [of va]
  by (simp add: word_less_nat_alt unat_PDX div_less_iff_less_mult del: unat_lt_2p32)

lemma PTX_less [simp]: "PTX va < 1024"
  by (simp add: word_less_nat_alt unat_PTX)

lemma page_eq_iff: "PGNUM va = PGNUM va' \<longleftrightarrow> PDX va = PDX va' \<and> PTX va = PTX va'"
proof -
  have "unat v div 4194304 = unat v div 4096 div 1024" for v :: u32
    by (simp add: div_mult2_eq)
  thus ?thesis by (auto simp: word_unat_eq_iff unat_simps) (metis div_mult_mod_eq)
qed

lemma PTE_ADDR_page2pa: "PTE_ADDR e = page2pa (pt_page e)"
proof -
  have "pt_page e < 0x100000"
    using unat_lt_2p32 [of e] by (simp add: pt_page_def unat_PGNUM div_less_iff_less_mult del: unat_lt_2p32)
  thus ?thesis by (simp add: word_unat_eq_iff unat_page2pa unat_PTE_ADDR pt_page_def unat_PGNUM minus_mod_eq_div_mult)
qed

lemma PTE_ADDR_kva: "PTE_ADDR e + KERNBASE = page_kva (pt_page e)"
  by (simp add: PTE_ADDR_page2pa page_kva_def)

lemma unat_times4: "i < 1024 \<Longrightarrow> unat (4 * i :: u32) = 4 * unat i"
  by (simp add: word_less_nat_alt unat_mult_no_carry)

lemma unat_slot:
  assumes "t < 0x10000" and "i < 1024"
  shows "unat (page_kva t + 4 * i) = unat (page_kva t) + 4 * unat i"
  using unat_page_offset [OF assms(1), of "4 * i"] unat_times4 [OF assms(2)] assms(2)
  by (simp add: word_less_nat_alt)

lemma slot_aligned: "t < 0x10000 \<Longrightarrow> i < 1024 \<Longrightarrow> 4 dvd unat (page_kva t + 4 * i)"
  by (simp add: unat_slot unat_page_kva)

lemma slot_eq_iff:
  assumes "t < 0x10000" "t' < 0x10000" "i < 1024" "i' < 1024"
  shows "page_kva t + 4 * i = page_kva t' + 4 * i' \<longleftrightarrow> t = t' \<and> i = i'"
proof
  assume "page_kva t + 4 * i = page_kva t' + 4 * i'"
  hence eq: "4096 * t + 4 * unat i = 4096 * t' + 4 * unat i'"
    using assms unat_slot [of t i] unat_slot [of t' i'] by (simp add: unat_page_kva)
  have "4 * unat i < 4096" "4 * unat i' < 4096" using assms by (simp_all add: word_less_nat_alt)
  hence "t = (4096 * t + 4 * unat i) div 4096" "t' = (4096 * t' + 4 * unat i') div 4096"
    by simp_all
  hence "t = t'" using eq by metis
  with eq have "t = t' \<and> unat i = unat i'" by simp
  thus "t = t' \<and> i = i'" by (simp add: word_unat_eq_iff)
qed simp

lemma ld32_st32_slot:
  assumes "t < 0x10000" "t' < 0x10000" "i < 1024" "i' < 1024"
  shows "ld32 (st32 m (page_kva t + 4 * i) v) (page_kva t' + 4 * i') =
     (if t = t' \<and> i = i' then v else ld32 m (page_kva t' + 4 * i'))"
proof (cases "t = t' \<and> i = i'")
  case False
  hence "page_kva t + 4 * i \<noteq> page_kva t' + 4 * i'" using slot_eq_iff [OF assms] by blast
  thus ?thesis using False ld32_st32_other [OF slot_aligned slot_aligned] assms by auto
qed auto

lemma slot_bytes_in_page:
  assumes "t < 0x10000" and "i < 1024" and "k < 4"
  shows "in_page t (page_kva t + 4 * i + k)"
proof -
  have "unat (4 * i + k) = 4 * unat i + unat k"
    using assms unat_times4 [OF assms(2)]
    by (subst unat_add_no_carry) (simp_all add: word_less_nat_alt)
  hence "unat (4 * i + k) < 4096" using assms by (simp add: word_less_nat_alt)
  thus ?thesis using in_page_offset [of "4 * i + k" t] by (simp add: add.assoc)
qed

lemma ld32_zero_page:
  assumes "t < 0x10000" "x < 0x10000" "i < 1024"
  shows "ld32 (\<lambda>a. if in_page x a then 0 else m a) (page_kva t + 4 * i) =
     (if t = x then 0 else ld32 m (page_kva t + 4 * i))"
proof -
  have "in_page x (page_kva t + 4 * i + k) \<longleftrightarrow> t = x" if "k < 4" for k
    using slot_bytes_in_page [OF assms(1,3) that] in_page_disjoint assms(1,2) by blast
  from this [of 0] this [of 1] this [of 2] this [of 3] show ?thesis
    by (simp add: ld32_def)
qed

section \<open>Consequences of the invariant\<close>

lemma kmem_cong:
  assumes "kmem t = kmem s"
  shows "pde t d i = pde s d i" and "slot t d i j = slot s d i j" and "entry t d i j = entry s d i j"
    and "nmaps t d q = nmaps s d q" and "ntabs t d q = ntabs s d q"
proof -
  show 1: "pde t d i = pde s d i" for i by (simp add: pde_def assms)
  show 2: "slot t d i j = slot s d i j" for i j by (simp add: slot_def 1)
  show 3: "entry t d i j = entry s d i j" for i j by (simp add: entry_def 1 2 assms)
  show "nmaps t d q = nmaps s d q" "ntabs t d q = ntabs s d q"
    by (simp_all add: nmaps_def ntabs_def 1 3)
qed

lemma aspaceI:
  assumes "d < length (pages s)"
    and "\<And>i. i < 955 \<Longrightarrow> present (pde s d i) \<Longrightarrow>
       pt_page (pde s d i) < length (pages s) \<and> pt_page (pde s d i) \<noteq> d"
    and "\<And>i k. i < 955 \<Longrightarrow> k < 955 \<Longrightarrow> present (pde s d i) \<Longrightarrow> present (pde s d k) \<Longrightarrow>
       pt_page (pde s d i) = pt_page (pde s d k) \<Longrightarrow> i = k"
    and "\<And>i j e. i < 955 \<Longrightarrow> j < 1024 \<Longrightarrow> entry s d i j = Some e \<Longrightarrow> pt_page e < length (pages s)"
    and "\<And>q. q < length (pages s) \<Longrightarrow>
       nmaps s d q + ntabs s d q + (if q = d then 1 else 0) \<le> unat (ref_of s q)"
  shows "aspace s d"
  using assms unfolding aspace_def PDX_UTOP by blast

lemma aspaceD:
  assumes "aspace s d"
  shows "d < length (pages s)"
    and "i < 955 \<Longrightarrow> present (pde s d i) \<Longrightarrow> pt_page (pde s d i) < length (pages s)"
    and "i < 955 \<Longrightarrow> present (pde s d i) \<Longrightarrow> pt_page (pde s d i) \<noteq> d"
    and "i < 955 \<Longrightarrow> k < 955 \<Longrightarrow> present (pde s d i) \<Longrightarrow> present (pde s d k) \<Longrightarrow>
       pt_page (pde s d i) = pt_page (pde s d k) \<Longrightarrow> i = k"
    and "i < 955 \<Longrightarrow> j < 1024 \<Longrightarrow> entry s d i j = Some e \<Longrightarrow> pt_page e < length (pages s)"
    and "q < length (pages s) \<Longrightarrow>
       nmaps s d q + ntabs s d q + (if q = d then 1 else 0) \<le> unat (ref_of s q)"
  using assms unfolding aspace_def by auto

lemma nmaps_pos:
  assumes "i < 955" "j < 1024" "entry s d i j = Some e"
  shows "0 < nmaps s d (pt_page e)"
  using assms by (auto simp: nmaps_def card_gt_0_iff)

lemma ntabs_pos:
  assumes "i < 955" "present (pde s d i)"
  shows "0 < ntabs s d (pt_page (pde s d i))"
  using assms by (auto simp: ntabs_def card_gt_0_iff)

lemma aspace_referenced:
  assumes "aspace s d"
  shows "0 < unat (ref_of s d)"
    and "i < 955 \<Longrightarrow> present (pde s d i) \<Longrightarrow> 0 < unat (ref_of s (pt_page (pde s d i)))"
    and "i < 955 \<Longrightarrow> j < 1024 \<Longrightarrow> entry s d i j = Some e \<Longrightarrow> 0 < unat (ref_of s (pt_page e))"
proof -
  show "0 < unat (ref_of s d)" using aspaceD(1) [OF assms] aspaceD(6) [OF assms, of d] by simp
  show "0 < unat (ref_of s (pt_page (pde s d i)))" if "i < 955" "present (pde s d i)"
    using aspaceD(6) [OF assms aspaceD(2) [OF assms that]] ntabs_pos [OF that] by linarith
  show "0 < unat (ref_of s (pt_page e))" if "i < 955" "j < 1024" "entry s d i j = Some e"
    using aspaceD(6) [OF assms aspaceD(5) [OF assms that]] nmaps_pos [OF that] by linarith
qed

lemma referenced_not_free: "frees s fl \<Longrightarrow> 0 < unat (ref_of s q) \<Longrightarrow> q \<notin> set fl"
  by (auto simp: frees_def)

section \<open>Storing a page table entry\<close>

definition uses :: "u32 option \<Rightarrow> nat \<Rightarrow> nat" where
  "uses e q = (case e of None \<Rightarrow> 0 | Some e \<Rightarrow> if pt_page e = q then 1 else 0)"

lemma nmaps_update:
  assumes upd: "\<And>i j. i < 955 \<Longrightarrow> j < 1024 \<Longrightarrow>
      entry t d i j = (if i = i0 \<and> j = j0 then e else entry s d i j)"
    and "i0 < 955" and "j0 < 1024"
  shows "nmaps t d q + uses (entry s d i0 j0) q = nmaps s d q + uses e q"
proof -
  let ?A = "\<lambda>s. {(i, j). i < 955 \<and> j < 1024 \<and> (\<exists>e. entry s d i j = Some e \<and> pt_page e = q)}"
  have split: "card (?A u) = card (?A u - {(i0, j0)}) + uses (entry u d i0 j0) q" for u
  proof (cases "(i0, j0) \<in> ?A u")
    case True
    hence "card (?A u) = card (?A u - {(i0, j0)}) + 1"
      using card_Suc_Diff1 [of "?A u" "(i0, j0)"] by simp
    moreover have "uses (entry u d i0 j0) q = 1" using True by (auto simp: uses_def)
    ultimately show ?thesis by simp
  next
    case False
    hence "uses (entry u d i0 j0) q = 0"
      using assms(2,3) by (auto simp: uses_def split: option.splits)
    thus ?thesis using False by simp
  qed
  have "?A t - {(i0, j0)} = ?A s - {(i0, j0)}" using upd by auto
  hence "card (?A t - {(i0, j0)}) = card (?A s - {(i0, j0)})" by simp
  moreover have "entry t d i0 j0 = e" using upd assms(2,3) by simp
  ultimately show ?thesis using split [of t] split [of s] by (simp add: nmaps_def)
qed

lemma less_955_1024: "i < (955 :: u32) \<Longrightarrow> i < 1024"
  by (simp add: word_less_nat_alt)

lemma store_entry:
  assumes "aspace s d" and "length (pages s) \<le> 0x10000" and "i0 < 955" and "j0 < 1024"
    and "present (pde s d i0)" and m: "kmem t = st32 (kmem s) (slot s d i0 j0) v"
  shows "i < 1024 \<Longrightarrow> pde t d i = pde s d i"
    and "i < 1024 \<Longrightarrow> slot t d i j = slot s d i j"
    and "ld32 (kmem t) (slot s d i0 j0) = v"
    and "i < 955 \<Longrightarrow> j < 1024 \<Longrightarrow> entry t d i j =
       (if i = i0 \<and> j = j0 then (if present v then Some v else None) else entry s d i j)"
proof -
  let ?t = "pt_page (pde s d i0)"
  have b: "d < 0x10000" "?t < 0x10000" "?t \<noteq> d"
    using aspaceD(1-3) [OF assms(1)] assms(2,3,5) by (fastforce, fastforce, blast)
  show 1: "pde t d i = pde s d i" if "i < 1024" for i
  proof -
    have "pde t d i = ld32 (st32 (kmem s) (page_kva ?t + 4 * j0) v) (page_kva d + 4 * i)"
      by (simp only: pde_def [of t] m slot_def)
    also have "\<dots> = ld32 (kmem s) (page_kva d + 4 * i)"
      using b that assms(4) by (simp add: ld32_st32_slot)
    finally show ?thesis by (simp only: pde_def [of s])
  qed
  show 2: "slot t d i j = slot s d i j" if "i < 1024" for i j
    using 1 [OF that] by (simp add: slot_def)
  show "ld32 (kmem t) (slot s d i0 j0) = v" by (simp add: m)
  show "entry t d i j = (if i = i0 \<and> j = j0 then (if present v then Some v else None) else entry s d i j)"
    if ij: "i < 955" "j < 1024"
  proof (cases "present (pde s d i)")
    case True
    have "pt_page (pde s d i) < 0x10000"
      using aspaceD(2) [OF assms(1) ij(1) True] assms(2) by simp
    moreover have "pt_page (pde s d i) = ?t \<longleftrightarrow> i = i0"
      using aspaceD(4) [OF assms(1) ij(1) assms(3) True assms(5)] by blast
    ultimately have "ld32 (kmem t) (slot s d i j) =
        (if i = i0 \<and> j = j0 then v else ld32 (kmem s) (slot s d i j))"
      using b ij assms(4) by (auto simp: m slot_def ld32_st32_slot)
    thus ?thesis
      using True 1 2 ij assms(5) by (auto simp: entry_def less_955_1024)
  next
    case False
    thus ?thesis using 1 ij assms(5) by (auto simp: entry_def less_955_1024)
  qed
qed

lemma aspace_store:
  assumes "aspace s d" and "length (pages s) \<le> 0x10000" and "i0 < 955" and "j0 < 1024"
    and "present (pde s d i0)" and m: "kmem t = st32 (kmem s) (slot s d i0 j0) v"
    and len: "length (pages t) = length (pages s)"
    and v: "present v \<Longrightarrow> pt_page v < length (pages s)"
    and refs: "\<And>q. q < length (pages s) \<Longrightarrow>
       unat (ref_of s q) + uses (if present v then Some v else None) q
         \<le> unat (ref_of t q) + uses (entry s d i0 j0) q"
  shows "aspace t d"
proof -
  note st = store_entry [OF assms(1-5) m]
  have pd: "pde t d i = pde s d i" if "i < 955" for i
    using st(1) that less_955_1024 by blast
  have nt: "ntabs t d q = ntabs s d q" for q
    unfolding ntabs_def using pd by (simp cong: conj_cong)
  have nm: "nmaps t d q + uses (entry s d i0 j0) q
      = nmaps s d q + uses (if present v then Some v else None) q" for q
    using st(4) by (rule nmaps_update) (use assms(3,4) in auto)
  have rc: "nmaps t d q + ntabs t d q + (if q = d then 1 else 0) \<le> unat (ref_of t q)"
    if "q < length (pages s)" for q
    using aspaceD(6) [OF assms(1) that] refs [OF that] nm [of q] nt [of q] by linarith
  have en: "pt_page e < length (pages s)" if "i < 955" "j < 1024" "entry t d i j = Some e" for i j e
    using that st(4) [OF that(1,2)] aspaceD(5) [OF assms(1) that(1,2)] v by (auto split: if_splits)
  show ?thesis
  proof (rule aspaceI)
    fix i k assume "i < 955" "k < 955" "present (pde t d i)" "present (pde t d k)"
      "pt_page (pde t d i) = pt_page (pde t d k)"
    thus "i = k" using aspaceD(4) [OF assms(1)] pd by simp
  next
    fix i assume "i < 955" "present (pde t d i)"
    thus "pt_page (pde t d i) < length (pages t) \<and> pt_page (pde t d i) \<noteq> d"
      using aspaceD(2,3) [OF assms(1)] pd len by simp
  qed (use aspaceD(1) [OF assms(1)] en rc len in simp_all)
qed

section \<open>pgdir_walk\<close>

lemma ld32_pde: "ld32 (kmem s) (page_kva d + 4 * i) = pde s d i"
  by (simp add: pde_def)

lemma KADDR_table:
  assumes "frees s fl" and "pt_page e < length (pages s)"
  shows "KADDR s (PTE_ADDR e) = Inr (page_kva (pt_page e))"
  using KADDR_page2pa [of "pt_page e" s] frees_bounds [OF assms(1)] assms(2)
  by (simp add: PTE_ADDR_page2pa page2kva_def page_kva_def)

lemma pgdir_walk_present:
  assumes "frees s fl" and "aspace s d" and "va < UTOP" and "present (pde s d (PDX va))"
  shows "pgdir_walk (page_kva d) va create s = Inr (Some (slot s d (PDX va) (PTX va)), s)"
proof -
  have "PDX va < 955" using assms(3) user_va_iff by simp
  hence "pt_page (pde s d (PDX va)) < length (pages s)" using aspaceD(2) assms(2,4) by blast
  thus ?thesis using KADDR_table [OF assms(1)] assms(4)
    by (simp add: pgdir_walk_def Let_def ld32_pde slot_def)
qed

lemma pgdir_walk_absent:
  assumes "\<not> present (pde s d (PDX va))"
  shows "pgdir_walk (page_kva d) va False s = Inr (None, s)"
    and "frees s [] \<Longrightarrow> pgdir_walk (page_kva d) va True s = Inr (None, s)"
  using assms page_alloc_Nil by (simp_all add: pgdir_walk_def Let_def ld32_pde)

text \<open>The state after a new page table \<open>x\<close> has been installed in slot \<open>i\<close> of directory \<open>d\<close>.\<close>

definition with_table :: "kern \<Rightarrow> nat \<Rightarrow> u32 \<Rightarrow> nat \<Rightarrow> kern" where
  "with_table s d i x = (let s1 = upd_page x (\<lambda>p. p\<lparr>pp_ref := pp_ref p + 1\<rparr>) (popped 1 x s)
     in s1\<lparr>kmem := st32 (kmem s1) (page_kva d + 4 * i) (page2pa x OR PTE_P OR PTE_W OR PTE_U)\<rparr>)"

lemma pgdir_walk_create:
  assumes "frees s (x # fl)" and "\<not> present (pde s d (PDX va))"
  shows "pgdir_walk (page_kva d) va True s =
     Inr (Some (page_kva x + 4 * PTX va), with_table s d (PDX va) x)"
proof -
  have x: "x < unat (npages s)" "x < 0x10000" 
    using frees_bounds(1) [OF assms(1)] frees_bounds(3,4) [OF assms(1), of x] by simp_all
  hence "page2kva t x = Inr (page_kva x)" if "npages t = npages s" for t
    using KADDR_page2pa [of x t] that by (simp add: page_kva_def)
  thus ?thesis
    using assms(2) page_alloc_Cons(1) [OF assms(1)] PADDR_page_kva [OF x(2)]
    by (simp add: pgdir_walk_def Let_def ld32_pde with_table_def)
qed

lemma with_table_simps [simp]:
  "length (pages (with_table s d i x)) = length (pages s)" "npages (with_table s d i x) = npages s"
  "tlb (with_table s d i x) = tlb s" "kern_pgdir (with_table s d i x) = kern_pgdir s"
  by (simp_all add: with_table_def Let_def)

lemma with_table_ref [simp]:
  "x < length (pages s) \<Longrightarrow> ref_of (with_table s d i x) q = (if q = x then 1 else ref_of s q)"
  by (auto simp: with_table_def Let_def ref_of_def upd_page_def popped_def nth_list_update)

lemma with_table_frees:
  assumes "frees s (x # fl)"
  shows "frees (with_table s d i x) fl"
proof -
  have "frees (popped 1 x s) fl" "x \<notin> set fl" "x < length (pages s)"
    using page_alloc_Cons(2) [OF assms] assms by (auto simp: frees_def)
  thus ?thesis unfolding with_table_def Let_def frees_kmem
    by (intro frees_upd_ref) simp_all
qed

lemma pt_page_make:
  assumes "pp < 0x10000" and "perm < 4096"
  shows "pt_page (page2pa pp OR perm) = pp"
proof -
  have "PTE_ADDR (page2pa pp OR perm) = page2pa pp"
    using assms by (intro PTE_ADDR_or_flags page2pa_aligned) simp_all
  hence "unat (page2pa (pt_page (page2pa pp OR perm))) = pp * 4096"
    using assms by (simp add: PTE_ADDR_page2pa unat_page2pa)
  moreover have "pt_page e < 0x100000" for e
    using unat_lt_2p32 [of e] by (simp add: pt_page_def unat_PGNUM div_less_iff_less_mult del: unat_lt_2p32)
  ultimately show ?thesis by (simp add: unat_page2pa)
qed

lemma present_or_P: "present (e OR 1)"
  by (simp add: present_iff_bit bit_simps)

lemma present_or_7: "present (e OR 7)"
  unfolding present_iff_bit bit_or_iff by simp

lemma with_table_entries:
  assumes fr: "frees s (x # fl)" and as: "aspace s d" and i0: "i0 < 955" "\<not> present (pde s d i0)"
  defines "t \<equiv> with_table s d i0 x"
  shows "i < 1024 \<Longrightarrow> pde t d i = (if i = i0 then page2pa x OR 7 else pde s d i)"
    and "i < 955 \<Longrightarrow> j < 1024 \<Longrightarrow> entry t d i j = entry s d i j"
    and "j < 1024 \<Longrightarrow> ld32 (kmem t) (page_kva x + 4 * j) = 0"
    and "aspace t d"
proof -
  let ?z = "\<lambda>a. if in_page x a then 0 else kmem s a"
  have m: "kmem t = st32 ?z (page_kva d + 4 * i0) (page2pa x OR 7)"
    by (simp add: t_def with_table_def Let_def or.assoc)
  have x: "x < length (pages s)" "x < 0x10000" "ref_of s x = 0"
    using frees_bounds(3,4) [OF fr, of x] fr by (simp_all add: frees_def)
  have d: "d < 0x10000" using aspaceD(1) [OF as] frees_bounds(5) [OF fr] by blast
  have len: "length (pages s) \<le> 0x10000" using frees_bounds(2) [OF fr] .
  have xd: "x \<noteq> d" using aspace_referenced(1) [OF as] x(3) by auto
  have i1: "i0 < 1024" using i0(1) by (rule less_955_1024)
  have ld: "ld32 (kmem t) (page_kva p + 4 * k) = (if p = d \<and> k = i0 then page2pa x OR 7
      else if p = x then 0 else ld32 (kmem s) (page_kva p + 4 * k))" if "p < 0x10000" "k < 1024" for p k
    using that d x i1 xd by (auto simp: m ld32_st32_slot ld32_zero_page)
  show pd: "pde t d i = (if i = i0 then page2pa x OR 7 else pde s d i)" if "i < 1024" for i
    using ld [OF d that] xd by (auto simp: pde_def)
  show "ld32 (kmem t) (page_kva x + 4 * j) = 0" if "j < 1024" for j
    using ld [OF x(2) that] xd by simp
  have pg: "pt_page (page2pa x OR 7) = x" using pt_page_make [of x 7] x by simp
  have tx: "pt_page (pde s d i) \<noteq> x" if "i < 955" "present (pde s d i)" for i
    using aspace_referenced(2) [OF as that] x(3) by auto
  show en: "entry t d i j = entry s d i j" if ij: "i < 955" "j < 1024" for i j
  proof (cases "i = i0")
    case True
    hence "slot t d i j = page_kva x + 4 * j" using pd [OF i1] pg by (simp add: slot_def)
    hence "ld32 (kmem t) (slot t d i j) = 0" using ld [OF x(2) ij(2)] xd by simp
    thus ?thesis using True i0 by (simp add: entry_def present_def)
  next
    case False
    hence eq: "pde t d i = pde s d i" "slot t d i j = slot s d i j"
      using pd [of i] less_955_1024 ij by (simp_all add: slot_def)
    show ?thesis
    proof (cases "present (pde s d i)")
      case True
      have "pt_page (pde s d i) < 0x10000" using aspaceD(2) [OF as ij(1) True] len by simp
      hence "ld32 (kmem t) (slot s d i j) = ld32 (kmem s) (slot s d i j)"
        using ld ij tx [OF ij(1) True] aspaceD(3) [OF as ij(1) True] by (simp add: slot_def)
      thus ?thesis by (simp add: entry_def eq)
    qed (simp add: entry_def eq)
  qed
  have nm: "nmaps t d q = nmaps s d q" for q
    unfolding nmaps_def PDX_UTOP using en by (simp cong: conj_cong)
  have nt: "ntabs t d q \<le> ntabs s d q + (if q = x then 1 else 0)" for q
  proof -
    have "{i. i < 955 \<and> present (pde t d i) \<and> pt_page (pde t d i) = q}
        \<subseteq> {i. i < 955 \<and> present (pde s d i) \<and> pt_page (pde s d i) = q} \<union> (if q = x then {i0} else {})"
      using pd pg less_955_1024 by (auto split: if_splits)
    hence "ntabs t d q \<le> card ({i. i < 955 \<and> present (pde s d i) \<and> pt_page (pde s d i) = q}
        \<union> (if q = x then {i0} else {}))"
      unfolding ntabs_def PDX_UTOP by (rule card_mono [rotated]) simp
    also have "\<dots> \<le> ntabs s d q + card (if q = x then {i0} else {})"
      unfolding ntabs_def PDX_UTOP by (rule card_Un_le)
    finally show ?thesis by (auto split: if_splits)
  qed
  show "aspace t d"
  proof (rule aspaceI)
    show "d < length (pages t)" using aspaceD(1) [OF as] by (simp add: t_def)
  next
    fix i assume "i < 955" "present (pde t d i)"
    thus "pt_page (pde t d i) < length (pages t) \<and> pt_page (pde t d i) \<noteq> d"
      using pd [of i] less_955_1024 aspaceD(2,3) [OF as] pg x xd by (auto simp: t_def split: if_splits)
  next
    fix i k assume "i < 955" "k < 955" "present (pde t d i)" "present (pde t d k)"
      "pt_page (pde t d i) = pt_page (pde t d k)"
    thus "i = k"
      using pd [of i] pd [of k] less_955_1024 aspaceD(4) [OF as] pg tx by (auto split: if_splits)
  next
    fix i j e assume "i < 955" "j < 1024" "entry t d i j = Some e"
    thus "pt_page e < length (pages t)" using en aspaceD(5) [OF as] by (auto simp: t_def)
  next
    fix q assume "q < length (pages t)"
    hence q: "q < length (pages s)" by (simp add: t_def)
    have "unat (ref_of s x) = 0" using x(3) by simp
    thus "nmaps t d q + ntabs t d q + (if q = d then 1 else 0) \<le> unat (ref_of t q)"
      using aspaceD(6) [OF as q] nm [of q] nt [of q] x(1) xd by (auto simp: t_def split: if_splits)
  qed
qed

lemma entry_present:
  "present (pde s d i) \<Longrightarrow>
     entry s d i j = (let e = ld32 (kmem s) (slot s d i j) in if present e then Some e else None)"
  by (simp add: entry_def)

text \<open>All that a creating walk does: it fails only for lack of memory, and otherwise returns the
  slot of the entry in a state with the same mappings.\<close>

lemma pgdir_walk_cases:
  assumes "frees s fl" and "aspace s d" and "va < UTOP"
  obtains (NoMem) "fl = []" "\<not> present (pde s d (PDX va))" "pgdir_walk (page_kva d) va True s = Inr (None, s)"
  | (Slot) t fl' where "pgdir_walk (page_kva d) va True s = Inr (Some (slot t d (PDX va) (PTX va)), t)"
      "frees t fl'" "set fl' \<subseteq> set fl" "aspace t d" "present (pde t d (PDX va))" "tlb t = tlb s"
      "length (pages t) = length (pages s)"
      "\<And>i j. i < 955 \<Longrightarrow> j < 1024 \<Longrightarrow> entry t d i j = entry s d i j"
      "\<And>q. q \<notin> set fl \<Longrightarrow> ref_of t q = ref_of s q" "length fl \<le> length fl' + 1" "kern_pgdir t = kern_pgdir s"
proof (cases "present (pde s d (PDX va))")
  case True
  show thesis using pgdir_walk_present [OF assms True] True assms(1,2) by (intro Slot) auto
next
  case False
  show thesis
  proof (cases fl)
    case Nil
    thus thesis using NoMem pgdir_walk_absent(2) [OF False] False assms(1) by blast
  next
    case (Cons x fl')
    have fr: "frees s (x # fl')" using assms(1) Cons by simp
    have i: "PDX va < 955" using assms(3) user_va_iff by simp
    let ?t = "with_table s d (PDX va) x"
    note te = with_table_entries [OF fr assms(2) i False]
    have x: "x < length (pages s)" "x < 0x10000" using frees_bounds(3,4) [OF fr, of x] by simp_all
    have pd: "pde ?t d (PDX va) = page2pa x OR 7" using te(1) [of "PDX va"] by simp
    hence "slot ?t d (PDX va) (PTX va) = page_kva x + 4 * PTX va"
      using pt_page_make [of x 7] x by (simp add: slot_def)
    thus thesis
      using pgdir_walk_create [OF fr False] with_table_frees [OF fr] te(2,4) pd present_or_7 Cons x(1)
      by (intro Slot [of ?t fl']) auto
  qed
qed

section \<open>page_lookup and page_remove\<close>

lemma pa2page_entry:
  assumes "frees s fl" and "pt_page e < length (pages s)"
  shows "pa2page s (PTE_ADDR e) = Inr (pt_page e)"
  using pa2page_page2pa [of "pt_page e" s] frees_bounds [OF assms(1)] assms(2)
  by (simp add: PTE_ADDR_page2pa)

lemma page_lookup_mapped:
  assumes "frees s fl" and "aspace s d" and "va < UTOP" and "entry s d (PDX va) (PTX va) = Some e"
  shows "page_lookup (page_kva d) va s = Inr (Some (pt_page e, slot s d (PDX va) (PTX va)), s)"
proof -
  have i: "PDX va < 955" using assms(3) user_va_iff by simp
  have p: "present (pde s d (PDX va))" "ld32 (kmem s) (slot s d (PDX va) (PTX va)) = e"
    using assms(4) by (auto simp: entry_def split: if_splits)
  show ?thesis
    using pgdir_walk_present [OF assms(1-3) p(1)] p(2)
      pa2page_entry [OF assms(1) aspaceD(5) [OF assms(2) i _ assms(4)]]
    by (simp add: page_lookup_def)
qed

lemma page_lookup_no_table:
  "\<not> present (pde s d (PDX va)) \<Longrightarrow> page_lookup (page_kva d) va s = Inr (None, s)"
  using pgdir_walk_absent(1) by (simp add: page_lookup_def)

lemma unat_minus_1: "0 < unat (r :: u16) \<Longrightarrow> unat (r - 1) = unat r - 1"
  by (subst unat_sub_no_borrow) simp_all

lemma page_decref_ok:
  assumes fr: "frees s fl" and q: "q < length (pages s)" and r: "0 < unat (ref_of s q)"
  obtains s1 where "page_decref q s = Inr s1" "frees s1 (if ref_of s q = 1 then q # fl else fl)"
    "kmem s1 = kmem s" "tlb s1 = tlb s" "kern_pgdir s1 = kern_pgdir s" "length (pages s1) = length (pages s)"
    "\<And>j. ref_of s1 j = (if j = q then ref_of s j - 1 else ref_of s j)"
proof -
  have nf: "q \<notin> set fl" using referenced_not_free [OF fr r] .
  show thesis
  proof (cases "ref_of s q = 1")
    case True
    thus thesis using that page_decref_last [OF fr q nf True] q by (auto simp flip: ref_of_def)
  next
    case False
    thus thesis using that page_decref_shared [OF q False] frees_upd_ref [OF fr q nf] q
      by (auto simp flip: ref_of_def)
  qed
qed

lemma page_remove_mapped:
  assumes fr: "frees s fl" and as: "aspace s d" and va: "va < UTOP"
    and en: "entry s d (PDX va) (PTX va) = Some e"
  obtains s' where "page_remove (page_kva d) va s = Inr s'" "aspace s' d"
    "frees s' (if ref_of s (pt_page e) = 1 then pt_page e # fl else fl)"
    "\<And>i j. i < 955 \<Longrightarrow> j < 1024 \<Longrightarrow>
       entry s' d i j = (if i = PDX va \<and> j = PTX va then None else entry s d i j)"
    "\<And>q. ref_of s' q = (if q = pt_page e then ref_of s q - 1 else ref_of s q)"
    "present (pde s' d (PDX va))" "slot s' d (PDX va) (PTX va) = slot s d (PDX va) (PTX va)"
    "length (pages s') = length (pages s)" "tlb s' = (tlb s)(PGNUM va := False)"
    "\<And>i. i < 1024 \<Longrightarrow> pde s' d i = pde s d i" "kern_pgdir s' = kern_pgdir s"
proof -
  let ?q = "pt_page e" and ?sl = "slot s d (PDX va) (PTX va)"
  have i: "PDX va < 955" using va user_va_iff by simp
  have q: "?q < length (pages s)" using aspaceD(5) [OF as i _ en] by simp
  have r: "0 < unat (ref_of s ?q)" using aspace_referenced(3) [OF as i _ en] by simp
  have pr: "present (pde s d (PDX va))" using en by (auto simp: entry_def split: if_splits)
  have len: "length (pages s) \<le> 0x10000" using frees_bounds(2) [OF fr] .
  obtain s1 where s1: "page_decref ?q s = Inr s1"
    "frees s1 (if ref_of s ?q = 1 then ?q # fl else fl)" "kmem s1 = kmem s" "tlb s1 = tlb s"
    "length (pages s1) = length (pages s)"
    "\<And>j. ref_of s1 j = (if j = ?q then ref_of s j - 1 else ref_of s j)" "kern_pgdir s1 = kern_pgdir s"
    by (rule page_decref_ok [OF fr q r]) blast
  define s' where "s' = tlb_invalidate (page_kva d) va (s1\<lparr>kmem := st32 (kmem s1) ?sl 0\<rparr>)"
  have rem: "page_remove (page_kva d) va s = Inr s'"
    using page_lookup_mapped [OF fr as va en] s1(1) by (simp add: page_remove_def s'_def)
  have m: "kmem s' = st32 (kmem s) ?sl 0" using s1(3) by (simp add: s'_def tlb_invalidate_def)
  have pg: "pages s' = pages s1" by (simp add: s'_def tlb_invalidate_def)
  have rf: "ref_of s' j = (if j = ?q then ref_of s j - 1 else ref_of s j)" for j
    using s1(6) [of j] pg by (simp add: ref_of_def)
  have np: "\<not> present 0" by (simp add: present_def)
  note st = store_entry [OF as len i _ pr m, simplified np]
  have "aspace s' d"
  proof (rule aspace_store [OF as len i _ pr m])
    fix j assume "j < length (pages s)"
    show "unat (ref_of s j) + uses (if present 0 then Some 0 else None) j
        \<le> unat (ref_of s' j) + uses (entry s d (PDX va) (PTX va)) j"
      using rf [of j] r unat_minus_1 [of "ref_of s j"] by (auto simp: uses_def np en)
  qed (use s1(5) pg np in simp_all)
  moreover have "frees s' (if ref_of s ?q = 1 then ?q # fl else fl)"
    using s1(2) by (simp add: s'_def tlb_invalidate_def)
  moreover have "tlb s' = (tlb s)(PGNUM va := False)" by (simp add: s'_def tlb_invalidate_def s1(4))
  moreover have "kern_pgdir s' = kern_pgdir s" by (simp add: s'_def tlb_invalidate_def s1(7))
  ultimately show thesis
    using that [OF rem] st rf pr s1(5) pg by simp
qed

section \<open>page_insert\<close>

lemma or_1_less_4096: "perm < (4096 :: u32) \<Longrightarrow> perm OR 1 < 4096"
  using OR_upper [of "uint perm" 12 1] by (simp add: word_less_def uint_or)

lemma new_pte:
  assumes "pp < 0x10000" and "perm < 4096"
  shows "present (page2pa pp OR perm OR PTE_P)" and "pt_page (page2pa pp OR perm OR PTE_P) = pp"
  using pt_page_make [OF assms(1) or_1_less_4096 [OF assms(2)]] present_or_P [of "page2pa pp OR perm"]
  by (simp_all add: or.assoc)

lemma page2pa_eq_PTE_ADDR:
  assumes "pp < 0x10000"
  shows "page2pa pp = PTE_ADDR e \<longleftrightarrow> pp = pt_page e"
proof
  assume "page2pa pp = PTE_ADDR e"
  hence "unat (page2pa pp) = unat (page2pa (pt_page e))" by (simp only: PTE_ADDR_page2pa)
  moreover have "unat (page2pa (pt_page e)) = pt_page e * 4096"
    using unat_lt_2p32 [of e]
    by (intro unat_page2pa) (simp add: pt_page_def unat_PGNUM div_less_iff_less_mult del: unat_lt_2p32)
  moreover have "unat (page2pa pp) = pp * 4096" using assms by (intro unat_page2pa) simp
  ultimately have "pp * 4096 = pt_page e * 4096" by metis
  thus "pp = pt_page e" by simp
next
  show "pp = pt_page e \<Longrightarrow> page2pa pp = PTE_ADDR e" by (simp add: PTE_ADDR_page2pa)
qed

text \<open>The effect of a successful \<open>page_insert\<close> on the mappings and the reference counts.\<close>

definition inserted :: "kern \<Rightarrow> kern \<Rightarrow> nat \<Rightarrow> nat \<Rightarrow> u32 \<Rightarrow> u32 \<Rightarrow> nat list \<Rightarrow> bool" where
  "inserted s s' d pp va perm fl \<longleftrightarrow>
     (\<forall>i < 955. \<forall>j < 1024. entry s' d i j =
        (if i = PDX va \<and> j = PTX va then Some (page2pa pp OR perm OR PTE_P) else entry s d i j)) \<and>
     (\<forall>q. q \<notin> set fl \<longrightarrow> unat (ref_of s' q) + uses (entry s d (PDX va) (PTX va)) q =
        unat (ref_of s q) + (if q = pp then 1 else 0))"

lemma unat_inc: "(r :: u16) \<noteq> 0xFFFF \<Longrightarrow> unat (r + 1) = unat r + 1"
proof -
  assume "r \<noteq> 0xFFFF"
  hence "unat r \<noteq> 65535" by (simp add: word_unat_eq_iff)
  hence "unat r + 1 < 65536" using unat_lt_2p16 [of r] by linarith
  thus ?thesis by (simp add: unat_add_no_carry)
qed

text \<open>The state after the last steps of \<open>page_insert\<close>: the entry stored and, for a page that
  was not mapped there before, the reference counted.\<close>

definition mapped_at :: "kern \<Rightarrow> nat \<Rightarrow> nat \<Rightarrow> u32 \<Rightarrow> u32 \<Rightarrow> kern" where
  "mapped_at u d pp va perm =
     upd_page pp (\<lambda>p. p\<lparr>pp_ref := pp_ref p + 1\<rparr>)
       (u\<lparr>kmem := st32 (kmem u) (slot u d (PDX va) (PTX va)) (page2pa pp OR perm OR PTE_P)\<rparr>)"

definition remapped_at :: "kern \<Rightarrow> nat \<Rightarrow> nat \<Rightarrow> u32 \<Rightarrow> u32 \<Rightarrow> kern" where
  "remapped_at u d pp va perm =
     u\<lparr>kmem := st32 (kmem u) (slot u d (PDX va) (PTX va)) (page2pa pp OR perm OR PTE_P)\<rparr>"

lemma ref_mapped_at:
  assumes "pp < length (pages u)" and "ref_of u pp \<noteq> 0xFFFF"
  shows "unat (ref_of (mapped_at u d pp va perm) q) = unat (ref_of u q) + (if q = pp then 1 else 0)"
  using assms by (simp add: mapped_at_def ref_of_def upd_page_def nth_list_update unat_inc)

lemma mapped_at:
  assumes fr: "frees u fl" and as: "aspace u d" and va: "va < UTOP" and pr: "present (pde u d (PDX va))"
    and nu: "entry u d (PDX va) (PTX va) = None"
    and pp: "pp < length (pages u)" "pp \<notin> set fl" "ref_of u pp \<noteq> 0xFFFF" and perm: "perm < 4096"
  shows "frees (mapped_at u d pp va perm) fl" and "aspace (mapped_at u d pp va perm) d"
    and "length (pages (mapped_at u d pp va perm)) = length (pages u)"
    and "inserted u (mapped_at u d pp va perm) d pp va perm fl"
proof -
  let ?s = "mapped_at u d pp va perm" and ?v = "page2pa pp OR perm OR PTE_P"
  have i: "PDX va < 955" using va user_va_iff by simp
  have len: "length (pages u) \<le> 0x10000" using frees_bounds(2) [OF fr] .
  note v = new_pte [OF frees_bounds(5) [OF fr pp(1)] perm]
  have m: "kmem ?s = st32 (kmem u) (slot u d (PDX va) (PTX va)) ?v" by (simp add: mapped_at_def)
  note rf = ref_mapped_at [OF pp(1,3), of d va perm]
  show "frees ?s fl" unfolding mapped_at_def by (rule frees_upd_ref) (use fr pp in simp_all)
  show ls: "length (pages ?s) = length (pages u)" by (simp add: mapped_at_def)
  show "aspace ?s d"
    by (rule aspace_store [OF as len i _ pr m ls]) (use v pp rf nu in \<open>auto simp: uses_def\<close>)
  show "inserted u ?s d pp va perm fl"
    using store_entry(4) [OF as len i _ pr m] v rf nu by (auto simp: inserted_def uses_def)
qed

lemma remapped_at:
  assumes fr: "frees u fl" and as: "aspace u d" and va: "va < UTOP"
    and en: "entry u d (PDX va) (PTX va) = Some e" and perm: "perm < 4096" and pp: "pp = pt_page e"
  shows "frees (remapped_at u d pp va perm) fl" and "aspace (remapped_at u d pp va perm) d"
    and "length (pages (remapped_at u d pp va perm)) = length (pages u)"
    and "inserted u (remapped_at u d pp va perm) d pp va perm fl"
proof -
  let ?s = "remapped_at u d pp va perm" and ?v = "page2pa pp OR perm OR PTE_P"
  have i: "PDX va < 955" using va user_va_iff by simp
  have len: "length (pages u) \<le> 0x10000" using frees_bounds(2) [OF fr] .
  have p: "pp < length (pages u)" using aspaceD(5) [OF as i _ en] pp by simp
  have pr: "present (pde u d (PDX va))" using en by (auto simp: entry_def split: if_splits)
  note v = new_pte [OF frees_bounds(5) [OF fr p] perm]
  have m: "kmem ?s = st32 (kmem u) (slot u d (PDX va) (PTX va)) ?v" by (simp add: remapped_at_def)
  have rf: "ref_of ?s q = ref_of u q" for q by (simp add: remapped_at_def ref_of_def)
  show "frees ?s fl" using fr by (simp add: remapped_at_def)
  show ls: "length (pages ?s) = length (pages u)" by (simp add: remapped_at_def)
  show "aspace ?s d"
    by (rule aspace_store [OF as len i _ pr m ls]) (use v p rf en pp in \<open>auto simp: uses_def\<close>)
  show "inserted u ?s d pp va perm fl"
    using store_entry(4) [OF as len i _ pr m] v rf en pp by (auto simp: inserted_def uses_def)
qed

text \<open>The three ways a page gets mapped once the walk has found the slot.\<close>

lemma page_insert_fresh:
  assumes w: "pgdir_walk (page_kva d) va True s = Inr (Some (slot t d (PDX va) (PTX va)), t)"
    and pr: "present (pde t d (PDX va))" and None: "entry t d (PDX va) (PTX va) = None"
    and "pp < length (pages t)"
  shows "page_insert (page_kva d) pp va perm s = Inr (0, mapped_at t d pp va perm)"
proof -
  have "\<not> present (ld32 (kmem t) (slot t d (PDX va) (PTX va)))"
    using pr None by (auto simp: entry_present Let_def split: if_splits)
  thus ?thesis using w assms(4) by (simp add: page_insert_def Let_def mapped_at_def)
qed

lemma page_insert_same:
  assumes w: "pgdir_walk (page_kva d) va True s = Inr (Some (slot t d (PDX va) (PTX va)), t)"
    and Some: "entry t d (PDX va) (PTX va) = Some e" and pp: "pp = pt_page e" "pp < 0x10000"
  shows "page_insert (page_kva d) pp va perm s = Inr (0, remapped_at t d pp va perm)"
proof -
  have "ld32 (kmem t) (slot t d (PDX va) (PTX va)) = e" "present e"
    using Some by (auto simp: entry_def split: if_splits)
  thus ?thesis using w page2pa_eq_PTE_ADDR [OF pp(2), of e] pp(1)
    by (simp add: page_insert_def Let_def remapped_at_def)
qed

lemma page_insert_replace:
  assumes w: "pgdir_walk (page_kva d) va True s = Inr (Some (slot t d (PDX va) (PTX va)), t)"
    and Some: "entry t d (PDX va) (PTX va) = Some e" and pp: "pp \<noteq> pt_page e" "pp < 0x10000"
    and u: "page_remove (page_kva d) va t = Inr u" "pp < length (pages u)"
      "slot u d (PDX va) (PTX va) = slot t d (PDX va) (PTX va)"
  shows "page_insert (page_kva d) pp va perm s = Inr (0, mapped_at u d pp va perm)"
proof -
  have "ld32 (kmem t) (slot t d (PDX va) (PTX va)) = e" "present e"
    using Some by (auto simp: entry_def split: if_splits)
  thus ?thesis using w page2pa_eq_PTE_ADDR [OF pp(2), of e] pp(1) u
    by (simp add: page_insert_def Let_def mapped_at_def)
qed

lemma inserted_from:
  assumes ins: "inserted t s' d pp va perm fl1" and "PDX va < 955"
    and en: "\<And>i j. i < 955 \<Longrightarrow> j < 1024 \<Longrightarrow> entry t d i j = entry s d i j"
    and rf: "\<And>q. q \<notin> set fl \<Longrightarrow> ref_of t q = ref_of s q" and sub: "set fl1 \<subseteq> set fl"
  shows "inserted s s' d pp va perm fl"
  using ins assms(2) sub en [of "PDX va" "PTX va"] unfolding inserted_def
  by (auto simp: en rf)

lemma inserted_after_remove:
  assumes ins: "inserted u s' d pp va perm fl'" and i: "PDX va < 955" and pp: "set fl' \<subseteq> insert (pt_page e) (set fl)"
    and nu: "entry t d (PDX va) (PTX va) = Some e" and r: "0 < unat (ref_of t (pt_page e))"
    and en: "\<And>i j. i < 955 \<Longrightarrow> j < 1024 \<Longrightarrow>
       entry u d i j = (if i = PDX va \<and> j = PTX va then None else entry t d i j)"
    and rf: "\<And>q. ref_of u q = (if q = pt_page e then ref_of t q - 1 else ref_of t q)"
    and last: "unat (ref_of s' (pt_page e)) = unat (ref_of u (pt_page e))" and ne: "pp \<noteq> pt_page e"
  shows "inserted t s' d pp va perm fl"
proof -
  have "unat (ref_of s' q) + uses (Some e) q = unat (ref_of t q) + (if q = pp then 1 else 0)"
    if "q \<notin> set fl" for q
  proof (cases "q = pt_page e")
    case True
    thus ?thesis using last rf [of q] r ne unat_minus_1 [of "ref_of t q"] by (simp add: uses_def)
  next
    case False
    hence "q \<notin> set fl'" using that pp by auto
    thus ?thesis using ins rf [of q] False en [OF i, of "PTX va"] by (auto simp: inserted_def uses_def)
  qed
  thus ?thesis using ins en nu by (simp add: inserted_def)
qed

lemma page_insert_ok:
  assumes fr: "frees s fl" and as: "aspace s d" and va: "va < UTOP"
    and pp: "pp < length (pages s)" "pp \<notin> set fl" "ref_of s pp \<noteq> 0xFFFF" and perm: "perm < 4096"
    and mem: "fl \<noteq> [] \<or> present (pde s d (PDX va))"
  obtains s' fl' where "page_insert (page_kva d) pp va perm s = Inr (0, s')" "frees s' fl'"
    "aspace s' d" "length (pages s') = length (pages s)" "inserted s s' d pp va perm fl"
    "length fl \<le> length fl' + 1" "kern_pgdir s' = kern_pgdir s"
proof (cases rule: pgdir_walk_cases [OF fr as va])
  case 1
  thus thesis using mem by simp
next
  case (2 t fl1)
  have pp16: "pp < 0x10000" using frees_bounds(5) [OF fr pp(1)] .
  have i: "PDX va < 955" using va user_va_iff by simp
  have ppt: "pp < length (pages t)" "pp \<notin> set fl1" "ref_of t pp \<noteq> 0xFFFF"
    using 2(3,7,9) pp by auto
  note insd = inserted_from [OF _ i 2(8,9,3)]
  show thesis
  proof (cases "entry t d (PDX va) (PTX va)")
    case None
    note ma = mapped_at [OF 2(2,4) va 2(5) None ppt perm]
    show thesis
      using that [OF page_insert_fresh [OF 2(1,5) None ppt(1)] ma(1,2) _ insd [OF ma(4)]] ma(3) 2(7,10,11) by (simp add: mapped_at_def)
  next
    case (Some e)
    show thesis
    proof (cases "pp = pt_page e")
      case True
      note ra = remapped_at [OF 2(2,4) va Some perm True]
      show thesis
        using that [OF page_insert_same [OF 2(1) Some True pp16] ra(1,2) _ insd [OF ra(4)]] ra(3) 2(7,10,11) by (simp add: remapped_at_def)
    next
      case False
      show thesis
      proof (rule page_remove_mapped [OF 2(2,4) va Some])
        fix u assume u: "page_remove (page_kva d) va t = Inr u" "aspace u d"
          "frees u (if ref_of t (pt_page e) = 1 then pt_page e # fl1 else fl1)"
          "\<And>i j. i < 955 \<Longrightarrow> j < 1024 \<Longrightarrow>
             entry u d i j = (if i = PDX va \<and> j = PTX va then None else entry t d i j)"
          "\<And>q. ref_of u q = (if q = pt_page e then ref_of t q - 1 else ref_of t q)"
          "present (pde u d (PDX va))" "slot u d (PDX va) (PTX va) = slot t d (PDX va) (PTX va)"
          "length (pages u) = length (pages t)" "kern_pgdir u = kern_pgdir t"
        have ppu: "pp < length (pages u)" "ref_of u pp \<noteq> 0xFFFF"
          "pp \<notin> set (if ref_of t (pt_page e) = 1 then pt_page e # fl1 else fl1)"
          using ppt u(5,8) False by auto
        have nu: "entry u d (PDX va) (PTX va) = None" using u(4) i by simp
        note ma = mapped_at [OF u(3,2) va u(6) nu ppu(1,3,2) perm]
        have "inserted t (mapped_at u d pp va perm) d pp va perm fl1"
          by (rule inserted_after_remove [OF ma(4) i _ Some _ u(4,5) _ False])
             (use aspace_referenced(3) [OF 2(4) i _ Some] ref_mapped_at [OF ppu(1,2)] False in auto)
        from that [OF page_insert_replace [OF 2(1) Some False pp16 u(1) ppu(1) u(7)] ma(1,2) _ insd [OF this]]
        show thesis using ma(3) u(8,9) 2(7,10,11) by (simp add: mapped_at_def split: if_splits)
      qed
    qed
  qed
qed

section \<open>The address space as a map\<close>

text \<open>The page table entry in force for a user virtual address, seen through the invariant.\<close>

definition mapping :: "kern \<Rightarrow> nat \<Rightarrow> u32 \<Rightarrow> u32 option" where
  "mapping s d va = entry s d (PDX va) (PTX va)"

lemma mapping_upd:
  assumes "\<And>i j. i < 955 \<Longrightarrow> j < 1024 \<Longrightarrow> entry s' d i j = (if i = PDX va \<and> j = PTX va then e else entry s d i j)"
    and "va' < UTOP"
  shows "mapping s' d va' = (if PGNUM va' = PGNUM va then e else mapping s d va')"
  using assms(1) [of "PDX va'" "PTX va'"] assms(2) user_va_iff [of va']
  by (simp add: mapping_def page_eq_iff)

lemma inserted_mapping:
  "inserted s s' d pp va perm fl \<Longrightarrow> va' < UTOP \<Longrightarrow>
     mapping s' d va' = (if PGNUM va' = PGNUM va then Some (page2pa pp OR perm OR PTE_P) else mapping s d va')"
  by (rule mapping_upd) (simp_all add: inserted_def)

lemma check_va2pa_mapping:
  assumes "frees s fl" and "aspace s d" and "va < UTOP"
  shows "check_va2pa (page_kva d) va s =
    Inr (case mapping s d va of None \<Rightarrow> NOT 0 | Some e \<Rightarrow> PTE_ADDR e)"
proof (cases "present (pde s d (PDX va))")
  case True
  moreover have "PDX va < 955" using assms(3) user_va_iff by simp
  ultimately have "pt_page (pde s d (PDX va)) < length (pages s)" using aspaceD(2) assms(2) by blast
  thus ?thesis using KADDR_table [OF assms(1)] True
    by (simp add: check_va2pa_def Let_def ld32_pde mapping_def entry_def slot_def)
qed (simp add: check_va2pa_def Let_def ld32_pde mapping_def entry_def)

text \<open>A client of the address-space interface: unmapping a list of pages.\<close>

primrec remove_all :: "('va \<Rightarrow> 's \<Rightarrow> ('e + 's)) \<Rightarrow> 'va list \<Rightarrow> 's \<Rightarrow> ('e + 's)" where
  "remove_all rem [] s = Inr s"
| "remove_all rem (v # vs) s = res_bind (rem v s) (remove_all rem vs)"

text \<open>What a client may rely on: \<open>inv\<close> holds throughout; a successful insert overrides one
  virtual page, a failed one changes no mapping, and a remove of a mapped page deletes it.\<close>

locale address_space =
  fixes ins :: "'va \<Rightarrow> 'p \<Rightarrow> 's \<Rightarrow> ('e + int \<times> 's)"
    and rem :: "'va \<Rightarrow> 's \<Rightarrow> ('e + 's)"
    and look :: "'s \<Rightarrow> 'va \<Rightarrow> 'm option"
    and inv :: "'s \<Rightarrow> bool"
    and user :: "'va \<Rightarrow> bool"
    and usable :: "'s \<Rightarrow> 'p \<Rightarrow> bool"
    and same :: "'va \<Rightarrow> 'va \<Rightarrow> bool"
    and pte :: "'p \<Rightarrow> 'm"
  assumes insert_law: "inv s \<Longrightarrow> user v \<Longrightarrow> usable s p \<Longrightarrow>
      \<exists>r s'. ins v p s = Inr (r, s') \<and> inv s' \<and>
        (r = 0 \<and> (\<forall>w. user w \<longrightarrow> look s' w = (if same w v then Some (pte p) else look s w)) \<or>
         r < 0 \<and> (\<forall>w. user w \<longrightarrow> look s' w = look s w))"
    and remove_law: "inv s \<Longrightarrow> user v \<Longrightarrow> look s v \<noteq> None \<Longrightarrow>
      \<exists>s'. rem v s = Inr s' \<and> inv s' \<and> (\<forall>w. user w \<longrightarrow> look s' w = (if same w v then None else look s w))"
    and same_refl: "same v v"
begin

lemma insert_remove:
  assumes "inv s" and "user v" and "usable s p" and "ins v p s = Inr (0, s1)"
  shows "\<exists>s2. rem v s1 = Inr s2 \<and> inv s2 \<and>
     (\<forall>w. user w \<longrightarrow> look s2 w = (if same w v then None else look s w))"
proof -
  have s1: "inv s1" "\<forall>w. user w \<longrightarrow> look s1 w = (if same w v then Some (pte p) else look s w)"
    using insert_law [OF assms(1-3)] assms(4) by auto
  moreover have "look s1 v \<noteq> None" using s1(2) assms(2) same_refl by simp
  ultimately show ?thesis using remove_law [of s1 v] assms(2) by auto
qed

lemma remove_all_unmaps:
  assumes "inv s" and "\<forall>v \<in> set vs. user v \<and> look s v \<noteq> None"
    and "\<forall>i < length vs. \<forall>j < length vs. same (vs ! i) (vs ! j) \<longrightarrow> i = j"
  shows "\<exists>s'. remove_all rem vs s = Inr s' \<and> inv s' \<and>
     (\<forall>w. user w \<longrightarrow> look s' w = (if \<exists>v \<in> set vs. same w v then None else look s w))"
  using assms
proof (induction vs arbitrary: s)
  case (Cons v vs)
  obtain s1 where s1: "rem v s = Inr s1" "inv s1"
    "\<forall>w. user w \<longrightarrow> look s1 w = (if same w v then None else look s w)"
    using remove_law [of s v] Cons.prems by auto
  have ns: "\<not> same u v" if u: "u \<in> set vs" for u
  proof -
    obtain k where "k < length vs" "u = vs ! k" using u by (auto simp: in_set_conv_nth)
    thus ?thesis using Cons.prems(3) [rule_format, of "Suc k" 0] by auto
  qed
  have "\<forall>u \<in> set vs. user u \<and> look s1 u \<noteq> None" using Cons.prems(2) s1(3) ns by simp
  moreover have "\<forall>i < length vs. \<forall>j < length vs. same (vs ! i) (vs ! j) \<longrightarrow> i = j"
    using Cons.prems(3) [rule_format, of "Suc i" "Suc j" for i j] by auto
  ultimately obtain s2 where "remove_all rem vs s1 = Inr s2" "inv s2"
     "\<forall>w. user w \<longrightarrow> look s2 w = (if \<exists>v \<in> set vs. same w v then None else look s1 w)"
    using Cons.IH [OF s1(2)] by blast
  thus ?case using s1 by auto
qed auto

end

text \<open>\<open>page_insert\<close> and \<open>page_remove\<close> on the directory in page \<open>d\<close> provide the interface.\<close>

definition aspace_inv :: "nat \<Rightarrow> kern \<Rightarrow> bool" where
  "aspace_inv d s \<longleftrightarrow> aspace s d \<and> (\<exists>fl. frees s fl)"

definition mappable :: "kern \<Rightarrow> nat \<Rightarrow> bool" where
  "mappable s pp \<longleftrightarrow> pp < length (pages s) \<and> ref_of s pp \<noteq> 0xFFFF \<and> (\<forall>fl. frees s fl \<longrightarrow> pp \<notin> set fl)"

lemma page_insert_result:
  assumes "frees s fl" and "aspace s d" and "va < UTOP"
    and "pp < length (pages s)" "pp \<notin> set fl" "ref_of s pp \<noteq> 0xFFFF" and "perm < 4096"
  shows "if fl = [] \<and> \<not> present (pde s d (PDX va))
     then page_insert (page_kva d) pp va perm s = Inr (- E_NO_MEM, s)
     else \<exists>s' fl'. page_insert (page_kva d) pp va perm s = Inr (0, s') \<and> frees s' fl' \<and> aspace s' d \<and>
       length (pages s') = length (pages s) \<and> inserted s s' d pp va perm fl \<and>
       length fl \<le> length fl' + 1 \<and> kern_pgdir s' = kern_pgdir s"
proof (cases "fl = [] \<and> \<not> present (pde s d (PDX va))")
  case True
  thus ?thesis using pgdir_walk_absent(2) assms(1) by (simp add: page_insert_def)
next
  case False
  hence "fl \<noteq> [] \<or> present (pde s d (PDX va))" by blast
  from page_insert_ok [OF assms this] show ?thesis using False by (smt (verit))
qed

interpretation uspace: address_space "\<lambda>va pp. page_insert (page_kva d) pp va perm"
    "page_remove (page_kva d)" "\<lambda>s. mapping s d" "aspace_inv d" "\<lambda>va. va < UTOP"
    "\<lambda>s pp. mappable s pp \<and> perm < 4096" "\<lambda>va va'. PGNUM va = PGNUM va'" "\<lambda>pp. page2pa pp OR perm OR PTE_P"
  for d perm
proof (unfold_locales, goal_cases)
  case (1 s va pp)
  then obtain fl where fl: "frees s fl" "aspace s d" "pp \<notin> set fl" "pp < length (pages s)"
    "ref_of s pp \<noteq> 0xFFFF" "perm < 4096" by (auto simp: aspace_inv_def mappable_def)
  note r = page_insert_result [OF fl(1,2) 1(2) fl(4,3,5,6)]
  show ?case
  proof (cases "fl = [] \<and> \<not> present (pde s d (PDX va))")
    case True
    thus ?thesis using r 1(1) by auto
  next
    case False
    then obtain s' fl' where "page_insert (page_kva d) pp va perm s = Inr (0, s')" "frees s' fl'"
      "aspace s' d" "inserted s s' d pp va perm fl" using r by auto
    thus ?thesis using inserted_mapping by (auto simp: aspace_inv_def)
  qed
next
  case (2 s va)
  then obtain fl e where "frees s fl" "aspace s d" "entry s d (PDX va) (PTX va) = Some e"
    by (auto simp: aspace_inv_def mapping_def)
  from page_remove_mapped [OF this(1,2) 2(2) this(3)] obtain s' fl' where
    "page_remove (page_kva d) va s = Inr s'" "aspace s' d" "frees s' fl'"
    "\<And>i j. i < 955 \<Longrightarrow> j < 1024 \<Longrightarrow> entry s' d i j = (if i = PDX va \<and> j = PTX va then None else entry s d i j)"
    by (smt (verit))
  thus ?case using mapping_upd [of s' d va None s] by (auto simp: aspace_inv_def)
qed auto


section \<open>Unmapped pages with a page table\<close>

lemma page_lookup_zero_entry:
  assumes fr: "frees s fl" and as: "aspace s d" and va: "va < UTOP" and pr: "present (pde s d (PDX va))"
    and z: "ld32 (kmem s) (slot s d (PDX va) (PTX va)) = 0" and "0 < length (pages s)"
  shows "page_lookup (page_kva d) va s = Inr (Some (0, slot s d (PDX va) (PTX va)), s)"
proof -
  have "pt_page 0 = 0" by (simp add: pt_page_def PGNUM_def)
  thus ?thesis using pgdir_walk_present [OF fr as va pr, of False] pa2page_entry [OF fr, of 0] assms(6) z
    by (simp add: page_lookup_def)
qed

lemma page_remove_zero_entry:
  assumes fr: "frees s fl" and as: "aspace s d" and va: "va < UTOP" and pr: "present (pde s d (PDX va))"
    and z: "ld32 (kmem s) (slot s d (PDX va) (PTX va)) = 0" and one: "ref_of s 0 = 1" and l: "0 < length (pages s)"
  obtains s' where "page_remove (page_kva d) va s = Inr s'" and "frees s' (0 # fl)"
proof -
  have "0 \<notin> set fl" using referenced_not_free [OF fr, of 0] one by simp
  note de = page_decref_last [OF fr l this one]
  show thesis
    using that page_lookup_zero_entry [OF fr as va pr z l] de
    by (simp add: page_remove_def tlb_invalidate_def)
qed

section \<open>Properties\<close>

text \<open>A kernel whose page 0 holds an empty page directory, pages 2 and 3 are free and page 1
  has been allocated.\<close>

definition demo_aspace :: kern where
  "demo_aspace = \<lparr>npages = 4, npages_basemem = 4, kern_pgdir = 0xF0000000, pages_kva = 0, pages =
     [\<lparr>pp_link = None, pp_ref = 1\<rparr>, \<lparr>pp_link = None, pp_ref = 0\<rparr>,
      \<lparr>pp_link = None, pp_ref = 0\<rparr>, \<lparr>pp_link = Some 2, pp_ref = 0\<rparr>],
     page_free_list = Some 3, nextfree = 0xF0001000, kmem = (\<lambda>_. 0), tlb = (\<lambda>_. True)\<rparr>"

lemma demo_aspace_frees: "frees demo_aspace [3, 2]"
  by (rule freesI) (auto simp: demo_aspace_def link_of_def ref_of_def less_4_cases)

lemma demo_aspace_pde [simp]: "pde demo_aspace d i = 0" "\<not> present 0" "entry demo_aspace d i j = None"
  "mapping demo_aspace d va = None"
  by (simp_all add: pde_def demo_aspace_def ld32_def present_def entry_def mapping_def)

lemma demo_aspace_aspace: "aspace demo_aspace 0"
proof (rule aspaceI)
  fix q assume "q < length (pages demo_aspace)"
  show "nmaps demo_aspace 0 q + ntabs demo_aspace 0 q + (if q = 0 then 1 else 0) \<le> unat (ref_of demo_aspace q)"
    by (simp add: nmaps_def ntabs_def) (simp add: demo_aspace_def ref_of_def)
qed (simp_all, simp add: demo_aspace_def)

lemma demo_aspace_page1:
  "1 < length (pages demo_aspace)" "1 \<notin> set [3, 2 :: nat]" "ref_of demo_aspace 1 = 0" "ref_of demo_aspace 1 \<noteq> 0xFFFF"
  by (simp_all add: demo_aspace_def ref_of_def)

lemma demo_inserted:
  obtains s' fl' where "page_insert (page_kva 0) 1 0x1000 PTE_U demo_aspace = Inr (0, s')"
    "frees s' fl'" "aspace s' 0" "mapping s' 0 0x1000 = Some 0x1005" "mapping s' 0 0x2000 = None"
    "unat (ref_of s' 1) = 1" "unat (ref_of s' 0) = 1" "length (pages s') = 4"
proof -
  have p: "(PTE_U :: u32) < 4096" by simp
  obtain s' fl' where s': "page_insert (page_kva 0) 1 0x1000 PTE_U demo_aspace = Inr (0, s')"
    "frees s' fl'" "aspace s' 0" "length (pages s') = length (pages demo_aspace)"
    "inserted demo_aspace s' 0 1 0x1000 PTE_U [3, 2]"
    by (rule page_insert_ok [OF demo_aspace_frees demo_aspace_aspace _ demo_aspace_page1(1,2,4) p, of "0x1000"])
       simp_all
  have "mapping s' 0 0x1000 = Some 0x1005" "mapping s' 0 0x2000 = None"
    using inserted_mapping [OF s'(5), of "0x1000"] inserted_mapping [OF s'(5), of "0x2000"]
    by (simp_all add: page2pa_def PGNUM_def)
  moreover have "unat (ref_of s' q) = unat (ref_of demo_aspace q) + (if q = 1 then 1 else 0)"
    if "q \<notin> set [3, 2]" for q
    using s'(5) that by (auto simp: inserted_def uses_def)
  from this [of 1] this [of 0] have "unat (ref_of s' 1) = 1" "unat (ref_of s' 0) = 1"
    by (simp_all add: demo_aspace_def ref_of_def)
  ultimately show thesis using that s' by (simp add: demo_aspace_def)
qed

text \<open>C4: \<open>page_insert\<close> of an allocated page at a user address. It returns \<open>-E_NO_MEM\<close>, with
  the kernel unchanged, exactly when a page table is needed and no page is free. Otherwise it
  returns 0, the address is mapped to the page with the permissions given, every other user
  address keeps its mapping, the page displaced loses the reference it had and \<open>pp\<close> gains one,
  and the invariants of the free list and of the address space still hold.\<close>

theorem page_insert_spec:
  assumes "frees s fl" and "aspace s d" and "va < UTOP"
    and "pp < length (pages s)" and "pp \<notin> set fl" and "ref_of s pp \<noteq> 0xFFFF" and "perm < 4096"
  shows "if fl = [] \<and> \<not> present (pde s d (PDX va))
     then page_insert (page_kva d) pp va perm s = Inr (- E_NO_MEM, s)
     else \<exists>s' fl'. page_insert (page_kva d) pp va perm s = Inr (0, s') \<and> frees s' fl' \<and> aspace s' d \<and>
       (\<forall>va' < UTOP. mapping s' d va' =
          (if PGNUM va' = PGNUM va then Some (page2pa pp OR perm OR PTE_P) else mapping s d va')) \<and>
       (\<forall>q. q \<notin> set fl \<longrightarrow> unat (ref_of s' q) + uses (mapping s d va) q =
          unat (ref_of s q) + (if q = pp then 1 else 0))"
proof (cases "fl = [] \<and> \<not> present (pde s d (PDX va))")
  case False
  then obtain s' fl' where "page_insert (page_kva d) pp va perm s = Inr (0, s')" "frees s' fl'" "aspace s' d"
    "inserted s s' d pp va perm fl" using page_insert_result [OF assms] by auto
  thus ?thesis using False inserted_mapping [of s s' d pp va perm fl]
    by (auto simp: inserted_def mapping_def)
qed (use page_insert_result [OF assms] in simp)

theorem page_insert_spec_witness:
  "\<exists>s' fl'. page_insert (page_kva 0) 1 0x1000 PTE_U demo_aspace = Inr (0, s') \<and> frees s' fl' \<and>
     mapping s' 0 0x1000 = Some 0x1005"
  using page_insert_spec [OF demo_aspace_frees demo_aspace_aspace _ demo_aspace_page1(1,2,4), of "0x1000" PTE_U]
  by (auto simp: page2pa_def)

text \<open>C5: \<open>page_remove\<close> of a mapped user address unmaps it and nothing else, invalidates its
  TLB entry and no other, drops one reference of the page, and frees the page exactly when
  that was the last one; where no page table exists it changes nothing.\<close>

theorem page_remove_spec:
  assumes "frees s fl" and "aspace s d" and "va < UTOP"
    and "\<not> present (pde s d (PDX va)) \<or> mapping s d va = Some e"
  shows "if mapping s d va = None then page_remove (page_kva d) va s = Inr s
     else \<exists>s'. page_remove (page_kva d) va s = Inr s' \<and> aspace s' d \<and>
       frees s' (if ref_of s (pt_page e) = 1 then pt_page e # fl else fl) \<and>
       (\<forall>va' < UTOP. mapping s' d va' = (if PGNUM va' = PGNUM va then None else mapping s d va')) \<and>
       (\<forall>q. ref_of s' q = (if q = pt_page e then ref_of s q - 1 else ref_of s q)) \<and>
       tlb s' = (tlb s)(PGNUM va := False)"
proof (cases "present (pde s d (PDX va))")
  case True
  hence en: "entry s d (PDX va) (PTX va) = Some e" using assms(4) by (simp add: mapping_def)
  show ?thesis
  proof (rule page_remove_mapped [OF assms(1-3) en], goal_cases)
    case (1 s')
    thus ?case using en mapping_upd [OF 1(4)] by (auto simp: mapping_def)
  qed
next
  case False
  thus ?thesis using page_lookup_no_table by (simp add: mapping_def entry_def page_remove_def)
qed

theorem page_remove_spec_witness:
  "\<exists>s s'. page_insert (page_kva 0) 1 0x1000 PTE_U demo_aspace = Inr (0, s) \<and>
     page_remove (page_kva 0) 0x1000 s = Inr s' \<and> mapping s' 0 0x1000 = None \<and> \<not> tlb s' 1"
proof (rule demo_inserted)
  fix s fl assume s: "page_insert (page_kva 0) 1 0x1000 PTE_U demo_aspace = Inr (0, s)"
    "frees s fl" "aspace s 0" "mapping s 0 0x1000 = Some 0x1005"
  from page_remove_spec [OF s(2,3), of "0x1000" "0x1005"] s(1,4) show ?thesis
    by (auto simp: PGNUM_def)
qed

text \<open>C6: a page mapped by \<open>page_insert\<close> is the one that \<open>page_lookup\<close> and \<open>check_va2pa\<close> find
  at that address, and \<open>page_remove\<close> takes it out again: the mappings of all other user pages
  are the ones from before the insertion.\<close>

theorem page_insert_lookup_remove:
  assumes "frees s fl" and "aspace s d" and "va < UTOP"
    and "pp < length (pages s)" and "pp \<notin> set fl" and "ref_of s pp \<noteq> 0xFFFF" and "perm < 4096"
    and "page_insert (page_kva d) pp va perm s = Inr (0, s')"
  shows "(\<exists>pte. page_lookup (page_kva d) va s' = Inr (Some (pp, pte), s') \<and>
        ld32 (kmem s') pte = (page2pa pp OR perm OR PTE_P)) \<and>
     check_va2pa (page_kva d) va s' = Inr (page2pa pp) \<and>
     (\<exists>s''. page_remove (page_kva d) va s' = Inr s'' \<and> aspace s'' d \<and>
        (\<forall>va' < UTOP. mapping s'' d va' = (if PGNUM va' = PGNUM va then None else mapping s d va')))"
proof -
  let ?v = "page2pa pp OR perm OR PTE_P"
  have ok: "\<not> (fl = [] \<and> \<not> present (pde s d (PDX va)))"
    using page_insert_result [OF assms(1-7)] assms(8) by (auto split: if_splits)
  then obtain fl' where s': "frees s' fl'" "aspace s' d" "inserted s s' d pp va perm fl"
    using page_insert_result [OF assms(1-7)] assms(8) by auto
  have m: "mapping s' d va = Some ?v" using inserted_mapping [OF s'(3) assms(3)] by simp
  hence en: "entry s' d (PDX va) (PTX va) = Some ?v" by (simp add: mapping_def)
  have v: "pt_page ?v = pp" using new_pte frees_bounds(5) [OF assms(1,4)] assms(7) by blast
  have u: "mappable s pp" using assms(1,4-6) frees_unique by (auto simp: mappable_def)
  have iv: "aspace_inv d s" using assms(1,2) by (auto simp: aspace_inv_def)
  have "\<exists>s''. page_remove (page_kva d) va s' = Inr s'' \<and> aspace_inv d s'' \<and>
        (\<forall>va'. va' < UTOP \<longrightarrow> mapping s'' d va' = (if PGNUM va' = PGNUM va then None else mapping s d va'))"
    using uspace.insert_remove [OF iv assms(3) _ assms(8)] u assms(7) by blast
  moreover have "ld32 (kmem s') (slot s' d (PDX va) (PTX va)) = ?v"
    using en by (auto simp: entry_def split: if_splits)
  moreover have "check_va2pa (page_kva d) va s' = Inr (page2pa pp)"
    using check_va2pa_mapping [OF s'(1,2) assms(3)] m v PTE_ADDR_page2pa [of ?v] by simp
  ultimately show ?thesis
    using page_lookup_mapped [OF s'(1,2) assms(3) en] v unfolding aspace_inv_def by auto
qed

theorem page_insert_lookup_remove_witness:
  "\<exists>s pte. page_insert (page_kva 0) 1 0x1000 PTE_U demo_aspace = Inr (0, s) \<and>
     page_lookup (page_kva 0) 0x1000 s = Inr (Some (1, pte), s)"
proof (rule demo_inserted)
  fix s assume s: "page_insert (page_kva 0) 1 0x1000 PTE_U demo_aspace = Inr (0, s)"
  from page_insert_lookup_remove [OF demo_aspace_frees demo_aspace_aspace _ demo_aspace_page1(1,2,4) _ s] s
  show ?thesis by auto
qed



text \<open>\<open>check_va2pa\<close> reads exactly the mapping of a user address: all ones when the address
  is not mapped, otherwise the physical address of the page.\<close>

theorem check_va2pa_spec:
  assumes "frees s fl" and "aspace s d" and "va < UTOP"
  shows "check_va2pa (page_kva d) va s =
    Inr (case mapping s d va of None \<Rightarrow> 0xFFFFFFFF | Some e \<Rightarrow> page2pa (pt_page e))"
proof -
  have "NOT 0 = (0xFFFFFFFF :: u32)" by simp
  thus ?thesis using check_va2pa_mapping [OF assms] by (simp add: PTE_ADDR_page2pa split: option.splits)
qed

theorem check_va2pa_spec_witness:
  "check_va2pa (page_kva 0) 0x1000 demo_aspace = Inr 0xFFFFFFFF"
  using check_va2pa_spec [OF demo_aspace_frees demo_aspace_aspace, of "0x1000"] by simp

text \<open>C19: unmapping a list of distinct mapped user pages with \<open>page_remove\<close> succeeds, unmaps
  exactly those pages and keeps the invariant.\<close>

theorem page_remove_list:
  assumes "frees s fl" and "aspace s d"
    and "\<forall>va \<in> set vas. va < UTOP \<and> mapping s d va \<noteq> None" and "distinct (map PGNUM vas)"
  shows "\<exists>s'. remove_all (page_remove (page_kva d)) vas s = Inr s' \<and> aspace s' d \<and>
     (\<forall>va < UTOP. mapping s' d va = (if PGNUM va \<in> PGNUM ` set vas then None else mapping s d va))"
proof -
  have iv: "aspace_inv d s" using assms(1,2) by (auto simp: aspace_inv_def)
  have "\<forall>i < length vas. \<forall>j < length vas. PGNUM (vas ! i) = PGNUM (vas ! j) \<longrightarrow> i = j"
    using assms(4) by (auto simp: distinct_conv_nth)
  from uspace.remove_all_unmaps [OF iv assms(3) this]
  show ?thesis by (auto simp: aspace_inv_def image_iff)
qed

theorem page_remove_list_witness:
  "\<exists>s s'. page_insert (page_kva 0) 1 0x1000 PTE_U demo_aspace = Inr (0, s) \<and>
     remove_all (page_remove (page_kva 0)) [0x1000] s = Inr s' \<and> mapping s' 0 0x1000 = None"
proof (rule demo_inserted)
  fix s fl assume s: "page_insert (page_kva 0) 1 0x1000 PTE_U demo_aspace = Inr (0, s)"
    "frees s fl" "aspace s 0" "mapping s 0 0x1000 = Some 0x1005"
  from page_remove_list [OF s(2,3), of "[0x1000]"] s(1,4) show ?thesis by auto
qed

text \<open>\<open>page_lookup\<close> does not look at \<open>PTE_P\<close>. Where the page table exists but the entry is
  empty it returns page 0 instead of NULL, and \<open>page_remove\<close> of that unmapped address drops a
  reference of page 0: with the single reference \<open>page_init\<close> gives it, page 0 goes to the
  free list.\<close>

theorem page_remove_unmapped_frees_page0:
  assumes "frees s fl" and "aspace s d" and "va < UTOP" and "present (pde s d (PDX va))"
    and "ld32 (kmem s) (page_kva (pt_page (pde s d (PDX va))) + 4 * PTX va) = 0" and "0 < length (pages s)"
  shows "mapping s d va = None \<and> (\<exists>pte. page_lookup (page_kva d) va s = Inr (Some (0, pte), s)) \<and>
     (ref_of s 0 = 1 \<longrightarrow> (\<exists>s'. page_remove (page_kva d) va s = Inr s' \<and> frees s' (0 # fl)))"
proof -
  have z: "ld32 (kmem s) (slot s d (PDX va) (PTX va)) = 0" using assms(5) by (simp add: slot_def)
  hence "mapping s d va = None" by (simp add: mapping_def entry_def)
  moreover have "\<exists>s'. page_remove (page_kva d) va s = Inr s' \<and> frees s' (0 # fl)" if "ref_of s 0 = 1"
    by (rule page_remove_zero_entry [OF assms(1-4) z that assms(6)]) blast
  ultimately show ?thesis using page_lookup_zero_entry [OF assms(1-4) z assms(6)] by blast
qed


text \<open>A kernel whose page 2 is a page directory with an empty page table, page 3, in slot 0.\<close>

definition demo_table :: kern where
  "demo_table = \<lparr>npages = 4, npages_basemem = 4, kern_pgdir = 0xF0000000, pages_kva = 0, pages =
     [\<lparr>pp_link = None, pp_ref = 1\<rparr>, \<lparr>pp_link = None, pp_ref = 0\<rparr>,
      \<lparr>pp_link = None, pp_ref = 1\<rparr>, \<lparr>pp_link = None, pp_ref = 1\<rparr>],
     page_free_list = Some 1, nextfree = 0xF0001000, kmem = st32 (\<lambda>_. 0) (page_kva 2) 0x3007, tlb = (\<lambda>_. True)\<rparr>"

lemma demo_table_frees: "frees demo_table [1]"
  by (rule freesI) (auto simp: demo_table_def link_of_def ref_of_def less_4_cases)

lemma demo_table_ld32:
  "t < 0x10000 \<Longrightarrow> i < 1024 \<Longrightarrow>
     ld32 (kmem demo_table) (page_kva t + 4 * i) = (if t = 2 \<and> i = 0 then 0x3007 else 0)"
  using ld32_st32_slot [of 2 t 0 i "\<lambda>_. 0" "0x3007"] by (auto simp: demo_table_def) (simp_all add: ld32_def)

lemma demo_table_pde:
  "i < 1024 \<Longrightarrow> pde demo_table 2 i = (if i = 0 then 0x3007 else 0)" "pt_page 0x3007 = 3" "present 0x3007"
  using demo_table_ld32 [of 2 i] by (simp_all add: pde_def pt_page_def PGNUM_def present_def)

lemma demo_table_entry: "i < 955 \<Longrightarrow> j < 1024 \<Longrightarrow> entry demo_table 2 i j = None"
  using demo_table_ld32 [of 3 j] by (simp add: entry_def demo_table_pde less_955_1024 slot_def)

lemma demo_table_aspace: "aspace demo_table 2"
proof (rule aspaceI)
  fix q assume q: "q < length (pages demo_table)"
  have "nmaps demo_table 2 q = 0"
    using demo_table_entry by (auto simp: nmaps_def)
  moreover have "{i. i < 955 \<and> present (pde demo_table 2 i) \<and> pt_page (pde demo_table 2 i) = q} = (if q = 3 then {0} else {})"
    by (auto simp: demo_table_pde less_955_1024 split: if_splits)
  hence "ntabs demo_table 2 q = (if q = 3 then 1 else 0)" by (simp add: ntabs_def)
  ultimately show "nmaps demo_table 2 q + ntabs demo_table 2 q + (if q = 2 then 1 else 0) \<le> unat (ref_of demo_table q)"
    using q by (auto simp: demo_table_def ref_of_def)
next
  fix i assume "i < 955" "present (pde demo_table 2 i)"
  thus "pt_page (pde demo_table 2 i) < length (pages demo_table) \<and> pt_page (pde demo_table 2 i) \<noteq> 2"
    by (simp add: demo_table_pde less_955_1024 split: if_splits) (simp add: demo_table_def)
next
  fix i k assume "i < 955" "k < 955" "present (pde demo_table 2 i)" "present (pde demo_table 2 k)"
  thus "i = k" by (simp add: demo_table_pde less_955_1024 split: if_splits)
qed (simp_all add: demo_table_entry, simp add: demo_table_def)

theorem page_remove_unmapped_frees_page0_witness:
  "mapping demo_table 2 0x1000 = None \<and>
   (\<exists>s'. page_remove (page_kva 2) 0x1000 demo_table = Inr s' \<and> frees s' [0, 1])"
proof -
  have "PDX 0x1000 = 0" "PTX 0x1000 = 1" by (simp_all add: PDX_def PTX_def)
  moreover have "0 < length (pages demo_table)" "ref_of demo_table 0 = 1"
    by (simp_all add: demo_table_def ref_of_def)
  ultimately show ?thesis
    using page_remove_unmapped_frees_page0 [OF demo_table_frees demo_table_aspace, of "0x1000"]
      demo_table_ld32 [of 3 1] demo_table_pde(1) [of 0] demo_table_pde(2,3) by simp
qed

text \<open>re-inserting a page at the address where it is already mapped, which is how its
  permissions are changed, stores the new entry but leaves the TLB as it is: an entry with the
  old permissions stays cached.\<close>

theorem page_insert_keeps_stale_tlb:
  assumes "frees s fl" and "aspace s d" and "va < UTOP" and "mapping s d va = Some e" and "perm < 4096"
  shows "\<exists>s'. page_insert (page_kva d) (pt_page e) va perm s = Inr (0, s') \<and>
     mapping s' d va = Some (page2pa (pt_page e) OR perm OR PTE_P) \<and> tlb s' = tlb s"
proof -
  have en: "entry s d (PDX va) (PTX va) = Some e" using assms(4) by (simp add: mapping_def)
  hence pr: "present (pde s d (PDX va))" by (auto simp: entry_def split: if_splits)
  have i: "PDX va < 955" using assms(3) user_va_iff by simp
  have p: "pt_page e < 0x10000"
    using aspaceD(5) [OF assms(2) i _ en] frees_bounds(5) [OF assms(1)] by simp
  note ra = remapped_at [OF assms(1-3) en assms(5) refl]
  show ?thesis
    using page_insert_same [OF pgdir_walk_present [OF assms(1-3) pr] en refl p, of perm]
      inserted_mapping [OF ra(4) assms(3)] by (auto simp: remapped_at_def)
qed

theorem page_insert_keeps_stale_tlb_witness:
  "\<exists>s s'. page_insert (page_kva 0) 1 0x1000 PTE_U demo_aspace = Inr (0, s) \<and>
     mapping s 0 0x1000 = Some 0x1005 \<and> page_insert (page_kva 0) 1 0x1000 PTE_W s = Inr (0, s') \<and>
     mapping s' 0 0x1000 = Some 0x1003 \<and> tlb s' = tlb s"
proof (rule demo_inserted)
  fix s fl assume s: "page_insert (page_kva 0) 1 0x1000 PTE_U demo_aspace = Inr (0, s)"
    "frees s fl" "aspace s 0" "mapping s 0 0x1000 = Some 0x1005"
  from page_insert_keeps_stale_tlb [OF s(2,3) _ s(4), of PTE_W] s(1,4) show ?thesis
    by (auto simp: pt_page_def PGNUM_def page2pa_def)
qed

end
