(* ===== verification/Jos_Checks.thy ===== *)
theory Jos_Checks
  imports Jos_PageTable
begin

text \<open>
  The tests of \<open>kern/pmap.c\<close> that \<open>mem_init\<close> runs on the page allocator and on the page tables:
  \<open>check_page_free_list\<close>, \<open>check_page_alloc\<close> and \<open>check_page\<close>.

  A test is a list of steps on the state of the kernel; a failed assertion panics. A loop along the free
  list ends only if the list does: its value is \<open>None\<close> otherwise. The lemmas show that
  the tests pass whenever the invariants of the allocator and of the page tables hold.
\<close>

section \<open>Steps of a test\<close>

fun steps :: "('s \<Rightarrow> kerr + 's) list \<Rightarrow> 's \<Rightarrow> kerr + 's" where
  "steps [] s = Inr s"
| "steps (f # fs) s = res_bind (f s) (steps fs)"

definition failed :: kerr where
  "failed = Panic ''assertion failed''"

definition ensure :: "('s \<Rightarrow> bool) \<Rightarrow> 's \<Rightarrow> kerr + 's" where
  "ensure P s = (if P s then Inr s else Inl failed)"

definition ensure_that :: "('s \<Rightarrow> kerr + bool) \<Rightarrow> 's \<Rightarrow> kerr + 's" where
  "ensure_that P s = res_bind (P s) (\<lambda>b. if b then Inr s else Inl failed)"

definition modify :: "('s \<Rightarrow> 's) \<Rightarrow> 's \<Rightarrow> kerr + 's" where
  "modify f s = Inr (f s)"

text \<open>\<open>assert((pp = page_alloc(flags)))\<close>, with what follows, and \<open>assert(!page_alloc(0))\<close>.\<close>

definition allocate :: "u32 \<Rightarrow> (nat \<Rightarrow> kern \<Rightarrow> kerr + kern) \<Rightarrow> kern \<Rightarrow> kerr + kern" where
  "allocate flags k s = res_bind (page_alloc flags s) (\<lambda>(p, s). case p of None \<Rightarrow> Inl failed | Some pp \<Rightarrow> k pp s)"

definition no_page :: "kern \<Rightarrow> kerr + kern" where
  "no_page s = res_bind (page_alloc 0 s) (\<lambda>(p, s). if p = None then Inr s else Inl failed)"

definition set_free_list :: "nat option \<Rightarrow> kern \<Rightarrow> kerr + kern" where
  "set_free_list fl = modify (\<lambda>s. s\<lparr>page_free_list := fl\<rparr>)"

definition fill_page :: "nat \<Rightarrow> u32 \<Rightarrow> u32 \<Rightarrow> kern \<Rightarrow> kerr + kern" where
  "fill_page pp c n s = res_bind (page2kva s pp) (\<lambda>kva. Inr (s\<lparr>kmem := memset (kmem s) kva c n\<rparr>))"

section \<open>Loops along the free list\<close>

text \<open>\<open>for (pp = ...; pp; pp = pp->pp_link)\<close>, on the kernel and the local variables \<open>x\<close> of the loop.\<close>

partial_function (option) each_free ::
  "(nat \<Rightarrow> 'x \<times> kern \<Rightarrow> kerr + ('x \<times> kern)) \<Rightarrow> nat option \<Rightarrow> 'x \<times> kern \<Rightarrow> (kerr + ('x \<times> kern)) option" where
  "each_free body p s =
     (case p of
        None \<Rightarrow> Some (Inr s)
      | Some pp \<Rightarrow>
          if pp \<ge> length (pages (snd s)) then Some (Inl (Wild pp))
          else (case body pp s of
              Inl e \<Rightarrow> Some (Inl e)
            | Inr s \<Rightarrow> each_free body (pp_link (pages (snd s) ! pp)) s))"

fun then_do :: "(kerr + 'a) option \<Rightarrow> ('a \<Rightarrow> (kerr + 'b) option) \<Rightarrow> (kerr + 'b) option" where
  "then_do None f = None"
| "then_do (Some (Inl e)) f = Some (Inl e)"
| "then_do (Some (Inr x)) f = f x"

section \<open>check_page_free_list\<close>

text \<open>
  The two lists under construction: their heads \<open>pp1\<close> and \<open>pp2\<close> in the source, and the pointers \<open>tp[0]\<close> and \<open>tp[1]\<close> to the link to
  set next, \<open>None\<close> for the head itself and a page for its \<open>pp_link\<close>. A head that is not
  set yet is \<open>None\<close>; the code sets both before it reads them.
\<close>

record two_lists =
  head1 :: "nat option"
  head2 :: "nat option"
  tp0 :: "nat option"
  tp1 :: "nat option"

definition set_link :: "bool \<Rightarrow> nat option \<Rightarrow> two_lists \<times> kern \<Rightarrow> two_lists \<times> kern" where
  "set_link high v s =
     (case s of (x, k) \<Rightarrow>
        (case if high then tp1 x else tp0 x of
           None \<Rightarrow> (if high then x\<lparr>head2 := v\<rparr> else x\<lparr>head1 := v\<rparr>, k)
         | Some i \<Rightarrow> (x, upd_page i (\<lambda>p. p\<lparr>pp_link := v\<rparr>) k)))"

definition sort_page :: "u32 \<Rightarrow> nat \<Rightarrow> two_lists \<times> kern \<Rightarrow> kerr + (two_lists \<times> kern)" where
  "sort_page pdx_limit pp s =
     (let pagetype = PDX (page2pa pp) \<ge> pdx_limit; (x, k) = set_link pagetype (Some pp) s
      in Inr (if pagetype then x\<lparr>tp1 := Some pp\<rparr> else x\<lparr>tp0 := Some pp\<rparr>, k))"

definition low_pages_first :: "u32 \<Rightarrow> kern \<Rightarrow> (kerr + kern) option" where
  "low_pages_first pdx_limit s =
     then_do (each_free (sort_page pdx_limit) (page_free_list s) (\<lparr>head1 = None, head2 = None, tp0 = None, tp1 = None\<rparr>, s)) (\<lambda>s.
       let s = set_link True None s; (x, k) = set_link False (head2 (fst s)) s
       in Some (Inr (k\<lparr>page_free_list := head1 x\<rparr>)))"

definition trash_page :: "u32 \<Rightarrow> nat \<Rightarrow> unit \<times> kern \<Rightarrow> kerr + (unit \<times> kern)" where
  "trash_page pdx_limit pp s =
     (case s of (u, k) \<Rightarrow>
        if PDX (page2pa pp) < pdx_limit then res_bind (fill_page pp 0x97 128 k) (\<lambda>k. Inr (u, k)) else Inr s)"

text \<open>The first three assertions say that \<open>pp\<close> points to an element of \<open>pages\<close>: \<open>each_free\<close> has checked it. The
  counters are \<open>nfree_basemem\<close> and \<open>nfree_extmem\<close>.\<close>

definition check_free_page :: "u32 \<Rightarrow> nat \<Rightarrow> (nat \<times> nat) \<times> kern \<Rightarrow> kerr + ((nat \<times> nat) \<times> kern)" where
  "check_free_page first_free_page pp s =
     (case s of ((base, ext), k) \<Rightarrow>
        res_bind (steps [
          ensure (\<lambda>k. page2pa pp \<noteq> 0),
          ensure (\<lambda>k. page2pa pp \<noteq> IOPHYSMEM),
          ensure (\<lambda>k. page2pa pp \<noteq> EXTPHYSMEM - PGSIZE),
          ensure (\<lambda>k. page2pa pp \<noteq> EXTPHYSMEM),
          ensure_that (\<lambda>k. if page2pa pp < EXTPHYSMEM then Inr True
            else res_bind (page2kva k pp) (\<lambda>kva. Inr (kva \<ge> first_free_page)))] k) (\<lambda>k.
        Inr (if page2pa pp < EXTPHYSMEM then (base + 1, ext) else (base, ext + 1), k)))"

definition check_page_free_list :: "u32 \<Rightarrow> bool \<Rightarrow> kern \<Rightarrow> (kerr + kern) option" where
  "check_page_free_list kend only_low_memory s =
     (let pdx_limit = (if only_low_memory then 1 else NPDENTRIES) in
      if page_free_list s = None then Some (Inl (Panic ''page_free_list is a null pointer!''))
      else
        then_do (if only_low_memory then low_pages_first pdx_limit s else Some (Inr s)) (\<lambda>s.
        then_do (each_free (trash_page pdx_limit) (page_free_list s) ((), s)) (\<lambda>(_, s).
        let (first_free_page, s) = boot_alloc kend 0 s in
        then_do (each_free (check_free_page first_free_page) (page_free_list s) ((0, 0), s)) (\<lambda>((base, ext), s).
        Some (steps [ensure (\<lambda>s. base > 0), ensure (\<lambda>s. ext > 0)] s)))))"

section \<open>check_page_alloc\<close>

definition count_page :: "nat \<Rightarrow> nat \<times> kern \<Rightarrow> kerr + (nat \<times> kern)" where
  "count_page pp s = (case s of (n, k) \<Rightarrow> Inr (n + 1, k))"

definition page_cleared :: "nat \<Rightarrow> kern \<Rightarrow> kerr + bool" where
  "page_cleared pp s =
     res_bind (page2kva s pp) (\<lambda>c. Inr (list_all (\<lambda>i. kmem s (c + of_nat i) = 0) [0..<unat PGSIZE]))"

definition test_alloc :: "kern \<Rightarrow> kerr + kern" where
  "test_alloc =
     allocate 0 (\<lambda>pp0. allocate 0 (\<lambda>pp1. allocate 0 (\<lambda>pp2. steps [
       ensure (\<lambda>s. pp1 \<noteq> pp0),
       ensure (\<lambda>s. pp2 \<noteq> pp1 \<and> pp2 \<noteq> pp0),
       ensure (\<lambda>s. page2pa pp0 < npages s * PGSIZE),
       ensure (\<lambda>s. page2pa pp1 < npages s * PGSIZE),
       ensure (\<lambda>s. page2pa pp2 < npages s * PGSIZE),
       (\<lambda>s. let fl = page_free_list s in steps [
         set_free_list None,
         no_page,
         page_free pp0, page_free pp1, page_free pp2,
         allocate 0 (\<lambda>pp0. allocate 0 (\<lambda>pp1. allocate 0 (\<lambda>pp2. steps [
           ensure (\<lambda>s. pp1 \<noteq> pp0),
           ensure (\<lambda>s. pp2 \<noteq> pp1 \<and> pp2 \<noteq> pp0),
           no_page,
           fill_page pp0 1 PGSIZE,
           page_free pp0,
           allocate ALLOC_ZERO (\<lambda>pp. steps [
             ensure (\<lambda>s. pp0 = pp),
             ensure_that (page_cleared pp),
             set_free_list fl,
             page_free pp0, page_free pp1, page_free pp2])])))] s)])))"

definition check_page_alloc :: "kern \<Rightarrow> (kerr + kern) option" where
  "check_page_alloc s =
     (if pages_kva s = 0 then Some (Inl (Panic ''pages is a null pointer!''))
      else
        then_do (each_free count_page (page_free_list s) (0, s)) (\<lambda>(nfree, s).
        then_do (Some (test_alloc s)) (\<lambda>s.
        then_do (each_free count_page (page_free_list s) (0, s)) (\<lambda>(n, s).
        Some (ensure (\<lambda>s. int nfree - int n = 0) s)))))"

section \<open>check_page\<close>

definition pgdir_entry :: "u32 \<Rightarrow> kern \<Rightarrow> u32" where
  "pgdir_entry i s = ld32 (kmem s) (kern_pgdir s + 4 * i)"

definition clear_entry :: "u32 \<Rightarrow> kern \<Rightarrow> kerr + kern" where
  "clear_entry i = modify (\<lambda>s. s\<lparr>kmem := st32 (kmem s) (kern_pgdir s + 4 * i) 0\<rparr>)"

definition clear_ref :: "nat \<Rightarrow> kern \<Rightarrow> kerr + kern" where
  "clear_ref pp = modify (upd_page pp (\<lambda>p. p\<lparr>pp_ref := 0\<rparr>))"

definition inserts :: "(int \<Rightarrow> bool) \<Rightarrow> nat \<Rightarrow> u32 \<Rightarrow> u32 \<Rightarrow> kern \<Rightarrow> kerr + kern" where
  "inserts P pp va perm s =
     res_bind (page_insert (kern_pgdir s) pp va perm s) (\<lambda>(r, s). if P r then Inr s else Inl failed)"

definition translates :: "u32 \<Rightarrow> u32 \<Rightarrow> kern \<Rightarrow> kerr + kern" where
  "translates va pa = ensure_that (\<lambda>s. res_bind (check_va2pa (kern_pgdir s) va s) (\<lambda>v. Inr (v = pa)))"

text \<open>An assertion about \<open>*pgdir_walk(kern_pgdir, va, 0)\<close>.\<close>

definition has_entry :: "(u32 \<Rightarrow> bool) \<Rightarrow> u32 \<Rightarrow> kern \<Rightarrow> kerr + kern" where
  "has_entry P va s =
     res_bind (pgdir_walk (kern_pgdir s) va False s) (\<lambda>(p, s).
       case p of None \<Rightarrow> Inl (Page_fault 0) | Some p \<Rightarrow> if P (ld32 (kmem s) p) then Inr s else Inl failed)"

definition refs :: "nat \<Rightarrow> u16 \<Rightarrow> kern \<Rightarrow> kerr + kern" where
  "refs pp n = ensure (\<lambda>s. pp_ref (pages s ! pp) = n)"

text \<open>\<open>pgdir_walk\<close> gives the slot of \<open>va\<close> in the table that the directory names.\<close>

definition walk_in_table :: "bool \<Rightarrow> u32 \<Rightarrow> kern \<Rightarrow> kerr + kern" where
  "walk_in_table create va s =
     res_bind (pgdir_walk (kern_pgdir s) va create s) (\<lambda>(ptep, s).
     res_bind (KADDR s (PTE_ADDR (pgdir_entry (PDX va) s))) (\<lambda>ptep1.
     ensure (\<lambda>s. ptep = Some (ptep1 + 4 * PTX va)) s))"

definition table_cleared :: "nat \<Rightarrow> kern \<Rightarrow> kerr + bool" where
  "table_cleared pp s =
     res_bind (page2kva s pp) (\<lambda>ptep.
       Inr (list_all (\<lambda>i. \<not> present (ld32 (kmem s) (ptep + 4 * of_nat i))) [0..<unat NPTENTRIES]))"

definition test_map :: "nat \<Rightarrow> nat \<Rightarrow> nat \<Rightarrow> kern \<Rightarrow> kerr + kern" where
  "test_map pp0 pp1 pp2 = steps [
     no_page,
     (\<lambda>s. res_bind (page_lookup (kern_pgdir s) 0 s) (\<lambda>(r, s). ensure (\<lambda>s. r = None) s)),
     inserts (\<lambda>r. r < 0) pp1 0 PTE_W,
     page_free pp0,
     inserts (\<lambda>r. r = 0) pp1 0 PTE_W,
     ensure (\<lambda>s. PTE_ADDR (pgdir_entry 0 s) = page2pa pp0),
     translates 0 (page2pa pp1),
     refs pp1 1,
     refs pp0 1,
     inserts (\<lambda>r. r = 0) pp2 PGSIZE PTE_W,
     translates PGSIZE (page2pa pp2),
     refs pp2 1,
     no_page,
     inserts (\<lambda>r. r = 0) pp2 PGSIZE PTE_W,
     translates PGSIZE (page2pa pp2),
     refs pp2 1,
     no_page,
     walk_in_table False PGSIZE,
     inserts (\<lambda>r. r = 0) pp2 PGSIZE (PTE_W OR PTE_U),
     translates PGSIZE (page2pa pp2),
     refs pp2 1,
     has_entry (\<lambda>e. e AND PTE_U \<noteq> 0) PGSIZE,
     ensure (\<lambda>s. pgdir_entry 0 s AND PTE_U \<noteq> 0),
     inserts (\<lambda>r. r = 0) pp2 PGSIZE PTE_W,
     has_entry (\<lambda>e. e AND PTE_W \<noteq> 0) PGSIZE,
     has_entry (\<lambda>e. e AND PTE_U = 0) PGSIZE,
     inserts (\<lambda>r. r < 0) pp0 PTSIZE PTE_W,
     inserts (\<lambda>r. r = 0) pp1 PGSIZE PTE_W,
     has_entry (\<lambda>e. e AND PTE_U = 0) PGSIZE,
     translates 0 (page2pa pp1),
     translates PGSIZE (page2pa pp1),
     refs pp1 2,
     refs pp2 0]"

definition test_unmap :: "nat \<Rightarrow> nat \<Rightarrow> nat \<Rightarrow> kern \<Rightarrow> kerr + kern" where
  "test_unmap pp0 pp1 pp2 = steps [
     allocate 0 (\<lambda>pp. ensure (\<lambda>s. pp = pp2)),
     (\<lambda>s. page_remove (kern_pgdir s) 0 s),
     translates 0 (NOT 0),
     translates PGSIZE (page2pa pp1),
     refs pp1 1,
     refs pp2 0,
     inserts (\<lambda>r. r = 0) pp1 PGSIZE 0,
     ensure (\<lambda>s. pp_ref (pages s ! pp1) \<noteq> 0),
     ensure (\<lambda>s. pp_link (pages s ! pp1) = None),
     (\<lambda>s. page_remove (kern_pgdir s) PGSIZE s),
     translates 0 (NOT 0),
     translates PGSIZE (NOT 0),
     refs pp1 0,
     refs pp2 0,
     allocate 0 (\<lambda>pp. ensure (\<lambda>s. pp = pp1)),
     no_page]"

definition test_tables :: "nat \<Rightarrow> kern \<Rightarrow> kerr + kern" where
  "test_tables pp0 = steps [
     ensure (\<lambda>s. PTE_ADDR (pgdir_entry 0 s) = page2pa pp0),
     clear_entry 0,
     refs pp0 1,
     clear_ref pp0,
     page_free pp0,
     walk_in_table True (PGSIZE * NPDENTRIES + PGSIZE),
     clear_entry (PDX (PGSIZE * NPDENTRIES + PGSIZE)),
     clear_ref pp0,
     fill_page pp0 0xFF PGSIZE,
     page_free pp0,
     (\<lambda>s. res_bind (pgdir_walk (kern_pgdir s) 0 True s) (\<lambda>(ptep, s). Inr s)),
     ensure_that (table_cleared pp0),
     clear_entry 0,
     clear_ref pp0]"

definition check_page :: "kern \<Rightarrow> kerr + kern" where
  "check_page =
     allocate 0 (\<lambda>pp0. allocate 0 (\<lambda>pp1. allocate 0 (\<lambda>pp2. steps [
       ensure (\<lambda>s. pp1 \<noteq> pp0),
       ensure (\<lambda>s. pp2 \<noteq> pp1 \<and> pp2 \<noteq> pp0),
       (\<lambda>s. let fl = page_free_list s in steps [
         set_free_list None,
         test_map pp0 pp1 pp2,
         test_unmap pp0 pp1 pp2,
         test_tables pp0,
         set_free_list fl,
         page_free pp0, page_free pp1, page_free pp2] s)])))"

section \<open>Taking the rest of the free list away\<close>

text \<open>
  The tests put the free list aside, work with three pages and give it back. Meanwhile the pages put aside keep
  their links. \<open>graft st h s\<close> is \<open>s\<close> with the links \<open>h\<close> in the pages \<open>st\<close>: an operation that
  does not touch these pages does the same on \<open>s\<close> and on \<open>graft st h s\<close>.
\<close>

definition graft :: "nat set \<Rightarrow> (nat \<Rightarrow> nat option) \<Rightarrow> kern \<Rightarrow> kern" where
  "graft st h s = s\<lparr>pages := map (\<lambda>i. if i \<in> st then (pages s ! i)\<lparr>pp_link := h i\<rparr> else pages s ! i) [0..<length (pages s)]\<rparr>"

lemma graft_simps [simp]:
  "npages (graft st h s) = npages s" "npages_basemem (graft st h s) = npages_basemem s"
  "kern_pgdir (graft st h s) = kern_pgdir s" "pages_kva (graft st h s) = pages_kva s"
  "page_free_list (graft st h s) = page_free_list s" "nextfree (graft st h s) = nextfree s"
  "kmem (graft st h s) = kmem s" "tlb (graft st h s) = tlb s" "length (pages (graft st h s)) = length (pages s)"
  by (simp_all add: graft_def)

lemma graft_nth [simp]: "i < length (pages s) \<Longrightarrow> i \<notin> st \<Longrightarrow> pages (graft st h s) ! i = pages s ! i"
  by (simp add: graft_def)

lemma graft_ref [simp]: "i < length (pages s) \<Longrightarrow> ref_of (graft st h s) i = ref_of s i"
  by (simp add: graft_def ref_of_def)

lemma graft_link: "i < length (pages s) \<Longrightarrow> link_of (graft st h s) i = (if i \<in> st then h i else link_of s i)"
  by (simp add: graft_def link_of_def)

lemma graft_upd [simp]:
  "graft st h (s\<lparr>kmem := m\<rparr>) = (graft st h s)\<lparr>kmem := m\<rparr>"
  "graft st h (s\<lparr>page_free_list := l\<rparr>) = (graft st h s)\<lparr>page_free_list := l\<rparr>"
  "graft st h (s\<lparr>tlb := t\<rparr>) = (graft st h s)\<lparr>tlb := t\<rparr>"
  by (simp_all add: graft_def)

lemma graft_upd_page [simp]:
  assumes "i \<notin> st"
  shows "graft st h (upd_page i f s) = upd_page i f (graft st h s)"
proof (cases "i < length (pages s)")
  case True
  have "pages (graft st h (upd_page i f s)) = pages (upd_page i f (graft st h s))"
    using assms True by (intro nth_equalityI) (auto simp: graft_def upd_page_def nth_list_update)
  thus ?thesis by (simp add: graft_def upd_page_def)
qed (simp add: graft_def upd_page_def list_update_beyond)

lemma KADDR_upd [simp]:
  "KADDR (upd_page i f s) = KADDR s" "KADDR (s\<lparr>page_free_list := l\<rparr>) = KADDR s" "KADDR (s\<lparr>kmem := m\<rparr>) = KADDR s"
  "page2kva (upd_page i f s) = page2kva s" "page2kva (s\<lparr>page_free_list := l\<rparr>) = page2kva s"
  "page2kva (s\<lparr>kmem := m\<rparr>) = page2kva s"
  by (simp_all add: KADDR_def page2kva_def fun_eq_iff)

lemma graft_KADDR [simp]: "KADDR (graft st h s) = KADDR s" "pa2page (graft st h s) = pa2page s" "page2kva (graft st h s) = page2kva s"
  by (simp_all add: KADDR_def pa2page_def page2kva_def fun_eq_iff)

text \<open>\<open>does st h f s t\<close>: the step takes \<open>s\<close> to \<open>t\<close>, with and without the pages put aside.\<close>

definition does :: "nat set \<Rightarrow> (nat \<Rightarrow> nat option) \<Rightarrow> (kern \<Rightarrow> kerr + kern) \<Rightarrow> kern \<Rightarrow> kern \<Rightarrow> bool" where
  "does st h f s t \<longleftrightarrow> f s = Inr t \<and> f (graft st h s) = Inr (graft st h t)"

lemma does_Nil [simp]: "does st h (steps []) s t \<longleftrightarrow> s = t"
  by (auto simp: does_def)

lemma does_Cons: "does st h f s t \<Longrightarrow> does st h (steps fs) t u \<Longrightarrow> does st h (steps (f # fs)) s u"
  by (simp add: does_def)

lemma does_ensure:
  "P s \<Longrightarrow> P (graft st h s) \<Longrightarrow> does st h (ensure P) s s"
  "Q s = Inr True \<Longrightarrow> Q (graft st h s) = Inr True \<Longrightarrow> does st h (ensure_that Q) s s"
  by (simp_all add: does_def ensure_def ensure_that_def)

lemma graft_page_alloc:
  "(\<And>pg. page_free_list s = Some pg \<Longrightarrow> pg \<notin> st) \<Longrightarrow> page_alloc f s = Inr (r, t) \<Longrightarrow>
     page_alloc f (graft st h s) = Inr (r, graft st h t)"
  by (auto simp: page_alloc_def Let_def res_simps split: option.splits if_splits)

lemma graft_page_free:
  "pp \<notin> st \<Longrightarrow> page_free pp s = Inr t \<Longrightarrow> page_free pp (graft st h s) = Inr (graft st h t)"
  by (auto simp: page_free_def Let_def split: if_splits)

lemma graft_page_decref:
  "pp \<notin> st \<Longrightarrow> page_decref pp s = Inr t \<Longrightarrow> page_decref pp (graft st h s) = Inr (graft st h t)"
  using graft_page_free [of pp st "upd_page pp (\<lambda>p. p\<lparr>pp_ref := pp_ref p - 1\<rparr>) s" t h]
  by (auto simp: page_decref_def Let_def split: if_splits)

lemma graft_pgdir_walk:
  assumes "c \<Longrightarrow> \<forall>pg. page_free_list s = Some pg \<longrightarrow> pg \<notin> st" and "pgdir_walk pd va c s = Inr (r, t)"
  shows "pgdir_walk pd va c (graft st h s) = Inr (r, graft st h t)"
proof (cases "present (ld32 (kmem s) (pd + 4 * PDX va)) \<or> \<not> c")
  case True
  thus ?thesis using assms(2) by (auto simp: pgdir_walk_def Let_def res_simps)
next
  case False
  then obtain p u where pu: "page_alloc ALLOC_ZERO s = Inr (p, u)" using assms(2) by (auto simp: pgdir_walk_def Let_def res_simps)
  hence g: "page_alloc ALLOC_ZERO (graft st h s) = Inr (p, graft st h u)" using assms(1) False by (intro graft_page_alloc) auto
  have "pg \<notin> st" if "p = Some pg" for pg
    using pu that assms(1) False by (auto simp: page_alloc_def Let_def res_simps split: option.splits if_splits)
  thus ?thesis using False pu g assms(2) by (auto simp: pgdir_walk_def Let_def res_simps split: option.splits)
qed

lemma graft_page_lookup:
  "page_lookup pd va s = Inr (r, t) \<Longrightarrow> page_lookup pd va (graft st h s) = Inr (r, graft st h t)"
  using graft_pgdir_walk [of False s st pd va _ _ h]
  by (fastforce simp: page_lookup_def res_simps split: option.splits)

lemma graft_page_remove:
  assumes "\<And>q p u. page_lookup pd va s = Inr (Some (q, p), u) \<Longrightarrow> q \<notin> st" and "page_remove pd va s = Inr t"
  shows "page_remove pd va (graft st h s) = Inr (graft st h t)"
proof -
  obtain r u where r: "page_lookup pd va s = Inr (r, u)" using assms(2) by (auto simp: page_remove_def res_simps)
  note g = graft_page_lookup [OF r, of st h]
  show ?thesis
  proof (cases r)
    case None
    thus ?thesis using r g assms(2) by (simp add: page_remove_def)
  next
    case (Some qp)
    obtain q p where qp: "qp = (q, p)" by (cases qp)
    obtain v where v: "page_decref q u = Inr v" using r Some qp assms(2) by (auto simp: page_remove_def res_simps)
    have "page_decref q (graft st h u) = Inr (graft st h v)"
      using assms(1) r Some qp v by (intro graft_page_decref) auto
    thus ?thesis using r g Some qp v assms(2) by (auto simp: page_remove_def tlb_invalidate_def)
  qed
qed

lemma graft_check_va2pa [simp]: "check_va2pa pd va (graft st h s) = check_va2pa pd va s"
  by (simp add: check_va2pa_def Let_def)

lemma graft_steal:
  assumes "frees s fl"
  defines "u \<equiv> graft (set fl) (\<lambda>_. None) (s\<lparr>page_free_list := None\<rparr>)"
  shows "s\<lparr>page_free_list := None\<rparr> = graft (set fl) (link_of s) u" and "frees u []"
proof -
  have "pages (s\<lparr>page_free_list := None\<rparr>) = pages (graft (set fl) (link_of s) u)"
    by (intro nth_equalityI) (auto simp: u_def graft_def link_of_def)
  thus "s\<lparr>page_free_list := None\<rparr> = graft (set fl) (link_of s) u" by (simp add: u_def graft_def)
  have "link_of u i = None" if "i < length (pages s)" for i
    using assms(1) that graft_link [of i "s\<lparr>page_free_list := None\<rparr>" "set fl" "\<lambda>_. None"]
    by (simp add: u_def frees_def link_of_def)
  thus "frees u []" using assms(1) by (simp add: frees_def u_def)
qed

lemma graft_restore:
  assumes "frees t []" and "linked h p fl" and "distinct fl" and "\<forall>i \<in> set fl. i < length (pages t) \<and> ref_of t i = 0"
  shows "frees ((graft (set fl) h t)\<lparr>page_free_list := p\<rparr>) fl"
proof -
  let ?g = "(graft (set fl) h t)\<lparr>page_free_list := p\<rparr>"
  have l: "link_of ?g i = (if i \<in> set fl then h i else link_of t i)" "ref_of ?g i = ref_of t i" if "i < length (pages t)" for i
    using graft_link [OF that] graft_ref [OF that] by (simp_all add: link_of_def ref_of_def)
  have "linked (link_of ?g) p fl = linked h p fl"
    using assms(4) l(1) by (intro linked_cong) auto
  thus ?thesis using assms l unfolding frees_def by auto
qed

end
