(* ===== verification/Jos_Outside.thy ===== *)
theory Jos_Outside
  imports Jos_Checks
begin

text \<open>
  What the page table operations leave alone in memory: \<open>outside X s t\<close> says that nothing was written outside of the pages
  \<open>X\<close>. An address space stays when nothing is written into its tables; a removal writes into one table, an insertion into the directory, a
  table and a free page.
\<close>

section \<open>Memory outside the tables, and a table taken away\<close>

lemma aspace_same:
  assumes as: "aspace s d" and "length (pages t) = length (pages s)"
    and pd: "\<And>i. i < 955 \<Longrightarrow> pde t d i = pde s d i"
    and en: "\<And>i j. i < 955 \<Longrightarrow> j < 1024 \<Longrightarrow> entry t d i j = entry s d i j"
    and "\<And>q. q < length (pages s) \<Longrightarrow> unat (ref_of s q) \<le> unat (ref_of t q)"
  shows "aspace t d"
proof (rule aspaceI)
  fix q assume "q < length (pages t)"
  hence q: "q < length (pages s)" using assms(2) by simp
  have "nmaps t d q = nmaps s d q" unfolding nmaps_def PDX_UTOP using en by (simp cong: conj_cong)
  moreover have "ntabs t d q = ntabs s d q" unfolding ntabs_def PDX_UTOP using pd by (simp cong: conj_cong)
  ultimately show "nmaps t d q + ntabs t d q + (if q = d then 1 else 0) \<le> unat (ref_of t q)"
    using aspaceD(6) [OF as q] assms(5) [OF q] by linarith
qed (use aspaceD [OF as] pd en assms(2) in auto)

text \<open>The pages that hold the directory and the user tables, and what is left alone outside a set of pages.\<close>

definition is_table :: "kern \<Rightarrow> nat \<Rightarrow> nat \<Rightarrow> bool" where
  "is_table s d x \<longleftrightarrow> x = d \<or> (\<exists>i < 955. present (pde s d i) \<and> pt_page (pde s d i) = x)"

definition outside :: "nat set \<Rightarrow> kern \<Rightarrow> kern \<Rightarrow> bool" where
  "outside X s t \<longleftrightarrow> (\<forall>p < 0x10000. p \<notin> X \<longrightarrow> (\<forall>j < 1024. ld32 (kmem t) (page_kva p + 4 * j) = ld32 (kmem s) (page_kva p + 4 * j)))"

lemma outsideI:
  assumes X: "\<forall>x \<in> X. x < 0x10000" and m: "\<And>a. (\<And>x. x \<in> X \<Longrightarrow> \<not> in_page x a) \<Longrightarrow> kmem t a = kmem s a"
  shows "outside X s t"
  unfolding outside_def
proof (intro allI impI)
  fix p :: nat and j :: u32 assume p: "p < 0x10000" "p \<notin> X" "j < 1024"
  have "kmem t (page_kva p + 4 * j + k) = kmem s (page_kva p + 4 * j + k)" if "k < 4" for k
  proof (rule m)
    fix x assume "x \<in> X"
    thus "\<not> in_page x (page_kva p + 4 * j + k)"
      using slot_bytes_in_page [OF p(1,3) that] in_page_disjoint p(1,2) X by blast
  qed
  from this [of 0] this [of 1] this [of 2] this [of 3]
  show "ld32 (kmem t) (page_kva p + 4 * j) = ld32 (kmem s) (page_kva p + 4 * j)" by (simp add: ld32_def)
qed

lemma outside_trans: "outside X s t \<Longrightarrow> outside Y t u \<Longrightarrow> X \<subseteq> Z \<Longrightarrow> Y \<subseteq> Z \<Longrightarrow> outside Z s u"
  unfolding outside_def by (metis subsetD)

lemma outside_mono: "outside X s t \<Longrightarrow> X \<subseteq> Z \<Longrightarrow> outside Z s t"
  unfolding outside_def by blast

lemma outside_same: "kmem t = kmem s \<Longrightarrow> outside X s t"
  by (simp add: outside_def)

lemma outside_st32: "x < 0x10000 \<Longrightarrow> i < 1024 \<Longrightarrow> kmem t = st32 (kmem s) (page_kva x + 4 * i) v \<Longrightarrow> x \<in> X \<Longrightarrow> outside X s t"
  using ld32_st32_slot by (auto simp: outside_def)

lemma unused_no_table: "aspace s d \<Longrightarrow> ref_of s x = 0 \<Longrightarrow> \<not> is_table s d x"
  using aspace_referenced(1,2) by (fastforce simp: is_table_def)

lemma mapped_no_table:
  assumes as: "aspace s d" and x: "ref_of s x = 1" and en: "i < 955" "j < 1024" "entry s d i j = Some e" "pt_page e = x"
  shows "\<not> is_table s d x"
proof
  assume "is_table s d x"
  hence "0 < ntabs s d x + (if x = d then 1 else 0)" using ntabs_pos by (fastforce simp: is_table_def)
  moreover have "x < length (pages s)" using aspaceD(5) [OF as en(1-3)] en(4) by simp
  moreover have "0 < nmaps s d x" using nmaps_pos [OF en(1-3)] en(4) by simp
  ultimately show False using aspaceD(6) [OF as, of x] x by simp
qed

lemma other_page:
  assumes as: "aspace s d" and len: "length (pages s) \<le> 0x10000" and X: "\<And>x. x \<in> X \<Longrightarrow> \<not> is_table s d x" and o: "outside X s t"
  shows "i < 1024 \<Longrightarrow> pde t d i = pde s d i" and "i < 955 \<Longrightarrow> j < 1024 \<Longrightarrow> entry t d i j = entry s d i j"
proof -
  have d: "d < 0x10000" "d \<notin> X" using aspaceD(1) [OF as] len X by (auto simp: is_table_def)
  show pd: "pde t d i = pde s d i" if "i < 1024" for i using o d that by (simp add: outside_def pde_def)
  assume ij: "i < 955" "j < 1024"
  have p: "pde t d i = pde s d i" using pd less_955_1024 [OF ij(1)] .
  show "entry t d i j = entry s d i j"
  proof (cases "present (pde s d i)")
    case True
    have "pt_page (pde s d i) < 0x10000" "pt_page (pde s d i) \<notin> X"
      using aspaceD(2) [OF as ij(1) True] len X ij(1) True by (auto simp: is_table_def)
    thus ?thesis using o ij(2) by (simp add: entry_def slot_def p outside_def)
  qed (simp add: entry_def p)
qed

lemma aspace_outside:
  assumes as: "aspace s d" and len: "length (pages s) \<le> 0x10000" "length (pages t) = length (pages s)"
    and X: "\<And>x. x \<in> X \<Longrightarrow> \<not> is_table s d x" and o: "outside X s t"
    and rf: "\<And>q. q < length (pages s) \<Longrightarrow> unat (ref_of s q) \<le> unat (ref_of t q)"
  shows "aspace t d"
  by (rule aspace_same [OF as len(2)])
     (use other_page [where X = X, OF as len(1)] X o less_955_1024 rf in auto)

lemma aspace_drop_table:
  assumes as: "aspace s d" and len: "length (pages s) \<le> 0x10000" and i0: "i0 < 955" "present (pde s d i0)"
    and x: "x = pt_page (pde s d i0)" "ref_of s x = 1"
    and m: "kmem t = st32 (kmem s) (page_kva d + 4 * i0) 0" and lt: "length (pages t) = length (pages s)"
    and rf: "\<And>q. q < length (pages s) \<Longrightarrow> q \<noteq> x \<Longrightarrow> unat (ref_of s q) \<le> unat (ref_of t q)"
  shows "i < 1024 \<Longrightarrow> pde t d i = (if i = i0 then 0 else pde s d i)"
    and "i < 955 \<Longrightarrow> j < 1024 \<Longrightarrow> entry t d i j = (if i = i0 then None else entry s d i j)"
    and "aspace t d"
proof -
  have i1: "i0 < 1024" using i0(1) by (rule less_955_1024)
  have d: "d < 0x10000" using aspaceD(1) [OF as] len by simp
  have xl: "x < length (pages s)" "x \<noteq> d" using aspaceD(2,3) [OF as i0] x(1) by simp_all
  show pd: "pde t d i = (if i = i0 then 0 else pde s d i)" if "i < 1024" for i
    using ld32_st32_slot [OF d d i1 that] by (simp add: pde_def m)
  show en: "entry t d i j = (if i = i0 then None else entry s d i j)" if ij: "i < 955" "j < 1024" for i j
  proof (cases "i = i0 \<or> \<not> present (pde s d i)")
    case True
    thus ?thesis using pd [OF less_955_1024 [OF ij(1)]] by (auto simp: entry_def present_def)
  next
    case False
    hence p: "pde t d i = pde s d i" using pd [OF less_955_1024 [OF ij(1)]] by simp
    have "pt_page (pde s d i) < 0x10000" "pt_page (pde s d i) \<noteq> d"
      using aspaceD(2,3) [OF as ij(1)] False len by auto
    hence "ld32 (kmem t) (slot s d i j) = ld32 (kmem s) (slot s d i j)"
      using ld32_st32_slot [OF d _ i1 ij(2)] by (simp add: slot_def m)
    thus ?thesis using False p by (simp add: entry_def slot_def)
  qed
  have nm: "nmaps t d q \<le> nmaps s d q" for q
    unfolding nmaps_def PDX_UTOP
  proof (rule card_mono)
    show "finite {(i, j). i < 955 \<and> j < 1024 \<and> (\<exists>e. entry s d i j = Some e \<and> pt_page e = q)}" by simp
  qed (use en in \<open>auto split: if_splits\<close>)
  have nt: "ntabs t d q \<le> ntabs s d q" for q
    unfolding ntabs_def PDX_UTOP by (rule card_mono) (use pd less_955_1024 in \<open>auto simp: present_def split: if_splits\<close>)
  have "ntabs s d x \<noteq> 0" using ntabs_pos [OF i0] x(1) by simp
  hence n0: "nmaps s d x = 0" using aspaceD(6) [OF as xl(1)] x(2) xl(2) by simp
  have "{i. i < 955 \<and> present (pde t d i) \<and> pt_page (pde t d i) = x} = {}"
    using pd less_955_1024 aspaceD(4) [OF as _ i0(1) _ i0(2)] x(1) by (auto simp: present_def)
  hence t0: "ntabs t d x = 0" by (simp add: ntabs_def)
  show "aspace t d"
  proof (rule aspaceI)
    fix q assume "q < length (pages t)"
    hence q: "q < length (pages s)" using lt by simp
    show "nmaps t d q + ntabs t d q + (if q = d then 1 else 0) \<le> unat (ref_of t q)"
    proof (cases "q = x")
      case True
      thus ?thesis using n0 t0 nm [of x] xl(2) by simp
    next
      case False
      thus ?thesis using nm [of q] nt [of q] aspaceD(6) [OF as q] rf [OF q] by simp
    qed
  next
    fix i assume "i < 955" "present (pde t d i)"
    thus "pt_page (pde t d i) < length (pages t) \<and> pt_page (pde t d i) \<noteq> d"
      using pd [of i] less_955_1024 aspaceD(2,3) [OF as] lt by (auto simp: present_def split: if_splits)
  next
    fix i k assume "i < 955" "k < 955" "present (pde t d i)" "present (pde t d k)" "pt_page (pde t d i) = pt_page (pde t d k)"
    thus "i = k" using pd [of i] pd [of k] less_955_1024 aspaceD(4) [OF as] by (auto simp: present_def split: if_splits)
  next
    fix i j e assume "i < 955" "j < 1024" "entry t d i j = Some e"
    thus "pt_page e < length (pages t)" using en aspaceD(5) [OF as] lt by (auto split: if_splits)
  qed (use aspaceD(1) [OF as] lt in simp)
qed

lemma page_decref_kmem: "page_decref pp s = Inr t \<Longrightarrow> kmem t = kmem s"
  by (auto simp: page_decref_def page_free_def Let_def split: if_splits)

text \<open>A removal writes into the table of the address, an insertion into the directory, that table and a free page.\<close>

lemma page_remove_outside:
  assumes fr: "frees s fl" and as: "aspace s d" and va: "va < UTOP" and en: "entry s d (PDX va) (PTX va) = Some e"
    and rem: "page_remove (page_kva d) va s = Inr t"
  shows "outside {pt_page (pde s d (PDX va))} s t"
proof -
  have i: "PDX va < 955" using va user_va_iff by simp
  have "present (pde s d (PDX va))" using en by (auto simp: entry_def split: if_splits)
  hence p: "pt_page (pde s d (PDX va)) < 0x10000" using aspaceD(2) [OF as i] frees_bounds(5) [OF fr] by simp
  have "kmem t = st32 (kmem s) (slot s d (PDX va) (PTX va)) 0"
    using rem page_lookup_mapped [OF fr as va en] by (auto simp: page_remove_def res_simps tlb_invalidate_def dest: page_decref_kmem)
  thus ?thesis using p by (intro outside_st32) (simp_all add: slot_def)
qed

lemma page_insert_outside:
  assumes fr: "frees s fl" and as: "aspace s d" and va: "va < UTOP" and ins: "page_insert (page_kva d) pp va perm s = Inr (r, t)"
    and X: "d \<in> X" "set fl \<subseteq> X" "present (pde s d (PDX va)) \<Longrightarrow> pt_page (pde s d (PDX va)) \<in> X"
  shows "outside X s t"
proof -
  have i: "PDX va < 955" using va user_va_iff by simp
  have d: "d < 0x10000" using aspaceD(1) [OF as] frees_bounds(5) [OF fr] by simp
  show ?thesis
  proof (cases "\<not> present (pde s d (PDX va)) \<and> fl = []")
    case True
    thus ?thesis using pgdir_walk_absent(2) [of s d va] fr ins by (simp add: page_insert_def outside_def)
  next
    case False
    obtain u where u: "pgdir_walk (page_kva d) va True s = Inr (Some (slot u d (PDX va) (PTX va)), u)" "outside X s u"
      "present (pde u d (PDX va))" "pt_page (pde u d (PDX va)) \<in> X" "aspace u d" "\<exists>fl. frees u fl"
    proof (cases "present (pde s d (PDX va))")
      case True
      thus thesis using that [of s] pgdir_walk_present [OF fr as va True] X(3) as fr by (auto simp: outside_def)
    next
      case np: False
      then obtain x fl' where fl: "fl = x # fl'" using False by (cases fl) auto
      have fr': "frees s (x # fl')" using fr fl by simp
      note te = with_table_entries [OF fr' as i np]
      have x: "x < 0x10000" "x \<in> X" using frees_bounds(4) [OF fr', of x] X(2) fl by auto
      have pd: "pde (with_table s d (PDX va) x) d (PDX va) = page2pa x OR 7" using te(1) [of "PDX va"] by simp
      have pg: "pt_page (page2pa x OR 7) = x" using pt_page_make [of x 7] x by simp
      have "outside X s (with_table s d (PDX va) x)"
        using x d X(1) unfolding outside_def
        by (auto simp: with_table_def Let_def ld32_st32_slot ld32_zero_page)
      thus thesis
        using that [of "with_table s d (PDX va) x"] pgdir_walk_create [OF fr' np] with_table_frees [OF fr'] te(4) pd pg present_or_7 x(2)
        by (auto simp: slot_def)
    qed
    let ?T = "pt_page (pde u d (PDX va))" and ?sl = "slot u d (PDX va) (PTX va)"
    obtain fu where fu: "frees u fu" using u(6) by blast
    have T: "?T < 0x10000" using aspaceD(2) [OF u(5) i u(3)] frees_bounds(5) [OF fu] by simp
    have st: "outside X v w" if "kmem w = st32 (kmem v) ?sl c" for v w c
      using outside_st32 [OF T _ _ u(4), of "PTX va" w v c] that by (simp add: slot_def)
    show ?thesis
    proof (cases "present (ld32 (kmem u) ?sl)")
      case False
      hence "kmem t = st32 (kmem u) ?sl (page2pa pp OR perm OR PTE_P)"
        using ins u(1) by (auto simp: page_insert_def Let_def split: if_splits)
      thus ?thesis using outside_trans [OF u(2) st] by blast
    next
      case True
      hence en: "entry u d (PDX va) (PTX va) = Some (ld32 (kmem u) ?sl)" using u(3) by (simp add: entry_def)
      show ?thesis
      proof (cases "page2pa pp = PTE_ADDR (ld32 (kmem u) ?sl)")
        case same: True
        hence "kmem t = st32 (kmem u) ?sl (page2pa pp OR perm OR PTE_P)"
          using ins u(1) True by (auto simp: page_insert_def Let_def)
        thus ?thesis using outside_trans [OF u(2) st] by blast
      next
        case other: False
        obtain w where w: "page_remove (page_kva d) va u = Inr w" "kmem t = st32 (kmem w) ?sl (page2pa pp OR perm OR PTE_P)"
          using ins u(1) True other by (auto simp: page_insert_def Let_def res_simps split: if_splits)
        have "outside X u w" by (rule outside_trans [OF page_remove_outside [OF fu u(5) va en w(1)] outside_same [OF refl], of _ X]) (use u(4) in auto)
        thus ?thesis using outside_trans [OF u(2) outside_trans [OF _ st [OF w(2)]]] by blast
      qed
    qed
  qed
qed

section \<open>Bytes and words\<close>

lemma byte_of_word: "m a = ucast (ld32 m a)" "m (a + 1) = ucast (drop_bit 8 (ld32 m a))"
  "m (a + 2) = ucast (drop_bit 16 (ld32 m a))" "m (a + 3) = ucast (drop_bit 24 (ld32 m a))"
proof -
  note e = fun_cong [OF st32_ld32 [of m 0 a], unfolded st32_def]
  show "m a = ucast (ld32 m a)" "m (a + 1) = ucast (drop_bit 8 (ld32 m a))"
    "m (a + 2) = ucast (drop_bit 16 (ld32 m a))" "m (a + 3) = ucast (drop_bit 24 (ld32 m a))"
    using e [of 0] e [of 1] e [of 2] e [of 3] by simp_all
qed

lemma bytes_of_word: "ld32 m a = ld32 m' a \<Longrightarrow> k < 4 \<Longrightarrow> m (a + k) = m' (a + k)"
proof -
  assume e: "ld32 m a = ld32 m' a" and k: "k < 4"
  have "k = 0 \<or> k = 1 \<or> k = 2 \<or> k = 3"
  proof -
    have "unat k < 4" using k by (simp add: word_less_nat_alt)
    hence "unat k = 0 \<or> unat k = 1 \<or> unat k = 2 \<or> unat k = 3" by arith
    thus ?thesis by (simp add: word_unat_eq_iff)
  qed
  thus ?thesis using e byte_of_word [of m a] byte_of_word [of m' a] by auto
qed

text \<open>Outside of the pages of a set every byte is the same.\<close>

lemma outside_byte:
  assumes o: "outside X s t" and p: "p < 0x10000" "p \<notin> X" and a: "in_page p a"
  shows "kmem t a = kmem s a"
proof -
  define off where "off = a - page_kva p"
  have off: "unat off < 4096" using a by (simp add: off_def in_page_def)
  define j k where "j = off div 4" and "k = off mod 4"
  have jk: "j < 1024" "k < 4" using off by (simp_all add: j_def k_def word_less_nat_alt unat_div unat_mod)
  have "off = 4 * j + k" unfolding j_def k_def by (rule mult_div_mod_eq [symmetric])
  hence e: "a = page_kva p + 4 * j + k" by (simp add: off_def algebra_simps)
  have "ld32 (kmem t) (page_kva p + 4 * j) = ld32 (kmem s) (page_kva p + 4 * j)" using o p jk(1) by (simp add: outside_def)
  thus ?thesis unfolding e by (rule bytes_of_word [OF _ jk(2)])
qed

end
