(* ===== verification/Jos_CheckPage.thy ===== *)
theory Jos_CheckPage
  imports Jos_Outside
begin

text \<open>
  The test \<open>check_page\<close> of \<open>kern/pmap.c\<close> passes on every kernel whose free list and address space are sound, has two empty
  directory entries and three free pages; it leaves the three pages in front of the free list in reverse order.
\<close>

section \<open>One insertion in detail\<close>

lemma graft_page_insert:
  assumes walk: "pgdir_walk pd va True s = Inr (w, t)" and "\<And>pg. page_free_list s = Some pg \<Longrightarrow> pg \<notin> st"
    and rem: "\<And>q p p' u. w = Some p \<Longrightarrow> present (ld32 (kmem t) p) \<Longrightarrow> page_lookup pd va t = Inr (Some (q, p'), u) \<Longrightarrow> q \<notin> st"
    and "pp \<notin> st"
    and ins: "page_insert pd pp va perm s = Inr (r, s')"
  shows "page_insert pd pp va perm (graft st h s) = Inr (r, graft st h s')"
proof (cases w)
  case None
  thus ?thesis using graft_pgdir_walk [OF _ walk, of st h] assms(2) ins walk by (simp add: page_insert_def)
next
  case (Some p)
  have g: "pgdir_walk pd va True (graft st h s) = Inr (Some p, graft st h t)"
    using graft_pgdir_walk [OF _ walk, of st h] assms(2) Some by simp
  have removed: "page_remove pd va (graft st h t) = Inr (graft st h u)"
    if "page_remove pd va t = Inr u" "present (ld32 (kmem t) p)" for u
    using graft_page_remove [OF rem [OF Some that(2)] that(1)] .
  show ?thesis using ins walk Some g removed assms(4)
    by (auto simp: page_insert_def Let_def res_simps split: if_splits)
qed

text \<open>The pages that an insertion frees: the page that was mapped, when this was its last use.\<close>

definition displaced :: "kern \<Rightarrow> nat \<Rightarrow> u32 \<Rightarrow> nat \<Rightarrow> nat list" where
  "displaced s d va pp =
     (case mapping s d va of None \<Rightarrow> []
      | Some e \<Rightarrow> if pt_page e \<noteq> pp \<and> ref_of s (pt_page e) = 1 then [pt_page e] else [])"

lemma insert_present:
  assumes fr: "frees s fl" and as: "aspace s d" and va: "va < UTOP" and pr: "present (pde s d (PDX va))"
    and w: "pgdir_walk (page_kva d) va True s0 = Inr (Some (slot s d (PDX va) (PTX va)), s)"
    and pp: "pp < length (pages s)" "pp \<notin> set fl" "ref_of s pp \<noteq> 0xFFFF" and perm: "perm < 4096"
  obtains s' where "page_insert (page_kva d) pp va perm s0 = Inr (0, s')" "frees s' (displaced s d va pp @ fl)"
    "aspace s' d" "length (pages s') = length (pages s)" "inserted s s' d pp va perm fl" "kern_pgdir s' = kern_pgdir s"
    "\<And>i. i < 1024 \<Longrightarrow> pde s' d i = pde s d i" "npages s' = npages s"
proof -
  have i: "PDX va < 955" using va user_va_iff by simp
  have len: "length (pages s) \<le> 0x10000" using frees_bounds(2) [OF fr] .
  have pp16: "pp < 0x10000" using frees_bounds(5) [OF fr pp(1)] .
  have np: "npages t = npages s" if "frees t fl'" "length (pages t) = length (pages s)" for t fl'
    using frees_bounds(1) [OF that(1)] frees_bounds(1) [OF fr] that(2) by (simp add: word_unat_eq_iff)
  show thesis
  proof (cases "entry s d (PDX va) (PTX va)")
    case None
    note ma = mapped_at [OF fr as va pr None pp perm]
    have "pde (mapped_at s d pp va perm) d i = pde s d i" if "i < 1024" for i
      using store_entry(1) [OF as len \<open>PDX va < 955\<close> _ pr, of "PTX va" "mapped_at s d pp va perm"] that
      by (simp add: mapped_at_def)
    thus thesis
      using that [OF page_insert_fresh [OF w pr None pp(1)] _ ma(2,3,4)] ma(1) np [OF ma(1,3)] None
      by (simp add: displaced_def mapping_def mapped_at_def)
  next
    case (Some e)
    show thesis
    proof (cases "pp = pt_page e")
      case True
      note ra = remapped_at [OF fr as va Some perm True]
      have "pde (remapped_at s d pp va perm) d i = pde s d i" if "i < 1024" for i
        using store_entry(1) [OF as len \<open>PDX va < 955\<close> _ pr, of "PTX va" "remapped_at s d pp va perm"] that
        by (simp add: remapped_at_def)
      thus thesis
        using that [OF page_insert_same [OF w Some True pp16] _ ra(2,3,4)] ra(1) np [OF ra(1,3)] Some True
        by (simp add: displaced_def mapping_def remapped_at_def)
    next
      case False
      show thesis
      proof (rule page_remove_mapped [OF fr as va Some])
        fix u assume u: "page_remove (page_kva d) va s = Inr u" "aspace u d"
          "frees u (if ref_of s (pt_page e) = 1 then pt_page e # fl else fl)"
          "\<And>i j. i < 955 \<Longrightarrow> j < 1024 \<Longrightarrow>
             entry u d i j = (if i = PDX va \<and> j = PTX va then None else entry s d i j)"
          "\<And>q. ref_of u q = (if q = pt_page e then ref_of s q - 1 else ref_of s q)"
          "present (pde u d (PDX va))" "slot u d (PDX va) (PTX va) = slot s d (PDX va) (PTX va)"
          "length (pages u) = length (pages s)" "kern_pgdir u = kern_pgdir s"
          "\<And>i. i < 1024 \<Longrightarrow> pde u d i = pde s d i"
        have fu: "frees u (displaced s d va pp @ fl)" using u(3) Some False by (simp add: displaced_def mapping_def split: if_splits)
        have ppu: "pp < length (pages u)" "ref_of u pp \<noteq> 0xFFFF" "pp \<notin> set (displaced s d va pp @ fl)"
          using pp u(5,8) False Some by (auto simp: displaced_def mapping_def)
        have nu: "entry u d (PDX va) (PTX va) = None" using u(4) i by simp
        note ma = mapped_at [OF fu u(2) va u(6) nu ppu(1,3,2) perm]
        have "inserted s (mapped_at u d pp va perm) d pp va perm fl"
          by (rule inserted_after_remove [OF ma(4) i _ Some _ u(4,5) _ False])
             (use aspace_referenced(3) [OF as i _ Some] ref_mapped_at [OF ppu(1,2)] False Some in \<open>auto simp: displaced_def mapping_def\<close>)
        moreover have "pde (mapped_at u d pp va perm) d i = pde s d i" if "i < 1024" for i
          using store_entry(1) [OF u(2) _ \<open>PDX va < 955\<close> _ u(6), of "PTX va" "mapped_at u d pp va perm"] that u(8,10) len
          by (simp add: mapped_at_def)
        moreover have "kern_pgdir (mapped_at u d pp va perm) = kern_pgdir s" using u(9) by (simp add: mapped_at_def)
        ultimately show thesis
          using that [OF page_insert_replace [OF w Some False pp16 u(1) ppu(1) u(7)] ma(1,2)] ma(3) u(8) np [OF ma(1)] by simp
      qed
    qed
  qed
qed

section \<open>The state between two steps\<close>

definition ready :: "nat set \<Rightarrow> nat \<Rightarrow> kern \<Rightarrow> nat list \<Rightarrow> bool" where
  "ready st d s fl \<longleftrightarrow> frees s fl \<and> aspace s d \<and> kern_pgdir s = page_kva d \<and>
     (\<forall>i \<in> st. i < length (pages s) \<and> ref_of s i = 0) \<and> st \<inter> set fl = {}"

lemma readyD:
  assumes "ready st d s fl"
  shows "frees s fl" and "aspace s d" and "kern_pgdir s = page_kva d"
    and "i \<in> st \<Longrightarrow> i < length (pages s) \<and> ref_of s i = 0" and "i \<in> st \<Longrightarrow> i \<notin> set fl"
    and "page_free_list s = Some x \<Longrightarrow> x \<notin> st"
proof -
  show "frees s fl" "aspace s d" "kern_pgdir s = page_kva d" using assms by (simp_all add: ready_def)
  show "i \<in> st \<Longrightarrow> i < length (pages s) \<and> ref_of s i = 0" "i \<in> st \<Longrightarrow> i \<notin> set fl"
    using assms by (auto simp: ready_def)
  have "page_free_list s = (case fl of [] \<Rightarrow> None | x # _ \<Rightarrow> Some x)"
    using assms by (auto simp: ready_def frees_def split: list.splits)
  thus "page_free_list s = Some x \<Longrightarrow> x \<notin> st" using assms by (auto simp: ready_def split: list.splits)
qed

lemma not_present_entry: "\<not> present (pde s d (PDX va)) \<Longrightarrow> mapping s d va = None"
  by (simp add: mapping_def entry_def)

text \<open>The table of \<open>va\<close> exists after the walk; a new one has taken the first free page.\<close>

lemma walk_to_table:
  assumes fr: "frees s fl" and as: "aspace s d" and va: "va < UTOP" and mem: "fl \<noteq> [] \<or> present (pde s d (PDX va))"
  obtains t where "pgdir_walk (page_kva d) va True s = Inr (Some (slot t d (PDX va) (PTX va)), t)"
    "frees t (if present (pde s d (PDX va)) then fl else tl fl)" "aspace t d" "present (pde t d (PDX va))" "kern_pgdir t = kern_pgdir s"
    "length (pages t) = length (pages s)" "npages t = npages s"
    "\<And>i j. i < 955 \<Longrightarrow> j < 1024 \<Longrightarrow> entry t d i j = entry s d i j"
    "\<And>i. i < 1024 \<Longrightarrow> pde t d i = (if i = PDX va \<and> \<not> present (pde s d i) then page2pa (hd fl) OR 7 else pde s d i)"
    "\<And>q. ref_of t q = (if \<not> present (pde s d (PDX va)) \<and> q = hd fl then 1 else ref_of s q)"
proof (cases "present (pde s d (PDX va))")
  case True
  show thesis
    by (rule that [of s]) (use pgdir_walk_present [OF fr as va True] fr as True in auto)
next
  case False
  have i: "PDX va < 955" using va user_va_iff by simp
  obtain x fl' where fl: "fl = x # fl'" using mem False by (cases fl) auto
  have fr': "frees s (x # fl')" using fr fl by simp
  note te = with_table_entries [OF fr' as i False]
  have x: "x < length (pages s)" "x < 0x10000" using frees_bounds(3,4) [OF fr', of x] by simp_all
  have pd: "pde (with_table s d (PDX va) x) d (PDX va) = page2pa x OR 7" using te(1) [of "PDX va"] by simp
  hence "slot (with_table s d (PDX va) x) d (PDX va) (PTX va) = page_kva x + 4 * PTX va"
    using pt_page_make [of x 7] x by (simp add: slot_def)
  thus thesis
    using that [of "with_table s d (PDX va) x"] pgdir_walk_create [OF fr' False] with_table_frees [OF fr'] te(1,2,4) pd
      present_or_7 fl x(1) False by simp
qed

lemma does_insert:
  assumes rd: "ready st d s fl" and va: "va < UTOP"
    and pp: "pp < length (pages s)" "pp \<notin> set fl" "pp \<notin> st" "ref_of s pp \<noteq> 0xFFFF" and perm: "perm < 4096"
    and mem: "fl \<noteq> [] \<or> present (pde s d (PDX va))"
  obtains s' where "does st h (inserts (\<lambda>r. r = 0) pp va perm) s s'"
    "ready st d s' (displaced s d va pp @ (if present (pde s d (PDX va)) then fl else tl fl))"
    "inserted s s' d pp va perm fl" "length (pages s') = length (pages s)" "npages s' = npages s"
    "\<And>i. i < 1024 \<Longrightarrow> pde s' d i = (if i = PDX va \<and> \<not> present (pde s d i) then page2pa (hd fl) OR 7 else pde s d i)"
    "\<not> present (pde s d (PDX va)) \<Longrightarrow> ref_of s' (hd fl) = 1"
proof -
  note r = readyD [OF rd]
  have i: "PDX va < 955" using va user_va_iff by simp
  define fl0 where "fl0 = (if present (pde s d (PDX va)) then fl else tl fl)"
  obtain t where t: "pgdir_walk (page_kva d) va True s = Inr (Some (slot t d (PDX va) (PTX va)), t)"
    "frees t (if present (pde s d (PDX va)) then fl else tl fl)" "aspace t d" "present (pde t d (PDX va))" "kern_pgdir t = kern_pgdir s"
    "length (pages t) = length (pages s)" "npages t = npages s"
    "\<And>i j. i < 955 \<Longrightarrow> j < 1024 \<Longrightarrow> entry t d i j = entry s d i j"
    "\<And>i. i < 1024 \<Longrightarrow> pde t d i = (if i = PDX va \<and> \<not> present (pde s d i) then page2pa (hd fl) OR 7 else pde s d i)"
    "\<And>q. ref_of t q = (if \<not> present (pde s d (PDX va)) \<and> q = hd fl then 1 else ref_of s q)"
    by (rule walk_to_table [OF r(1,2) va mem], rule that)
  note t = t [folded fl0_def]
  have sub: "set fl0 \<subseteq> set fl" by (cases fl) (auto simp: fl0_def)
  have hd: "hd fl \<in> set fl" if "\<not> present (pde s d (PDX va))" using mem that by (cases fl) auto
  have pt: "pp < length (pages t)" "pp \<notin> set fl0" "ref_of t pp \<noteq> 0xFFFF"
    using pp sub t(6,10) hd by auto
  have mt: "mapping t d va = mapping s d va" using t(8) i by (simp add: mapping_def)
  have dt: "displaced t d va pp = displaced s d va pp"
    using mt t(10) not_present_entry [of s d va] by (auto simp: displaced_def split: option.splits)
  obtain s' where s': "page_insert (page_kva d) pp va perm s = Inr (0, s')" "frees s' (displaced s d va pp @ fl0)"
    "aspace s' d" "length (pages s') = length (pages s)" "inserted t s' d pp va perm fl0" "kern_pgdir s' = page_kva d"
    "\<And>i. i < 1024 \<Longrightarrow> pde s' d i = pde t d i" "npages s' = npages s"
    by (rule insert_present [OF t(2,3) va t(4,1) pt perm]) (use t(5,6,7) r(3) dt in simp)
  have ins: "inserted s s' d pp va perm fl"
    by (rule inserted_from [OF s'(5) i t(8) _ sub]) (use t(10) hd in auto)
  have st0: "ref_of s' q = 0" if q: "q \<in> st" for q
  proof -
    have "unat (ref_of s' q) + uses (entry s d (PDX va) (PTX va)) q = unat (ref_of s q) + (if q = pp then 1 else 0)"
      using ins r(5) [OF q] by (auto simp: inserted_def)
    moreover have "q \<noteq> pp" using pp(3) q by blast
    ultimately have "unat (ref_of s' q) = 0" using r(4) [OF q] by simp
    thus ?thesis by (simp add: word_unat_eq_iff)
  qed
  have "set (displaced s d va pp) \<inter> st = {}"
    using r(4) by (auto simp: displaced_def split: option.splits if_splits)
  hence "ready st d s' (displaced s d va pp @ fl0)"
    using s'(2,3,4,6) st0 r(4,5) sub unfolding ready_def by auto
  moreover have "does st h (inserts (\<lambda>r. r = 0) pp va perm) s s'"
  proof -
    have "q \<notin> st" if pr: "present (ld32 (kmem t) (slot t d (PDX va) (PTX va)))"
      and lk: "page_lookup (page_kva d) va t = Inr (Some (q, p'), u)" for q p' u
    proof -
      obtain e where e: "entry t d (PDX va) (PTX va) = Some e" using pr t(4) by (simp add: entry_def)
      hence "q = pt_page e" using lk page_lookup_mapped [OF t(2,3) va e] by simp
      moreover have "0 < unat (ref_of t (pt_page e))" using aspace_referenced(3) [OF t(3) i _ e] by simp
      ultimately show ?thesis using t(10) [of q] r(4,5) [of q] hd by (auto split: if_splits)
    qed
    hence "page_insert (page_kva d) pp va perm (graft st h s) = Inr (0, graft st h s')"
      by (intro graft_page_insert [OF t(1) r(6) _ pp(3) s'(1)]) auto
    thus ?thesis using s'(1) r(3) by (simp add: does_def inserts_def)
  qed
  moreover have "ref_of s' (hd fl) = 1" if np: "\<not> present (pde s d (PDX va))"
  proof -
    have "hd fl \<notin> set fl0" using r(1) np mem by (cases fl) (auto simp: fl0_def frees_def)
    hence "unat (ref_of s' (hd fl)) + uses (entry t d (PDX va) (PTX va)) (hd fl) = unat (ref_of t (hd fl)) + (if hd fl = pp then 1 else 0)"
      using s'(5) by (auto simp: inserted_def)
    moreover have "entry t d (PDX va) (PTX va) = None" using mt np by (simp add: mapping_def entry_def)
    ultimately have "unat (ref_of s' (hd fl)) = 1" using t(10) np hd pp(2) by (auto simp: uses_def)
    thus ?thesis by (simp add: word_unat_eq_iff)
  qed
  moreover have "pde s' d i = (if i = PDX va \<and> \<not> present (pde s d i) then page2pa (hd fl) OR 7 else pde s d i)"
    if "i < 1024" for i using s'(7) [OF that] t(9) [OF that] by simp
  ultimately show thesis using that ins s'(4,8) by (simp add: fl0_def)
qed

section \<open>What the page operations leave alone\<close>

definition globals_of :: "kern \<Rightarrow> u32 \<times> u32 \<times> u32 \<times> u32 \<times> u32 \<times> nat" where
  "globals_of s = (npages s, npages_basemem s, kern_pgdir s, pages_kva s, nextfree s, length (pages s))"

lemma globals_upd [simp]:
  "globals_of (upd_page i f s) = globals_of s" "globals_of (s\<lparr>page_free_list := l\<rparr>) = globals_of s"
  "globals_of (s\<lparr>kmem := m\<rparr>) = globals_of s" "globals_of (s\<lparr>tlb := t\<rparr>) = globals_of s"
  "globals_of (graft st h s) = globals_of s" "globals_of (tlb_invalidate pd va s) = globals_of s"
  by (simp_all add: globals_of_def tlb_invalidate_def)

lemma page_alloc_globals: "page_alloc f s = Inr (r, t) \<Longrightarrow> globals_of t = globals_of s"
  by (auto simp: page_alloc_def Let_def res_simps split: option.splits if_splits)

lemma page_free_globals: "page_free pp s = Inr t \<Longrightarrow> globals_of t = globals_of s"
  by (auto simp: page_free_def Let_def split: if_splits)

lemma page_decref_globals: "page_decref pp s = Inr t \<Longrightarrow> globals_of t = globals_of s"
  by (auto simp: page_decref_def Let_def dest: page_free_globals split: if_splits)

lemma pgdir_walk_globals: "pgdir_walk pd va c s = Inr (r, t) \<Longrightarrow> globals_of t = globals_of s"
  by (auto simp: pgdir_walk_def Let_def res_simps dest!: page_alloc_globals split: option.splits if_splits)

lemma page_lookup_globals: "page_lookup pd va s = Inr (r, t) \<Longrightarrow> globals_of t = globals_of s"
  by (auto simp: page_lookup_def res_simps dest: pgdir_walk_globals split: option.splits)

lemma page_remove_globals: "page_remove pd va s = Inr t \<Longrightarrow> globals_of t = globals_of s"
  by (auto simp: page_remove_def res_simps dest!: page_lookup_globals page_decref_globals split: option.splits)

lemma page_insert_globals:
  assumes "page_insert pd pp va perm s = Inr (r, t)"
  shows "globals_of t = globals_of s"
proof -
  obtain w u where w: "pgdir_walk pd va True s = Inr (w, u)" using assms by (auto simp: page_insert_def res_simps)
  have "globals_of t = globals_of u"
    using assms w page_remove_globals [of pd va u]
    by (auto simp: page_insert_def Let_def res_simps split: option.splits if_splits)
  thus ?thesis using pgdir_walk_globals [OF w] by simp
qed

lemma globals_ofD:
  assumes "globals_of t = globals_of s"
  shows "npages t = npages s" and "npages_basemem t = npages_basemem s" and "kern_pgdir t = kern_pgdir s"
    and "pages_kva t = pages_kva s" and "nextfree t = nextfree s" and "length (pages t) = length (pages s)"
  using assms by (simp_all add: globals_of_def)

lemma aspace_refs:
  assumes "aspace s d" and m: "kmem t = kmem s" and "length (pages t) = length (pages s)"
    and "\<And>q. q < length (pages s) \<Longrightarrow> unat (ref_of s q) \<le> unat (ref_of t q)"
  shows "aspace t d"
proof (rule aspaceI)
  fix q assume "q < length (pages t)"
  hence q: "q < length (pages s)" using assms(3) by simp
  show "nmaps t d q + ntabs t d q + (if q = d then 1 else 0) \<le> unat (ref_of t q)"
    unfolding kmem_cong [OF m] using aspaceD(6) [OF assms(1) q] assms(4) [OF q] by linarith
qed (use aspaceD [OF assms(1)] assms(3) in \<open>auto simp: kmem_cong [OF m]\<close>)


section \<open>The scene of check_page\<close>

text \<open>
  \<open>check_page\<close> works on three pages and on the first two user pages of an otherwise fixed kernel. The cast
  holds what stays: the pages put aside with their links, the page of the directory, the three pages, and the kernel at
  the start.
\<close>

record cast =
  aside :: "nat set"
  links :: "nat \<Rightarrow> nat option"
  dir :: nat
  p0 :: nat
  p1 :: nat
  p2 :: nat
  orig :: kern

definition three :: "cast \<Rightarrow> nat set" where
  "three c = {p0 c, p1 c, p2 c}"

definition stage :: "cast \<Rightarrow> bool" where
  "stage c \<longleftrightarrow> distinct [p0 c, p1 c, p2 c] \<and> three c \<inter> aside c = {} \<and>
     (\<forall>q \<in> three c. q < length (pages (orig c)) \<and> q < 0x10000) \<and> dir c \<notin> three c"

definition scenery :: "cast \<Rightarrow> nat set" where
  "scenery c = insert (dir c) (three c)"

text \<open>What is mapped at an address: a page and its permissions.\<close>

fun pte_of :: "(nat \<times> u32) option \<Rightarrow> u32 option" where
  "pte_of None = None"
| "pte_of (Some (pp, perm)) = Some (page2pa pp OR perm OR PTE_P)"

definition shown :: "cast \<Rightarrow> (nat \<times> u32) option \<Rightarrow> bool" where
  "shown c m \<longleftrightarrow> (\<forall>pp perm. m = Some (pp, perm) \<longrightarrow> pp \<in> {p1 c, p2 c} \<and> perm < 4096)"

text \<open>
  The free pages \<open>fl\<close>, whether the first page table exists (it is in \<open>p0\<close> then), what is mapped at 0 and at
  \<open>PGSIZE\<close>, and the reference counts of \<open>p1\<close> and \<open>p2\<close>.
\<close>

definition scene :: "cast \<Rightarrow> kern \<Rightarrow> nat list \<Rightarrow> bool \<Rightarrow> (nat \<times> u32) option \<Rightarrow> (nat \<times> u32) option \<Rightarrow> u16 \<Rightarrow> u16 \<Rightarrow> bool" where
  "scene c s fl tab a b r1 r2 \<longleftrightarrow>
     ready (aside c) (dir c) s fl \<and> set fl \<subseteq> three c \<and> globals_of s = globals_of (orig c) \<and>
     (if tab then pde s (dir c) 0 = page2pa (p0 c) OR 7 else pde s (dir c) 0 = 0) \<and>
     \<not> present (pde s (dir c) 1) \<and> mapping s (dir c) 0 = pte_of a \<and> mapping s (dir c) PGSIZE = pte_of b \<and>
     shown c a \<and> shown c b \<and> ref_of s (p0 c) = (if tab then 1 else 0) \<and> ref_of s (p1 c) = r1 \<and> ref_of s (p2 c) = r2 \<and>
     (\<forall>q. q \<notin> three c \<longrightarrow> ref_of s q = ref_of (orig c) q) \<and>
     (\<forall>i < 1024. i \<noteq> 0 \<longrightarrow> pde s (dir c) i = pde (orig c) (dir c) i) \<and>
     (\<forall>va < UTOP. PDX va \<noteq> 0 \<longrightarrow> mapping s (dir c) va = mapping (orig c) (dir c) va) \<and>
     outside (scenery c) (orig c) s"

lemma PDX_low [simp]: "PDX 0 = 0" "PDX 0x1000 = 0" "PTX 0 = 0" "PTX 0x1000 = 1" "PGNUM 0 = 0" "PGNUM 0x1000 = 1"
  by (simp_all add: PDX_def PTX_def PGNUM_def)

abbreviation acts :: "cast \<Rightarrow> (kern \<Rightarrow> kerr + kern) \<Rightarrow> kern \<Rightarrow> kern \<Rightarrow> bool" where
  "acts c \<equiv> does (aside c) (links c)"

text \<open>The counts after \<open>pp\<close> has taken the place of \<open>m\<close>, and the page that is free after that.\<close>

definition counted :: "nat \<Rightarrow> (nat \<times> u32) option \<Rightarrow> nat \<Rightarrow> u16 \<Rightarrow> u16" where
  "counted pp m q r = (if q = pp then r + 1 else r) - (if map_option fst m = Some q then 1 else 0)"

definition let_go :: "nat \<Rightarrow> (nat \<times> u32) option \<Rightarrow> nat \<Rightarrow> u16 \<Rightarrow> nat list" where
  "let_go pp m q r = (if map_option fst m = Some q \<and> q \<noteq> pp \<and> r = 1 then [q] else [])"

lemma uses_pte:
  "stage c \<Longrightarrow> shown c m \<Longrightarrow> uses (pte_of m) q = (if map_option fst m = Some q then 1 else 0)"
  using new_pte(2) by (cases m rule: pte_of.cases) (auto simp: uses_def stage_def shown_def three_def)

lemma counted_unat:
  assumes "unat r' + (if map_option fst m = Some q then 1 else 0) = unat r + (if q = pp then 1 else 0)" and "r \<noteq> 0xFFFF"
  shows "r' = counted pp m q r"
proof -
  have "of_nat (unat r' + (if map_option fst m = Some q then 1 else 0)) = (of_nat (unat r + (if q = pp then 1 else 0)) :: u16)"
    using assms(1) by presburger
  thus ?thesis by (auto simp: counted_def algebra_simps split: if_splits)
qed

lemma inserts_outside:
  assumes ac: "does st h (inserts P pp va perm) s t" and rd: "ready st d s fl" and va: "va < UTOP"
    and X: "d \<in> X" "set fl \<subseteq> X" "present (pde s d (PDX va)) \<Longrightarrow> pt_page (pde s d (PDX va)) \<in> X"
  shows "outside X s t"
proof -
  note r = readyD [OF rd]
  obtain n where "page_insert (page_kva d) pp va perm s = Inr (n, t)"
    using ac r(3) by (auto simp: does_def inserts_def res_simps split: if_splits)
  thus ?thesis by (rule page_insert_outside [OF r(1,2) va]) (use X in auto)
qed

lemma scenery_table: "stage c \<Longrightarrow> pt_page (page2pa (p0 c) OR 7) \<in> scenery c"
  using pt_page_make [of "p0 c" 7] by (simp add: stage_def scenery_def three_def)

lemma scenery_trans: "outside (scenery c) s t \<Longrightarrow> outside (scenery c) t u \<Longrightarrow> outside (scenery c) s u"
  by (rule outside_trans) auto

lemma scene_outside: "scene c s fl tab a b r1 r2 \<Longrightarrow> outside (scenery c) s t \<Longrightarrow> outside (scenery c) (orig c) t"
  using scenery_trans unfolding scene_def by blast

lemma scene_insert:
  assumes st: "stage c" and sc: "scene c s [] True a b r1 r2" and pp: "pp \<in> {p1 c, p2 c}" and perm: "perm < 4096"
    and small: "r1 \<noteq> 0xFFFF" "r2 \<noteq> 0xFFFF"
  shows "\<exists>s'. acts c (inserts (\<lambda>r. r = 0) pp PGSIZE perm) s s' \<and>
     scene c s' (let_go pp b (p1 c) r1 @ let_go pp b (p2 c) r2) True a (Some (pp, perm)) (counted pp b (p1 c) r1) (counted pp b (p2 c) r2)"
proof -
  let ?d = "dir c"
  have sc': "ready (aside c) ?d s []" "globals_of s = globals_of (orig c)" "pde s ?d 0 = page2pa (p0 c) OR 7"
    "mapping s ?d 0 = pte_of a" "mapping s ?d 0x1000 = pte_of b" "shown c a" "shown c b"
    "ref_of s (p1 c) = r1" "ref_of s (p2 c) = r2" "ref_of s (p0 c) = 1"
    using sc by (simp_all add: scene_def)
  have d: "p0 c \<noteq> p1 c" "p0 c \<noteq> p2 c" "p1 c \<noteq> p2 c" using st by (auto simp: stage_def)
  have np: "\<not> present (pde s ?d 1)" using sc unfolding scene_def by blast
  have len: "length (pages s) = length (pages (orig c))" using globals_ofD [OF sc'(2)] by simp
  have q: "pp < length (pages s)" "pp \<notin> aside c" "ref_of s pp \<noteq> 0xFFFF" "pp \<noteq> p0 c"
    using pp st len small sc'(8,9) d by (auto simp: stage_def three_def)
  have pr: "present (pde s ?d (PDX 0x1000))" using sc'(3) present_or_7 by simp
  have va: "(0x1000 :: u32) < UTOP" by simp
  obtain s' where s': "acts c (inserts (\<lambda>r. r = 0) pp 0x1000 perm) s s'"
    "ready (aside c) ?d s' (displaced s ?d 0x1000 pp)" "inserted s s' ?d pp 0x1000 perm []"
    "globals_of s' = globals_of s" "\<And>i. i < 1024 \<Longrightarrow> pde s' ?d i = pde s ?d i"
  proof (rule does_insert [OF sc'(1) va q(1) _ q(2,3) perm])
    show "[] \<noteq> [] \<or> present (pde s ?d (PDX 0x1000))" using pr by blast
  next
    fix s' assume a: "does (aside c) (links c) (inserts (\<lambda>r. r = 0) pp 0x1000 perm) s s'"
      "ready (aside c) ?d s' (displaced s ?d 0x1000 pp @ (if present (pde s ?d (PDX 0x1000)) then [] else tl []))"
      "inserted s s' ?d pp 0x1000 perm []"
      "\<And>i. i < 1024 \<Longrightarrow> pde s' ?d i = (if i = PDX 0x1000 \<and> \<not> present (pde s ?d i) then page2pa (hd []) OR 7 else pde s ?d i)"
    have "globals_of s' = globals_of s"
      using a(1) by (auto simp: does_def inserts_def res_simps dest: page_insert_globals split: if_splits)
    thus thesis using a pr by (intro that [of s']) auto
  qed simp
  have mb: "pt_page e = fst (the b)" "b \<noteq> None" if "pte_of b = Some e" for e
    using that st sc'(7) new_pte(2) by (cases b rule: pte_of.cases; force simp: stage_def shown_def three_def)+
  have rf: "ref_of s' x = counted pp b x (ref_of s x)" if "ref_of s x \<noteq> 0xFFFF" for x
    using s'(3) sc'(5) uses_pte [OF st sc'(7)] that by (intro counted_unat) (simp_all add: inserted_def mapping_def)
  have r0: "ref_of s' x = ref_of s x" if "x \<notin> {p1 c, p2 c}" for x
  proof -
    have "uses (pte_of b) x = 0" using that sc'(7) uses_pte [OF st sc'(7)] by (auto simp: shown_def)
    moreover have "x \<noteq> pp" using that pp by auto
    moreover have "unat (ref_of s' x) + uses (pte_of b) x = unat (ref_of s x) + (if x = pp then 1 else 0)"
      using s'(3) sc'(5) by (simp add: inserted_def mapping_def)
    ultimately have "unat (ref_of s' x) = unat (ref_of s x)" by simp
    thus ?thesis by (simp add: word_unat_eq_iff)
  qed
  have dl: "displaced s ?d 0x1000 pp = let_go pp b (p1 c) r1 @ let_go pp b (p2 c) r2"
  proof (cases b)
    case (Some x)
    then obtain qq pm where b: "b = Some (qq, pm)" "qq = p1 c \<or> qq = p2 c" using sc'(7) by (cases x) (auto simp: shown_def)
    thus ?thesis using mb [of "page2pa qq OR pm OR PTE_P"] sc'(5,8,9) d by (auto simp: displaced_def let_go_def)
  qed (use sc'(5) in \<open>simp add: displaced_def let_go_def\<close>)
  have mp: "mapping s' ?d va = (if PGNUM va = 1 then Some (page2pa pp OR perm OR PTE_P) else mapping s ?d va)" if "va < UTOP" for va
    using inserted_mapping [OF s'(3) that] by simp
  have hi: "PGNUM va \<noteq> 1" if "PDX va \<noteq> 0" for va
    using that page_eq_iff [of va "0x1000"] by simp
  have "scene c s' (displaced s ?d 0x1000 pp) True a (Some (pp, perm)) (counted pp b (p1 c) r1) (counted pp b (p2 c) r2)"
    unfolding scene_def
  proof (intro conjI)
    show "set (displaced s ?d 0x1000 pp) \<subseteq> three c" by (auto simp: dl let_go_def three_def)
    show "shown c (Some (pp, perm))" using pp perm by (auto simp: shown_def)
    show "ref_of s' (p0 c) = (if True then 1 else 0)" using r0 [of "p0 c"] sc'(10) d by simp
    show "\<forall>q. q \<notin> three c \<longrightarrow> ref_of s' q = ref_of (orig c) q" using r0 sc by (auto simp: scene_def three_def)
    show "\<forall>va < UTOP. PDX va \<noteq> 0 \<longrightarrow> mapping s' ?d va = mapping (orig c) ?d va"
      using mp hi sc by (simp add: scene_def)
    show "mapping s' ?d 0 = pte_of a" using mp [of 0] sc'(4) by simp
    show "mapping s' ?d PGSIZE = pte_of (Some (pp, perm))" using mp [of "0x1000"] by simp
    show "\<not> present (pde s' ?d 1)" using s'(5) [of 1] np by simp
    show "outside (scenery c) (orig c) s'"
      by (rule scene_outside [OF sc], rule inserts_outside [OF s'(1) sc'(1) va])
         (use scenery_table [OF st] sc'(3) in \<open>simp_all add: scenery_def\<close>)
  qed (use s'(2,4,5) sc' rf [of "p1 c"] rf [of "p2 c"] small sc in \<open>simp_all add: scene_def\<close>)
  thus ?thesis using s'(1) dl by auto
qed

lemma sceneD:
  assumes "scene c s fl tab a b r1 r2"
  shows "ready (aside c) (dir c) s fl" and "frees s fl" and "aspace s (dir c)" and "kern_pgdir s = page_kva (dir c)"
    and "set fl \<subseteq> three c" and "globals_of s = globals_of (orig c)" and "length (pages s) = length (pages (orig c))"
    and "tab \<Longrightarrow> pde s (dir c) 0 = page2pa (p0 c) OR 7" and "\<not> tab \<Longrightarrow> \<not> present (pde s (dir c) 0)"
    and "\<not> present (pde s (dir c) 1)" and "mapping s (dir c) 0 = pte_of a" and "mapping s (dir c) 0x1000 = pte_of b"
    and "shown c a" and "shown c b" and "ref_of s (p0 c) = (if tab then 1 else 0)" and "ref_of s (p1 c) = r1"
    and "ref_of s (p2 c) = r2" and "\<not> tab \<Longrightarrow> pde s (dir c) 0 = 0"
proof -
  show z: "\<not> tab \<Longrightarrow> pde s (dir c) 0 = 0" using assms unfolding scene_def by presburger
  thus "\<not> tab \<Longrightarrow> \<not> present (pde s (dir c) 0)" by (simp add: present_def)
  have "globals_of s = globals_of (orig c)" using assms unfolding scene_def by blast
  thus "length (pages s) = length (pages (orig c))" by (rule globals_ofD(6))
qed (use assms in \<open>unfold scene_def ready_def PGSIZE_def, (blast | presburger)\<close>)+

lemma scene_refs:
  assumes "scene c s fl tab a b r1 r2" and "kmem t = kmem s" and "globals_of t = globals_of s"
    and "\<And>q. ref_of t q = ref_of s q" and "frees t fl'" and "set fl' \<subseteq> three c" and "stage c"
  shows "scene c t fl' tab a b r1 r2"
proof -
  note s = sceneD [OF assms(1)]
  have len: "length (pages t) = length (pages s)" using globals_ofD(6) [OF assms(3)] .
  have "aspace t (dir c)" by (rule aspace_refs [OF s(3) assms(2) len]) (simp add: assms(4))
  moreover have "aside c \<inter> set fl' = {}" using assms(6,7) by (auto simp: stage_def)
  moreover have "kern_pgdir t = kern_pgdir s" using globals_ofD(3) [OF assms(3)] .
  ultimately have "ready (aside c) (dir c) t fl'" using s(1) assms(4,5) len by (simp add: ready_def)
  moreover have mp: "mapping t d va = mapping s d va" for d va by (simp add: mapping_def kmem_cong(3) [OF assms(2)])
  have pd: "pde t d i = pde s d i" for d i by (rule kmem_cong(1) [OF assms(2)])
  have o: "outside (scenery c) (orig c) t" by (rule scene_outside [OF assms(1) outside_same [OF assms(2)]])
  ultimately show ?thesis
    using assms(1,6) o unfolding scene_def mp pd assms(3,4) by blast
qed

lemma acts_alloc:
  assumes st: "stage c" and sc: "scene c s (x # fl) tab a b r1 r2"
  shows "\<exists>t. acts c (allocate 0 (\<lambda>pp. ensure (\<lambda>s. pp = x))) s t \<and> scene c t fl tab a b r1 r2"
proof -
  note s = sceneD [OF sc]
  note pa = page_alloc_Cons [OF s(2), of 0]
  have x: "x < length (pages s)" "ref_of s x = 0" using s(2) by (simp_all add: frees_def)
  have "ref_of (popped 0 x s) q = ref_of s q" for q using x by (auto simp: ref_of_popped)
  hence "scene c (popped 0 x s) fl tab a b r1 r2"
    using pa(2) s(5) page_alloc_globals [OF pa(1)] by (intro scene_refs [OF sc _ _ _ _ _ st]) auto
  moreover have "page_alloc 0 (graft (aside c) (links c) s) = Inr (Some x, graft (aside c) (links c) (popped 0 x s))"
    using readyD(6) [OF s(1)] pa(1) by (intro graft_page_alloc) auto
  ultimately show ?thesis using pa(1) by (auto simp: does_def allocate_def ensure_def)
qed

lemma acts_free:
  assumes st: "stage c" and sc: "scene c s fl tab a b r1 r2" and q: "q \<in> three c" "q \<notin> set fl" "ref_of s q = 0"
  shows "\<exists>t. acts c (page_free q) s t \<and> scene c t (q # fl) tab a b r1 r2"
proof -
  note s = sceneD [OF sc]
  have "q < length (pages s)" "q \<notin> aside c" using st q(1) s(7) by (auto simp: stage_def)
  note pf = page_free_ok [OF s(2) this(1) q(2,3)] and sim = graft_page_free [OF this(2)]
  have "scene c (pushed q s) (q # fl) tab a b r1 r2"
    using pf q(1) s(5) page_free_globals [OF pf(1)] by (intro scene_refs [OF sc _ _ _ _ _ st]) auto
  thus ?thesis using pf(1) sim [OF pf(1)] by (auto simp: does_def)
qed

lemma acts_no_page: "scene c s [] tab a b r1 r2 \<Longrightarrow> acts c no_page s s"
proof -
  assume "scene c s [] tab a b r1 r2"
  note s = sceneD [OF this]
  have "page_alloc 0 (graft (aside c) (links c) s) = Inr (None, graft (aside c) (links c) s)"
    using readyD(6) [OF s(1)] page_alloc_Nil [OF s(2)] by (intro graft_page_alloc) auto
  thus ?thesis using page_alloc_Nil [OF s(2)] by (simp add: does_def no_page_def)
qed

lemma acts_translates:
  assumes st: "stage c" and sc: "scene c s fl tab a b r1 r2" and va: "va = 0 \<and> m = a \<or> va = 0x1000 \<and> m = b"
  shows "acts c (translates va (case m of None \<Rightarrow> NOT 0 | Some (pp, perm) \<Rightarrow> page2pa pp)) s s"
proof -
  note s = sceneD [OF sc]
  have m: "mapping s (dir c) va = pte_of m" "shown c m" "va < UTOP" using va s(11-14) by auto
  have "(case pte_of m of None \<Rightarrow> NOT 0 | Some e \<Rightarrow> PTE_ADDR e) = (case m of None \<Rightarrow> NOT 0 | Some (pp, perm) \<Rightarrow> page2pa pp)"
    using m(2) st new_pte(2) PTE_ADDR_page2pa
    by (cases m rule: pte_of.cases) (auto simp: stage_def shown_def three_def)
  thus ?thesis using check_va2pa_mapping [OF s(2,3) m(3)] m(1) s(4)
    unfolding translates_def by (intro does_ensure(2)) simp_all
qed

lemma acts_refs:
  assumes "stage c" and "scene c s fl tab a b r1 r2"
  shows "acts c (refs (p0 c) (if tab then 1 else 0)) s s" and "acts c (refs (p1 c) r1) s s" and "acts c (refs (p2 c) r2) s s"
proof -
  note s = sceneD [OF assms(2)]
  have "q < length (pages s)" "q \<notin> aside c" if "q \<in> three c" for q using that assms(1) s(7) by (auto simp: stage_def)
  thus "acts c (refs (p0 c) (if tab then 1 else 0)) s s" "acts c (refs (p1 c) r1) s s" "acts c (refs (p2 c) r2) s s"
    using s(15-17) by (auto simp: refs_def three_def ref_of_def intro!: does_ensure(1))
qed

lemma pgdir_entry_pde: "scene c s fl tab a b r1 r2 \<Longrightarrow> pgdir_entry i s = pde s (dir c) i"
  using sceneD(4) by (simp add: pgdir_entry_def pde_def)

lemma pgdir_entry_graft [simp]: "pgdir_entry i (graft st h s) = pgdir_entry i s"
  by (simp add: pgdir_entry_def)

lemma acts_pgdir_entry: "P (pgdir_entry i s) \<Longrightarrow> acts c (ensure (\<lambda>s. P (pgdir_entry i s))) s s"
  by (rule does_ensure) simp_all

lemma low_flags: "page2pa pp AND 2 = 0" "page2pa pp AND 4 = 0"
proof -
  have nb: "\<not> bit (page2pa pp) 1" "\<not> bit (page2pa pp) 2" unfolding page2pa_def bit_push_bit_iff by simp_all
  show "page2pa pp AND 2 = 0" using nb(1) and_exp_eq_0_iff_not_bit [of "page2pa pp" 1] by simp
  show "page2pa pp AND 4 = 0" using nb(2) and_exp_eq_0_iff_not_bit [of "page2pa pp" 2] by simp
qed

lemma walk_low:
  assumes "stage c" and "scene c s fl True a b r1 r2" and "va = 0 \<or> va = 0x1000"
  shows "pgdir_walk (kern_pgdir s) va False s = Inr (Some (slot s (dir c) 0 (PTX va)), s)"
    and "pgdir_walk (kern_pgdir s) va False (graft (aside c) (links c) s) =
      Inr (Some (slot s (dir c) 0 (PTX va)), graft (aside c) (links c) s)"
proof -
  note s = sceneD [OF assms(2)]
  have "present (pde s (dir c) (PDX va))" "va < UTOP" "PDX va = 0" using s(8) present_or_7 assms(3) by auto
  thus w: "pgdir_walk (kern_pgdir s) va False s = Inr (Some (slot s (dir c) 0 (PTX va)), s)"
    using pgdir_walk_present [OF s(2,3), of va False] s(4) by simp
  show "pgdir_walk (kern_pgdir s) va False (graft (aside c) (links c) s) =
      Inr (Some (slot s (dir c) 0 (PTX va)), graft (aside c) (links c) s)"
    by (rule graft_pgdir_walk [OF _ w]) simp
qed

lemma acts_has_entry:
  assumes "stage c" and "scene c s fl True a (Some (pp, perm)) r1 r2" and "P (page2pa pp OR perm OR PTE_P)"
  shows "acts c (has_entry P PGSIZE) s s"
proof -
  note s = sceneD [OF assms(2)]
  have "ld32 (kmem s) (slot s (dir c) 0 1) = page2pa pp OR perm OR PTE_P"
    using s(12) by (auto simp: mapping_def entry_def split: if_splits)
  thus ?thesis using walk_low [OF assms(1,2), of "0x1000"] assms(3) by (simp add: does_def has_entry_def)
qed

lemma acts_walk_in_table:
  assumes "stage c" and "scene c s fl True a b r1 r2"
  shows "acts c (walk_in_table False PGSIZE) s s"
proof -
  note s = sceneD [OF assms(2)]
  have p: "pt_page (pde s (dir c) 0) < length (pages s)"
    using aspaceD(2) [OF s(3), of 0] s(8) present_or_7 by simp
  have "pgdir_entry 0 s = pde s (dir c) 0" using pgdir_entry_pde [OF assms(2)] .
  thus ?thesis using walk_low [OF assms, of "0x1000"] KADDR_table [OF s(2) p]
    by (simp add: does_def walk_in_table_def ensure_def slot_def)
qed

lemma acts_insert_fails:
  assumes st: "stage c" and sc: "scene c s [] tab a b r1 r2" and va: "va < UTOP" "\<not> present (pde s (dir c) (PDX va))"
  shows "acts c (inserts (\<lambda>r. r < 0) pp va perm) s s"
proof -
  note s = sceneD [OF sc]
  have w: "pgdir_walk (page_kva (dir c)) va True s = Inr (None, s)" using pgdir_walk_absent(2) [OF va(2) s(2)] .
  have "pgdir_walk (page_kva (dir c)) va True (graft (aside c) (links c) s) = Inr (None, graft (aside c) (links c) s)"
    using readyD(6) [OF s(1)] by (intro graft_pgdir_walk [OF _ w]) auto
  thus ?thesis using w s(4) by (simp add: does_def inserts_def page_insert_def)
qed

lemma acts_lookup_none:
  assumes "stage c" and "scene c s fl False a b r1 r2"
  shows "acts c (\<lambda>s. res_bind (page_lookup (kern_pgdir s) 0 s) (\<lambda>(r, s). ensure (\<lambda>s. r = None) s)) s s"
proof -
  note s = sceneD [OF assms(2)]
  have l: "page_lookup (page_kva (dir c)) 0 s = Inr (None, s)" using s(9) by (intro page_lookup_no_table) simp
  show ?thesis using graft_page_lookup [OF l, of "aside c" "links c"] l s(4) by (simp add: does_def ensure_def)
qed

lemma acts_first:
  assumes st: "stage c" and sc: "scene c s [p0 c] False None None 0 0"
  shows "\<exists>t. acts c (inserts (\<lambda>r. r = 0) (p1 c) 0 PTE_W) s t \<and> scene c t [] True (Some (p1 c, PTE_W)) None 1 0"
proof -
  let ?d = "dir c"
  note s = sceneD [OF sc]
  have d: "p0 c \<noteq> p1 c" "p0 c \<noteq> p2 c" "p1 c \<noteq> p2 c" using st by (auto simp: stage_def)
  have q: "p1 c < length (pages s)" "p1 c \<notin> set [p0 c]" "p1 c \<notin> aside c" "ref_of s (p1 c) \<noteq> 0xFFFF"
    using st s(7,16) d by (auto simp: stage_def three_def)
  have np: "\<not> present (pde s ?d 0)" using s(9) by simp
  obtain t where t: "acts c (inserts (\<lambda>r. r = 0) (p1 c) 0 PTE_W) s t"
    "ready (aside c) ?d t []" "inserted s t ?d (p1 c) 0 PTE_W [p0 c]" "globals_of t = globals_of s"
    "\<And>i. i < 1024 \<Longrightarrow> pde t ?d i = (if i = 0 then page2pa (p0 c) OR 7 else pde s ?d i)" "ref_of t (p0 c) = 1"
  proof (rule does_insert [OF s(1) _ q, of 0 PTE_W])
    fix t assume a: "does (aside c) (links c) (inserts (\<lambda>r. r = 0) (p1 c) 0 PTE_W) s t"
      "ready (aside c) ?d t (displaced s ?d 0 (p1 c) @ (if present (pde s ?d (PDX 0)) then [p0 c] else tl [p0 c]))"
      "inserted s t ?d (p1 c) 0 PTE_W [p0 c]"
      "\<And>i. i < 1024 \<Longrightarrow> pde t ?d i = (if i = PDX 0 \<and> \<not> present (pde s ?d i) then page2pa (hd [p0 c]) OR 7 else pde s ?d i)"
      "\<not> present (pde s ?d (PDX 0)) \<Longrightarrow> ref_of t (hd [p0 c]) = 1"
    have "globals_of t = globals_of s"
      using a(1) by (auto simp: does_def inserts_def res_simps dest: page_insert_globals split: if_splits)
    moreover have "displaced s ?d 0 (p1 c) = []" using s(11) by (simp add: displaced_def)
    ultimately show thesis using a np by (intro that [of t]) auto
  qed simp_all
  have rf: "ref_of t x = (if x = p1 c then ref_of s x + 1 else ref_of s x)" if "x \<noteq> p0 c" "ref_of s x \<noteq> 0xFFFF \<or> x \<noteq> p1 c" for x
  proof -
    have "unat (ref_of t x) = unat (ref_of s x) + (if x = p1 c then 1 else 0)"
      using t(3) that(1) s(11) by (simp add: inserted_def mapping_def uses_def)
    hence "unat (ref_of t x) = unat (if x = p1 c then ref_of s x + 1 else ref_of s x)" using that(2) unat_inc [of "ref_of s x"] by (cases "x = p1 c") simp_all
    thus ?thesis by (simp only: word_unat_eq_iff)
  qed
  have mp: "mapping t ?d va = (if PGNUM va = 0 then Some (page2pa (p1 c) OR PTE_W OR PTE_P) else mapping s ?d va)" if "va < UTOP" for va
    using inserted_mapping [OF t(3) that] by simp
  have hi: "PGNUM va \<noteq> 0" if "PDX va \<noteq> 0" for va using that page_eq_iff [of va 0] by simp
  have "scene c t [] True (Some (p1 c, PTE_W)) None 1 0"
    unfolding scene_def
  proof (intro conjI)
    show "shown c (Some (p1 c, PTE_W))" by (simp add: shown_def)
    show "\<forall>q. q \<notin> three c \<longrightarrow> ref_of t q = ref_of (orig c) q"
      using rf sc by (auto simp: scene_def three_def)
    show "\<forall>va < UTOP. PDX va \<noteq> 0 \<longrightarrow> mapping t ?d va = mapping (orig c) ?d va"
      using mp hi sc by (simp add: scene_def)
    show "mapping t ?d 0 = pte_of (Some (p1 c, PTE_W))" using mp [of 0] by simp
    show "mapping t ?d PGSIZE = pte_of None" using mp [of "0x1000"] s(12) by simp
    show "\<not> present (pde t ?d 1)" using t(5) [of 1] s(10) by simp
    show "\<forall>i < 1024. i \<noteq> 0 \<longrightarrow> pde t ?d i = pde (orig c) ?d i" using t(5) sc by (simp add: scene_def)
    show "outside (scenery c) (orig c) t"
      by (rule scene_outside [OF sc], rule inserts_outside [OF t(1) s(1)]) (use np in \<open>simp_all add: scenery_def three_def\<close>)
  qed (use t(2,4,6) t(5) [of 0] rf [of "p1 c"] rf [of "p2 c"] s(6,16,17) d in \<open>simp_all add: shown_def\<close>)
  thus ?thesis using t(1) by blast
qed

lemma acts_translates_to:
  assumes "stage c" and "scene c s fl tab a b r1 r2"
  shows "a = Some (pp, perm) \<Longrightarrow> acts c (translates 0 (page2pa pp)) s s"
    and "b = Some (pp, perm) \<Longrightarrow> acts c (translates PGSIZE (page2pa pp)) s s"
    and "a = None \<Longrightarrow> acts c (translates 0 (NOT 0)) s s"
    and "b = None \<Longrightarrow> acts c (translates PGSIZE (NOT 0)) s s"
  using acts_translates [OF assms, of 0 a] acts_translates [OF assms, of "0x1000" b] by auto

lemma acts_remove:
  assumes st: "stage c" and sc: "scene c s [] True a b r1 r2"
    and va: "va = 0 \<and> m = a \<and> a' = None \<and> b' = b \<or> va = PGSIZE \<and> m = b \<and> a' = a \<and> b' = None" and m: "m = Some (q, perm)"
  shows "\<exists>t. acts c (\<lambda>s. page_remove (kern_pgdir s) va s) s t \<and>
     scene c t (if (if q = p1 c then r1 else r2) = 1 then [q] else []) True a' b'
       (if q = p1 c then r1 - 1 else r1) (if q = p1 c then r2 else r2 - 1)"
proof -
  let ?d = "dir c"
  note s = sceneD [OF sc]
  have d: "p0 c \<noteq> p1 c" "p0 c \<noteq> p2 c" "p1 c \<noteq> p2 c" using st by (auto simp: stage_def)
  have va': "va < UTOP" "PDX va = 0" using va by auto
  have q: "q = p1 c \<or> q = p2 c" "perm < 4096" using va m s(13,14) by (auto simp: shown_def)
  have "q < 0x10000" using q(1) st by (auto simp: stage_def three_def)
  hence pg: "pt_page (page2pa q OR perm OR PTE_P) = q" using q(2) by (rule new_pte(2))
  have en: "entry s ?d (PDX va) (PTX va) = Some (page2pa q OR perm OR PTE_P)"
    using va m s(11,12) by (auto simp: mapping_def)
  have rq: "ref_of s q = (if q = p1 c then r1 else r2)" using q(1) s(16,17) by auto
  obtain t where t: "page_remove (page_kva ?d) va s = Inr t" "aspace t ?d"
    "frees t (if ref_of s q = 1 then [q] else [])"
    "\<And>i j. i < 955 \<Longrightarrow> j < 1024 \<Longrightarrow> entry t ?d i j = (if i = PDX va \<and> j = PTX va then None else entry s ?d i j)"
    "\<And>x. ref_of t x = (if x = q then ref_of s x - 1 else ref_of s x)" "\<And>i. i < 1024 \<Longrightarrow> pde t ?d i = pde s ?d i"
  proof (rule page_remove_mapped [OF s(2,3) va'(1) en], goal_cases)
    case (1 t)
    show thesis by (rule that [of t]) (use 1 [unfolded pg] in auto)
  qed
  have gl: "globals_of t = globals_of s" using page_remove_globals [OF t(1)] .
  have "page_remove (page_kva ?d) va (graft (aside c) (links c) s) = Inr (graft (aside c) (links c) t)"
  proof (rule graft_page_remove [OF _ t(1)])
    fix x y u assume "page_lookup (page_kva ?d) va s = Inr (Some (x, y), u)"
    hence "x = q" using page_lookup_mapped [OF s(2,3) va'(1) en] pg by simp
    thus "x \<notin> aside c" using q(1) st by (auto simp: stage_def three_def)
  qed
  hence "acts c (\<lambda>s. page_remove (kern_pgdir s) va s) s t" using t(1) s(4) by (simp add: does_def)
  moreover have mp: "mapping t ?d w = (if PGNUM w = PGNUM va then None else mapping s ?d w)" if "w < UTOP" for w
    using mapping_upd [OF t(4) that] .
  have "scene c t (if ref_of s q = 1 then [q] else []) True a' b'
      (if q = p1 c then r1 - 1 else r1) (if q = p1 c then r2 else r2 - 1)"
    unfolding scene_def
  proof (intro conjI)
    have st3: "q \<in> three c" "q \<notin> aside c" using q(1) st by (auto simp: stage_def three_def)
    have "kern_pgdir t = kern_pgdir s" "length (pages t) = length (pages s)" using globals_ofD [OF gl] by simp_all
    moreover have "\<forall>i \<in> aside c. ref_of t i = ref_of s i" using t(5) st3(2) by auto
    ultimately show "ready (aside c) ?d t (if ref_of s q = 1 then [q] else [])"
      using s(1) t(2,3) st3(2) by (auto simp: ready_def)
    show "set (if ref_of s q = 1 then [q] else []) \<subseteq> three c" using st3 by auto
    show "\<forall>x. x \<notin> three c \<longrightarrow> ref_of t x = ref_of (orig c) x" using t(5) st3(1) sc by (auto simp: scene_def)
    show "\<forall>w < UTOP. PDX w \<noteq> 0 \<longrightarrow> mapping t ?d w = mapping (orig c) ?d w"
      using mp va' page_eq_iff [of _ va] sc by (simp add: scene_def)
    show "mapping t ?d 0 = pte_of a'" using mp [of 0] va s(11) by auto
    show "mapping t ?d PGSIZE = pte_of b'" using mp [of "0x1000"] va s(12) by auto
    show "\<not> present (pde t ?d 1)" using t(6) [of 1] s(10) by simp
    show "\<forall>i < 1024. i \<noteq> 0 \<longrightarrow> pde t ?d i = pde (orig c) ?d i" using t(6) sc by (simp add: scene_def)
    show "shown c a'" "shown c b'" using va s(13,14) by (auto simp: shown_def)
    have "outside {pt_page (pde s ?d 0)} s t" using page_remove_outside [OF s(2,3) va'(1) en t(1)] va'(2) by simp
    hence "outside (scenery c) s t" by (rule outside_mono) (use scenery_table [OF st] s(8) in simp)
    thus "outside (scenery c) (orig c) t" by (rule scene_outside [OF sc])
  qed (use t(5) t(6) [of 0] gl s(6,8,15-17) q(1) d in auto)
  ultimately show ?thesis unfolding rq by blast
qed

lemma flags_of_pte: "(page2pa pp OR x) AND 2 = x AND 2" "(page2pa pp OR x) AND 4 = x AND 4"
  using low_flags [of pp] by (simp_all add: bit.conj_disj_distrib2)

lemma acts_test_map:
  assumes st: "stage c" and sc: "scene c s [] False None None 0 0"
  shows "\<exists>t. acts c (test_map (p0 c) (p1 c) (p2 c)) s t \<and>
     scene c t [p2 c] True (Some (p1 c, PTE_W)) (Some (p1 c, PTE_W)) 2 0"
proof -
  have d: "p0 c \<noteq> p1 c" "p0 c \<noteq> p2 c" "p1 c \<noteq> p2 c" using st by (auto simp: stage_def)
  have p0: "p0 c \<in> three c" "p0 c \<notin> set []" "p0 c < 0x10000" using st by (auto simp: stage_def three_def)
  note to = acts_translates_to [OF st] and rf = acts_refs [OF st] and he = acts_has_entry [OF st]
  have lt: "PTE_W < 4096" "PTE_W OR PTE_U < 4096" by simp_all
  note ins = scene_insert [OF st]
  have "acts c no_page s s" by (rule acts_no_page [OF sc])
  have "acts c (\<lambda>s. res_bind (page_lookup (kern_pgdir s) 0 s) (\<lambda>(r, s). ensure (\<lambda>s. r = None) s)) s s"
    by (rule acts_lookup_none [OF st sc])
  have "acts c (inserts (\<lambda>r. r < 0) (p1 c) 0 PTE_W) s s"
    using acts_insert_fails [OF st sc] sceneD(9) [OF sc] by simp
  obtain s1 where "acts c (page_free (p0 c)) s s1" and s1: "scene c s1 [p0 c] False None None 0 0"
    using acts_free [OF st sc p0(1,2)] sceneD(15) [OF sc] by auto
  obtain s2 where "acts c (inserts (\<lambda>r. r = 0) (p1 c) 0 PTE_W) s1 s2" and s2: "scene c s2 [] True (Some (p1 c, PTE_W)) None 1 0"
    using acts_first [OF st s1] by blast
  have e2: "pgdir_entry 0 s2 = page2pa (p0 c) OR 7" using pgdir_entry_pde [OF s2] sceneD(8) [OF s2] by simp
  have "acts c (ensure (\<lambda>s. PTE_ADDR (pgdir_entry 0 s) = page2pa (p0 c))) s2 s2"
    using acts_pgdir_entry [of "\<lambda>e. PTE_ADDR e = page2pa (p0 c)" 0 s2 c] e2 p0(3) pt_page_make [of "p0 c" 7]
    by (simp add: PTE_ADDR_page2pa)
  have "acts c (translates 0 (page2pa (p1 c))) s2 s2" by (rule to(1) [OF s2 refl])
  have "acts c (refs (p1 c) 1) s2 s2" by (rule rf(2) [OF s2])
  have "acts c (refs (p0 c) 1) s2 s2" using rf(1) [OF s2] by simp
  obtain s3 where "acts c (inserts (\<lambda>r. r = 0) (p2 c) PGSIZE PTE_W) s2 s3"
    and s3: "scene c s3 [] True (Some (p1 c, PTE_W)) (Some (p2 c, PTE_W)) 1 1"
    using ins [OF s2 _ lt(1), of "p2 c"] d by (auto simp: counted_def let_go_def)
  have "acts c (translates PGSIZE (page2pa (p2 c))) s3 s3" by (rule to(2) [OF s3 refl])
  have "acts c (refs (p2 c) 1) s3 s3" by (rule rf(3) [OF s3])
  have "acts c no_page s3 s3" by (rule acts_no_page [OF s3])
  obtain s4 where "acts c (inserts (\<lambda>r. r = 0) (p2 c) PGSIZE PTE_W) s3 s4"
    and s4: "scene c s4 [] True (Some (p1 c, PTE_W)) (Some (p2 c, PTE_W)) 1 1"
    using ins [OF s3 _ lt(1), of "p2 c"] d by (auto simp: counted_def let_go_def)
  have "acts c (translates PGSIZE (page2pa (p2 c))) s4 s4" by (rule to(2) [OF s4 refl])
  have "acts c (refs (p2 c) 1) s4 s4" by (rule rf(3) [OF s4])
  have "acts c no_page s4 s4" by (rule acts_no_page [OF s4])
  have "acts c (walk_in_table False PGSIZE) s4 s4" by (rule acts_walk_in_table [OF st s4])
  obtain s5 where "acts c (inserts (\<lambda>r. r = 0) (p2 c) PGSIZE (PTE_W OR PTE_U)) s4 s5"
    and s5: "scene c s5 [] True (Some (p1 c, PTE_W)) (Some (p2 c, PTE_W OR PTE_U)) 1 1"
    using ins [OF s4 _ lt(2), of "p2 c"] d by (auto simp: counted_def let_go_def)
  have "acts c (translates PGSIZE (page2pa (p2 c))) s5 s5" by (rule to(2) [OF s5 refl])
  have "acts c (refs (p2 c) 1) s5 s5" by (rule rf(3) [OF s5])
  have "acts c (has_entry (\<lambda>e. e AND PTE_U \<noteq> 0) PGSIZE) s5 s5"
    by (rule he [OF s5]) (simp add: flags_of_pte or.assoc)
  have "acts c (ensure (\<lambda>s. pgdir_entry 0 s AND PTE_U \<noteq> 0)) s5 s5"
    using acts_pgdir_entry [of "\<lambda>e. e AND PTE_U \<noteq> 0" 0 s5 c] pgdir_entry_pde [OF s5] sceneD(8) [OF s5]
    by (simp add: flags_of_pte)
  obtain s6 where "acts c (inserts (\<lambda>r. r = 0) (p2 c) PGSIZE PTE_W) s5 s6"
    and s6: "scene c s6 [] True (Some (p1 c, PTE_W)) (Some (p2 c, PTE_W)) 1 1"
    using ins [OF s5 _ lt(1), of "p2 c"] d by (auto simp: counted_def let_go_def)
  have "acts c (has_entry (\<lambda>e. e AND PTE_W \<noteq> 0) PGSIZE) s6 s6"
    by (rule he [OF s6]) (simp add: flags_of_pte or.assoc)
  have "acts c (has_entry (\<lambda>e. e AND PTE_U = 0) PGSIZE) s6 s6"
    by (rule he [OF s6]) (simp add: flags_of_pte or.assoc)
  have "acts c (inserts (\<lambda>r. r < 0) (p0 c) PTSIZE PTE_W) s6 s6"
    using acts_insert_fails [OF st s6, of PTSIZE] sceneD(10) [OF s6] by (simp add: PDX_def)
  obtain s7 where "acts c (inserts (\<lambda>r. r = 0) (p1 c) PGSIZE PTE_W) s6 s7"
    and s7: "scene c s7 [p2 c] True (Some (p1 c, PTE_W)) (Some (p1 c, PTE_W)) 2 0"
    using ins [OF s6 _ lt(1), of "p1 c"] d by (auto simp: counted_def let_go_def)
  have "acts c (has_entry (\<lambda>e. e AND PTE_U = 0) PGSIZE) s7 s7"
    by (rule he [OF s7]) (simp add: flags_of_pte or.assoc)
  have "acts c (translates 0 (page2pa (p1 c))) s7 s7" by (rule to(1) [OF s7 refl])
  have "acts c (translates PGSIZE (page2pa (p1 c))) s7 s7" by (rule to(2) [OF s7 refl])
  have "acts c (refs (p1 c) 2) s7 s7" by (rule rf(2) [OF s7])
  have "acts c (refs (p2 c) 0) s7 s7" by (rule rf(3) [OF s7])
  have "acts c (test_map (p0 c) (p1 c) (p2 c)) s s7"
    unfolding test_map_def by ((rule does_Cons, fact)+, simp only: does_Nil)
  thus ?thesis using s7 by blast
qed


section \<open>The second part: unmapping\<close>

lemma acts_test_unmap:
  assumes st: "stage c" and sc: "scene c s [p2 c] True (Some (p1 c, PTE_W)) (Some (p1 c, PTE_W)) 2 0"
  shows "\<exists>t. acts c (test_unmap (p0 c) (p1 c) (p2 c)) s t \<and> scene c t [] True None None 0 0"
proof -
  have d: "p0 c \<noteq> p1 c" "p0 c \<noteq> p2 c" "p1 c \<noteq> p2 c" using st by (auto simp: stage_def)
  have p1: "p1 c \<in> three c" by (simp add: three_def)
  note to = acts_translates_to [OF st] and rf = acts_refs [OF st]
  obtain s1 where "acts c (allocate 0 (\<lambda>pp. ensure (\<lambda>s. pp = p2 c))) s s1"
    and s1: "scene c s1 [] True (Some (p1 c, PTE_W)) (Some (p1 c, PTE_W)) 2 0"
    using acts_alloc [OF st sc] by blast
  obtain s2 where "acts c (\<lambda>s. page_remove (kern_pgdir s) 0 s) s1 s2" and s2: "scene c s2 [] True None (Some (p1 c, PTE_W)) 1 0"
    using acts_remove [OF st s1, of 0 "Some (p1 c, PTE_W)" None "Some (p1 c, PTE_W)" "p1 c" PTE_W] by auto
  have "acts c (translates 0 (NOT 0)) s2 s2" by (rule to(3) [OF s2 refl])
  have "acts c (translates PGSIZE (page2pa (p1 c))) s2 s2" by (rule to(2) [OF s2 refl])
  have "acts c (refs (p1 c) 1) s2 s2" by (rule rf(2) [OF s2])
  have "acts c (refs (p2 c) 0) s2 s2" by (rule rf(3) [OF s2])
  obtain s3 where "acts c (inserts (\<lambda>r. r = 0) (p1 c) PGSIZE 0) s2 s3"
    and s3: "scene c s3 [] True None (Some (p1 c, 0)) 1 0"
    using scene_insert [OF st s2, of "p1 c" 0] d by (auto simp: counted_def let_go_def)
  have l: "p1 c < length (pages s3)" "p1 c \<notin> aside c" using p1 st sceneD(7) [OF s3] by (auto simp: stage_def)
  have "pp_ref (pages s3 ! p1 c) = 1" using sceneD(16) [OF s3] by (simp add: ref_of_def)
  hence "acts c (ensure (\<lambda>s. pp_ref (pages s ! p1 c) \<noteq> 0)) s3 s3" using l by (intro does_ensure) simp_all
  have "pp_link (pages s3 ! p1 c) = None" using sceneD(2) [OF s3] l(1) by (simp add: frees_def link_of_def)
  hence "acts c (ensure (\<lambda>s. pp_link (pages s ! p1 c) = None)) s3 s3" using l by (intro does_ensure) simp_all
  obtain s4 where "acts c (\<lambda>s. page_remove (kern_pgdir s) PGSIZE s) s3 s4" and s4: "scene c s4 [p1 c] True None None 0 0"
    using acts_remove [OF st s3, of PGSIZE "Some (p1 c, 0)" None None "p1 c" 0] by auto
  have "acts c (translates 0 (NOT 0)) s4 s4" by (rule to(3) [OF s4 refl])
  have "acts c (translates PGSIZE (NOT 0)) s4 s4" by (rule to(4) [OF s4 refl])
  have "acts c (refs (p1 c) 0) s4 s4" by (rule rf(2) [OF s4])
  have "acts c (refs (p2 c) 0) s4 s4" by (rule rf(3) [OF s4])
  obtain s5 where "acts c (allocate 0 (\<lambda>pp. ensure (\<lambda>s. pp = p1 c))) s4 s5" and s5: "scene c s5 [] True None None 0 0"
    using acts_alloc [OF st s4] by blast
  have "acts c no_page s5 s5" by (rule acts_no_page [OF s5])
  have "acts c (test_unmap (p0 c) (p1 c) (p2 c)) s s5"
    unfolding test_unmap_def by ((rule does_Cons, fact)+, simp only: does_Nil)
  thus ?thesis using s5 by blast
qed

section \<open>The third part: new page tables\<close>

lemma mapping_entry_cong:
  "(\<And>i j. i < 955 \<Longrightarrow> j < 1024 \<Longrightarrow> entry t d i j = entry s d i j) \<Longrightarrow> va < UTOP \<Longrightarrow> mapping t d va = mapping s d va"
  using user_va_iff by (simp add: mapping_def)

text \<open>Taking the table \<open>p0\<close> out of slot \<open>i0\<close> of the directory, as the test does: by hand.\<close>

lemma acts_drop:
  assumes st: "stage c" and rd: "ready (aside c) (dir c) s []" and gl: "globals_of s = globals_of (orig c)"
    and i0: "i0 = 0 \<or> i0 = 1" and pd: "pde s (dir c) i0 = page2pa (p0 c) OR 7" "\<not> present (pde s (dir c) (1 - i0))"
    and ref: "ref_of s (p0 c) = 1" "ref_of s (p1 c) = 0" "ref_of s (p2 c) = 0"
    and rest: "\<forall>q. q \<notin> three c \<longrightarrow> ref_of s q = ref_of (orig c) q"
      "\<forall>i < 1024. i \<noteq> 0 \<longrightarrow> i \<noteq> 1 \<longrightarrow> pde s (dir c) i = pde (orig c) (dir c) i"
      "\<forall>va < UTOP. PDX va \<noteq> 0 \<longrightarrow> PDX va \<noteq> 1 \<longrightarrow> mapping s (dir c) va = mapping (orig c) (dir c) va"
    and o1: "pde (orig c) (dir c) 1 = 0"
      "i0 = 0 \<longrightarrow> pde s (dir c) 1 = 0" "i0 = 1 \<longrightarrow> pde s (dir c) 0 = 0"
    and out: "outside (scenery c) (orig c) s"
  shows "\<exists>t u. acts c (clear_entry i0) s t \<and> acts c (refs (p0 c) 1) t t \<and> acts c (clear_ref (p0 c)) t u \<and>
    scene c u [] False None None 0 0"
proof -
  let ?d = "dir c"
  note r = readyD [OF rd]
  define t where "t = s\<lparr>kmem := st32 (kmem s) (page_kva ?d + 4 * i0) 0\<rparr>"
  define u where "u = upd_page (p0 c) (\<lambda>p. p\<lparr>pp_ref := 0\<rparr>) t"
  have len: "length (pages s) = length (pages (orig c))" using globals_ofD(6) [OF gl] .
  have p: "p0 c < length (pages s)" "p0 c < 0x10000" "p0 c \<notin> aside c" using st len by (auto simp: stage_def three_def)
  have pg: "pt_page (pde s ?d i0) = p0 c" using pd(1) pt_page_make [OF p(2), of 7] by simp
  have l16: "length (pages s) \<le> 0x10000" using frees_bounds(2) [OF r(1)] .
  have ru: "ref_of u q = (if q = p0 c then 0 else ref_of s q)" for q
    using p(1) by (auto simp: u_def t_def ref_of_def)
  have "i0 < 955" "present (pde s ?d i0)" "ref_of s (p0 c) = 1" using i0 pd(1) present_or_7 ref(1) by auto
  note dr = aspace_drop_table [OF r(2) l16 this(1,2) pg [symmetric] this(3), of u]
  have pu: "pde u ?d i = (if i = i0 then 0 else pde s ?d i)" if "i < 1024" for i
    by (rule dr(1)) (use that ru in \<open>simp_all add: u_def t_def\<close>)
  have eu: "entry u ?d i j = (if i = i0 then None else entry s ?d i j)" if "i < 955" "j < 1024" for i j
    by (rule dr(2)) (use that ru in \<open>simp_all add: u_def t_def\<close>)
  have au: "aspace u ?d"
    by (rule dr(3)) (use ru in \<open>simp_all add: u_def t_def\<close>)
  have no: "pde u ?d 0 = 0" "\<not> present (pde u ?d 1)"
    using pu [of 0] pu [of 1] i0 pd(2) o1(3) by (auto simp: present_def)
  have mu: "mapping u ?d va = (if PDX va = i0 then None else mapping s ?d va)" if "va < UTOP" for va
    using eu user_va_iff that by (simp add: mapping_def)
  have "frees t []" using r(1) by (simp add: t_def)
  hence fu: "frees u []" unfolding u_def by (rule frees_upd_ref) (use p(1) in \<open>simp_all add: t_def\<close>)
  have "kern_pgdir u = kern_pgdir s" "length (pages u) = length (pages s)" by (simp_all add: u_def t_def)
  hence "ready (aside c) ?d u []" using r(3,4) p(3) fu au ru by (auto simp: ready_def)
  moreover have "\<forall>q. q \<notin> three c \<longrightarrow> ref_of u q = ref_of (orig c) q" using ru rest(1) by (auto simp: three_def)
  moreover have "ref_of u (p0 c) = 0" "ref_of u (p1 c) = 0" "ref_of u (p2 c) = 0" using ru ref by auto
  moreover have "globals_of u = globals_of (orig c)" using gl by (simp add: u_def t_def)
  moreover have "\<forall>i < 1024. i \<noteq> 0 \<longrightarrow> pde u ?d i = pde (orig c) ?d i"
    using pu i0 rest(2) o1 by auto
  moreover have "\<forall>va < UTOP. PDX va \<noteq> 0 \<longrightarrow> mapping u ?d va = mapping (orig c) ?d va"
  proof (intro allI impI)
    fix va :: u32 assume va: "va < UTOP" "PDX va \<noteq> 0"
    show "mapping u ?d va = mapping (orig c) ?d va"
    proof (cases "PDX va = 1")
      case True
      hence "\<not> present (pde u ?d (PDX va))" "\<not> present (pde (orig c) ?d (PDX va))" using no(2) o1 by (simp_all add: present_def)
      thus ?thesis by (simp add: not_present_entry)
    next
      case False
      thus ?thesis using mu [OF va(1)] va i0 rest(3) by auto
    qed
  qed
  moreover have "mapping u ?d 0 = None" "mapping u ?d 0x1000 = None" using no(1) by (simp_all add: not_present_entry present_def)
  moreover have "outside (scenery c) (orig c) u"
  proof (rule scenery_trans [OF out], rule outside_st32)
    show "?d < 0x10000" using aspaceD(1) [OF r(2)] l16 by simp
    show "i0 < 1024" using i0 by auto
    show "kmem u = st32 (kmem s) (page_kva ?d + 4 * i0) 0" by (simp add: u_def t_def)
  qed (simp add: scenery_def)
  ultimately have "scene c u [] False None None 0 0"
    using no unfolding scene_def pte_of.simps shown_def PGSIZE_def by simp
  moreover have "acts c (clear_entry i0) s t" using r(3) by (simp add: does_def clear_entry_def modify_def t_def)
  moreover have "acts c (refs (p0 c) 1) t t"
    using ref(1) p unfolding refs_def by (intro does_ensure) (simp_all add: t_def ref_of_def)
  moreover have "acts c (clear_ref (p0 c)) t u" using p(3) by (simp add: does_def clear_ref_def modify_def u_def)
  ultimately show ?thesis by blast
qed


lemma acts_new_table:
  assumes st: "stage c" and sc: "scene c s [p0 c] False None None 0 0" and o1: "pde (orig c) (dir c) 1 = 0"
    and i0: "i0 = 0 \<or> i0 = 1" and va: "va < UTOP" "PDX va = i0"
  shows "\<exists>t u v. acts c (\<lambda>s. res_bind (pgdir_walk (kern_pgdir s) va True s) (\<lambda>(ptep, s). Inr s)) s t \<and>
    acts c (walk_in_table True va) s t \<and> acts c (ensure_that (table_cleared (p0 c))) t t \<and>
    acts c (clear_entry i0) t u \<and> acts c (clear_ref (p0 c)) u v \<and> scene c v [] False None None 0 0"
proof -
  let ?d = "dir c" and ?g = "graft (aside c) (links c)"
  note s = sceneD [OF sc]
  have np: "\<not> present (pde s ?d i0)" "i0 < 955" "i0 < 1024" using i0 s(9,10) by auto
  define t where "t = with_table s ?d i0 (p0 c)"
  have p: "p0 c < length (pages s)" "p0 c < 0x10000" "p0 c \<notin> aside c" using st s(7) by (auto simp: stage_def three_def)
  have w: "pgdir_walk (kern_pgdir s) va True s = Inr (Some (page_kva (p0 c) + 4 * PTX va), t)"
    using pgdir_walk_create [OF s(2), of ?d va] np va(2) s(4) by (simp add: t_def)
  have wg: "pgdir_walk (kern_pgdir s) va True (?g s) = Inr (Some (page_kva (p0 c) + 4 * PTX va), ?g t)"
    using readyD(6) [OF s(1)] by (intro graft_pgdir_walk [OF _ w]) auto
  note te = with_table_entries [OF s(2,3) np(2,1), folded t_def]
  have rt: "ref_of t q = (if q = p0 c then 1 else ref_of s q)" for q using p(1) by (simp add: t_def)
  have gl: "globals_of t = globals_of s" using pgdir_walk_globals [OF w] .
  note gd = globals_ofD [OF gl]
  have pt: "pde t ?d i0 = page2pa (p0 c) OR 7" using te(1) np(3) by simp
  have pg: "pt_page (pde t ?d i0) = p0 c" using pt pt_page_make [OF p(2), of 7] by simp
  have ft: "frees t []" using with_table_frees [OF s(2)] by (simp add: t_def)
  have "ready (aside c) ?d t []" using s(1) ft te(4) gd p(3) rt by (auto simp: ready_def)
  moreover have mp: "mapping t ?d va = mapping s ?d va" if "va < UTOP" for va
    by (rule mapping_entry_cong [OF te(2) that])
  moreover have "\<not> present (pde t ?d (1 - i0))" using te(1) [of "1 - i0"] i0 s(9,10) by auto
  moreover have d: "ref_of t (p0 c) = 1" "ref_of t (p1 c) = 0" "ref_of t (p2 c) = 0"
    using rt s(16,17) st by (auto simp: stage_def)
  moreover have "\<forall>q. q \<notin> three c \<longrightarrow> ref_of t q = ref_of (orig c) q" using rt sc by (auto simp: scene_def three_def)
  moreover have "\<forall>i < 1024. i \<noteq> 0 \<longrightarrow> i \<noteq> 1 \<longrightarrow> pde t ?d i = pde (orig c) ?d i"
    using te(1) i0 sc by (auto simp: scene_def)
  moreover have "\<forall>va < UTOP. PDX va \<noteq> 0 \<longrightarrow> PDX va \<noteq> 1 \<longrightarrow> mapping t ?d va = mapping (orig c) ?d va"
    using mp sc by (simp add: scene_def)
  moreover have "i0 = 0 \<longrightarrow> pde t ?d 1 = 0" using te(1) [of 1] o1 sc by (simp add: scene_def)
  moreover have "i0 = 1 \<longrightarrow> pde t ?d 0 = 0" using te(1) [of 0] s(18) by simp
  moreover have "globals_of t = globals_of (orig c)" using gl s(6) by simp
  moreover have "outside (scenery c) (orig c) t"
  proof (rule scene_outside [OF sc])
    have "?d < 0x10000" using aspaceD(1) [OF s(3)] frees_bounds(5) [OF s(2)] by simp
    thus "outside (scenery c) s t"
      using p(2) np(3) unfolding outside_def by (auto simp: t_def with_table_def Let_def ld32_st32_slot ld32_zero_page scenery_def three_def)
  qed
  ultimately obtain u v where "acts c (clear_entry i0) t u" "acts c (clear_ref (p0 c)) u v" "scene c v [] False None None 0 0"
    using acts_drop [OF st _ _ i0 pt _ _ _ _ _ _ _ o1] by blast
  moreover have "acts c (\<lambda>s. res_bind (pgdir_walk (kern_pgdir s) va True s) (\<lambda>(ptep, s). Inr s)) s t"
    using w wg by (simp add: does_def)
  moreover have "acts c (walk_in_table True va) s t"
  proof -
    have e: "pgdir_entry (PDX va) t = pde t ?d i0" using gd(3) s(4) va(2) by (simp add: pgdir_entry_def pde_def)
    have "pt_page (pde t ?d i0) < length (pages t)" using pg p(1) gd(6) by simp
    note k = KADDR_table [OF ft this]
    show ?thesis using w wg e k pg by (simp add: does_def walk_in_table_def ensure_def)
  qed
  moreover have "acts c (ensure_that (table_cleared (p0 c))) t t"
  proof -
    have "page2kva t (p0 c) = Inr (page_kva (p0 c))"
      using KADDR_page2pa [of "p0 c" t] frees_bounds(1) [OF ft] p gd(6) by (simp add: page_kva_def)
    moreover have "\<not> present (ld32 (kmem t) (page_kva (p0 c) + 4 * of_nat j))" if "j < 1024" for j
    proof -
      have "(of_nat j :: u32) < 1024" using that by (simp add: word_less_nat_alt unat_of_nat)
      thus ?thesis using te(3) [of "of_nat j"] by (simp add: present_def)
    qed
    ultimately show ?thesis by (intro does_ensure) (simp_all add: table_cleared_def list_all_iff)
  qed
  ultimately show ?thesis by blast
qed

lemma acts_fill:
  assumes st: "stage c" and sc: "scene c s [] False None None 0 0"
  shows "\<exists>t. acts c (fill_page (p0 c) v PGSIZE) s t \<and> scene c t [] False None None 0 0"
proof -
  let ?d = "dir c"
  note s = sceneD [OF sc]
  have p: "p0 c < length (pages s)" "p0 c < 0x10000" "p0 c < unat (npages s)"
    using st s(7) frees_bounds(1) [OF s(2)] by (auto simp: stage_def three_def)
  have k: "page2kva s (p0 c) = Inr (page_kva (p0 c))" using KADDR_page2pa [of "p0 c" s] p by (simp add: page_kva_def)
  define t where "t = s\<lparr>kmem := memset (kmem s) (page_kva (p0 c)) v PGSIZE\<rparr>"
  have ac: "acts c (fill_page (p0 c) v PGSIZE) s t" using k by (simp add: does_def fill_page_def t_def)
  have r: "ref_of t q = ref_of s q" for q by (simp add: t_def ref_of_def)
  have o: "outside {p0 c} s t"
    by (rule outsideI) (use p in \<open>simp_all add: t_def memset_fill fill_def in_page_def\<close>)
  have len: "length (pages s) \<le> 0x10000" using frees_bounds(2) [OF s(2)] .
  have r0: "\<not> is_table s ?d x" if "x \<in> {p0 c}" for x using s(15) that by (intro unused_no_table [OF s(3)]) simp
  have pd: "pde t ?d i = pde s ?d i" if "i < 1024" for i by (rule other_page(1) [OF s(3) len r0 o that])
  have en: "entry t ?d i j = entry s ?d i j" if "i < 955" "j < 1024" for i j
    by (rule other_page(2) [OF s(3) len r0 o that])
  have "aspace t ?d" by (rule aspace_same [OF s(3)]) (use pd en less_955_1024 r in \<open>simp_all add: t_def\<close>)
  hence "ready (aside c) ?d t []" using s(1) r by (simp add: ready_def t_def)
  moreover have mp: "mapping t ?d va = mapping s ?d va" if "va < UTOP" for va
    by (rule mapping_entry_cong [OF en that])
  moreover have "\<forall>i < 1024. i \<noteq> 0 \<longrightarrow> pde t ?d i = pde (orig c) ?d i" using pd sc by (simp add: scene_def)
  moreover have "pde t ?d 0 = 0" "\<not> present (pde t ?d 1)" using pd [of 0] pd [of 1] s(10,18) by simp_all
  moreover have "\<forall>va < UTOP. PDX va \<noteq> 0 \<longrightarrow> mapping t ?d va = mapping (orig c) ?d va"
    using mp sc by (simp add: scene_def)
  moreover have "globals_of t = globals_of (orig c)" using s(6) by (simp add: t_def)
  moreover have "\<forall>q. q \<notin> three c \<longrightarrow> ref_of t q = ref_of (orig c) q" using r sc by (simp add: scene_def)
  moreover have "outside (scenery c) (orig c) t"
    by (rule scene_outside [OF sc], rule outside_mono [OF o]) (simp add: scenery_def three_def)
  ultimately have "scene c t [] False None None 0 0"
    using mp [of 0] mp [of "0x1000"] r s(11-17) by (simp add: scene_def)
  thus ?thesis using ac by blast
qed

lemma acts_test_tables:
  assumes st: "stage c" and sc: "scene c s [] True None None 0 0" and o1: "pde (orig c) (dir c) 1 = 0"
  shows "\<exists>t. acts c (test_tables (p0 c)) s t \<and> scene c t [] False None None 0 0"
proof -
  have p0: "p0 c \<in> three c" "p0 c \<notin> set []" "p0 c < 0x10000" using st by (auto simp: stage_def three_def)
  note s = sceneD [OF sc]
  have e: "pgdir_entry 0 s = page2pa (p0 c) OR 7" using pgdir_entry_pde [OF sc] s(8) by simp
  have "acts c (ensure (\<lambda>s. PTE_ADDR (pgdir_entry 0 s) = page2pa (p0 c))) s s"
    using acts_pgdir_entry [of "\<lambda>e. PTE_ADDR e = page2pa (p0 c)" 0 s c] e p0(3) pt_page_make [of "p0 c" 7]
    by (simp add: PTE_ADDR_page2pa)
  obtain s1 s2 where "acts c (clear_entry 0) s s1" "acts c (refs (p0 c) 1) s1 s1" "acts c (clear_ref (p0 c)) s1 s2"
    and s2: "scene c s2 [] False None None 0 0"
  proof -
    have "pde s (dir c) 1 = 0" using o1 sc by (simp add: scene_def)
    moreover have "\<not> present (pde s (dir c) (1 - 0))" using s(10) by simp
    moreover have "\<forall>q. q \<notin> three c \<longrightarrow> ref_of s q = ref_of (orig c) q" using sc unfolding scene_def by blast
    moreover have "\<forall>i < 1024. i \<noteq> 0 \<longrightarrow> i \<noteq> 1 \<longrightarrow> pde s (dir c) i = pde (orig c) (dir c) i" using sc unfolding scene_def by blast
    moreover have "\<forall>va < UTOP. PDX va \<noteq> 0 \<longrightarrow> PDX va \<noteq> 1 \<longrightarrow> mapping s (dir c) va = mapping (orig c) (dir c) va"
      using sc unfolding scene_def by blast
    moreover have "outside (scenery c) (orig c) s" using sc unfolding scene_def by blast
    ultimately show thesis
      using acts_drop [OF st s(1,6), of 0] s(8,15-17) o1 that by auto
  qed
  obtain s3 where "acts c (page_free (p0 c)) s2 s3" and s3: "scene c s3 [p0 c] False None None 0 0"
    using acts_free [OF st s2 p0(1,2)] sceneD(15) [OF s2] by auto
  have va: "PGSIZE * NPDENTRIES + PGSIZE < UTOP" "PDX (PGSIZE * NPDENTRIES + PGSIZE) = 1" by (simp_all add: PDX_def)
  obtain s4 s5 s6 where "acts c (walk_in_table True (PGSIZE * NPDENTRIES + PGSIZE)) s3 s4"
    "acts c (clear_entry 1) s4 s5" "acts c (clear_ref (p0 c)) s5 s6" and s6: "scene c s6 [] False None None 0 0"
    using acts_new_table [OF st s3 o1, of 1, OF _ va] by blast
  have "acts c (clear_entry (PDX (PGSIZE * NPDENTRIES + PGSIZE))) s4 s5" unfolding va(2) by fact
  obtain s7 where "acts c (fill_page (p0 c) 0xFF PGSIZE) s6 s7" and s7: "scene c s7 [] False None None 0 0"
    using acts_fill [OF st s6] by blast
  obtain s8 where "acts c (page_free (p0 c)) s7 s8" and s8: "scene c s8 [p0 c] False None None 0 0"
    using acts_free [OF st s7 p0(1,2)] sceneD(15) [OF s7] by auto
  obtain s9 s10 s11 where "acts c (\<lambda>s. res_bind (pgdir_walk (kern_pgdir s) 0 True s) (\<lambda>(ptep, s). Inr s)) s8 s9"
    "acts c (ensure_that (table_cleared (p0 c))) s9 s9" "acts c (clear_entry 0) s9 s10" "acts c (clear_ref (p0 c)) s10 s11"
    and s11: "scene c s11 [] False None None 0 0"
    using acts_new_table [OF st s8 o1, of 0 0] by auto
  have "acts c (test_tables (p0 c)) s s11"
    unfolding test_tables_def by ((rule does_Cons, fact)+, simp only: does_Nil)
  thus ?thesis using s11 by blast
qed

section \<open>check_page passes\<close>

lemma allocate_Cons: "frees s (x # fl) \<Longrightarrow> allocate 0 k s = k x (popped 0 x s)"
  by (simp add: allocate_def page_alloc_Cons(1))

lemma popped_0 [simp]:
  "kmem (popped 0 x s) = kmem s" "globals_of (popped 0 x s) = globals_of s"
  by (simp_all add: popped_def globals_of_def upd_page_def)

lemma ref_of_popped_0: "frees s (x # fl) \<Longrightarrow> ref_of (popped 0 x s) q = ref_of s q"
  by (auto simp: ref_of_popped frees_def)

lemma globals_pushed [simp]: "globals_of (pushed x s) = globals_of s" "kmem (pushed x s) = kmem s"
  by (simp_all add: pushed_def globals_of_def upd_page_def)

lemma free_three:
  assumes fr: "frees s fl" and q: "distinct [x, y, z]" "{x, y, z} \<inter> set fl = {}"
    "\<forall>q \<in> {x, y, z}. q < length (pages s) \<and> ref_of s q = 0"
  shows "\<exists>t. steps [page_free x, page_free y, page_free z] s = Inr t \<and> frees t (z # y # x # fl) \<and>
    kmem t = kmem s \<and> globals_of t = globals_of s \<and> (\<forall>q. ref_of t q = ref_of s q)"
proof -
  have l: "length (pages (pushed p t)) = length (pages t)" for p t using globals_pushed(1) [of p t] by (auto simp: globals_of_def)
  have "x < length (pages s)" "x \<notin> set fl" "ref_of s x = 0" using q by auto
  note 1 = page_free_ok [OF fr this]
  have "y < length (pages (pushed x s))" "y \<notin> set (x # fl)" "ref_of (pushed x s) y = 0" using q l by auto
  note 2 = page_free_ok [OF 1(2) this]
  have "z < length (pages (pushed y (pushed x s)))" "z \<notin> set (y # x # fl)" "ref_of (pushed y (pushed x s)) z = 0"
    using q l by auto
  note 3 = page_free_ok [OF 2(2) this]
  show ?thesis using 1 2 3 by simp
qed

lemma take_three:
  assumes fr: "frees s (x # y # z # fl)"
  defines "t \<equiv> popped 0 z (popped 0 y (popped 0 x s))"
  shows "allocate 0 (\<lambda>a. allocate 0 (\<lambda>b. allocate 0 (\<lambda>c. k a b c))) s = k x y z t"
    and "frees t fl" and "kmem t = kmem s" and "globals_of t = globals_of s" and "ref_of t q = ref_of s q"
    and "distinct [x, y, z]" and "{x, y, z} \<inter> set fl = {}"
    and "q \<in> {x, y, z} \<Longrightarrow> q < length (pages s) \<and> q < 0x10000 \<and> ref_of s q = 0"
proof -
  note 1 = page_alloc_Cons(2) [OF fr, of 0]
  note 2 = page_alloc_Cons(2) [OF 1, of 0]
  note 3 = page_alloc_Cons(2) [OF 2, of 0]
  show "allocate 0 (\<lambda>a. allocate 0 (\<lambda>b. allocate 0 (\<lambda>c. k a b c))) s = k x y z t"
    by (simp add: allocate_Cons [OF fr] allocate_Cons [OF 1] allocate_Cons [OF 2] t_def)
  show "frees t fl" "kmem t = kmem s" "globals_of t = globals_of s" using 3 by (simp_all add: t_def)
  show "ref_of t q = ref_of s q"
    by (simp add: t_def ref_of_popped_0 [OF fr] ref_of_popped_0 [OF 1] ref_of_popped_0 [OF 2])
  show "distinct [x, y, z]" "{x, y, z} \<inter> set fl = {}" using fr by (auto simp: frees_def)
  show "q \<in> {x, y, z} \<Longrightarrow> q < length (pages s) \<and> q < 0x10000 \<and> ref_of s q = 0"
    using fr frees_bounds(4) [OF fr] by (auto simp: frees_def)
qed

lemma check_page_result:
  assumes fr: "frees s (x # y # z # rest)" and as: "aspace s d" and kd: "kern_pgdir s = page_kva d"
    and e0: "pde s d 0 = 0" and e1: "pde s d 1 = 0"
  obtains s' where "check_page s = Inr s'" "frees s' (z # y # x # rest)" "aspace s' d" "globals_of s' = globals_of s"
    "\<And>q. q < length (pages s) \<Longrightarrow> ref_of s' q = ref_of s q" "\<And>i. i < 1024 \<Longrightarrow> pde s' d i = pde s d i"
    "\<And>va. va < UTOP \<Longrightarrow> mapping s' d va = mapping s d va" "outside {d, x, y, z} s s'"
proof -
  define s3 where "s3 = popped 0 z (popped 0 y (popped 0 x s))"
  note t3 = take_three [OF fr, folded s3_def]
  note g3 = globals_ofD [OF t3(4)]
  define u where "u = graft (set rest) (\<lambda>_. None) (s3\<lparr>page_free_list := None\<rparr>)"
  define c where "c = \<lparr>aside = set rest, links = link_of s3, dir = d, p0 = x, p1 = y, p2 = z, orig = u\<rparr>"
  have c: "aside c = set rest" "links c = link_of s3" "dir c = d" "p0 c = x" "p1 c = y" "p2 c = z" "orig c = u"
    by (simp_all add: c_def)
  note gs = graft_steal [OF t3(2), folded u_def]
  have ku: "kmem u = kmem s" "globals_of u = globals_of s" using t3(3,4) by (simp_all add: u_def)
  have lu: "length (pages u) = length (pages s)" using ku(2) by (simp add: globals_of_def)
  have ru: "ref_of u q = ref_of s q" if "q < length (pages s)" for q
  proof -
    have "ref_of u q = ref_of s3 q" using g3(6) that by (simp add: u_def ref_of_def graft_def)
    thus ?thesis using t3(5) by simp
  qed
  have rest: "i \<in> set rest \<Longrightarrow> i < length (pages s) \<and> ref_of s i = 0" for i using fr by (auto simp: frees_def)
  have au: "aspace u d" by (rule aspace_refs [OF as ku(1) lu]) (simp add: ru)
  have dx: "d \<notin> {x, y, z}" using aspace_referenced(1) [OF as] t3(8) by fastforce
  have st: "stage c" using t3(6,7,8) dx lu by (auto simp: stage_def three_def c)
  have ready: "ready (set rest) d u []"
    using gs(2) au ku(2) kd rest lu ru by (auto simp: ready_def globals_of_def)
  have pd: "pde u d i = pde s d i" for i by (rule kmem_cong(1) [OF ku(1)])
  have no: "mapping u d 0 = None" "mapping u d 0x1000 = None"
    using e0 e1 pd by (simp_all add: not_present_entry present_def)
  have r3: "ref_of u x = 0" "ref_of u y = 0" "ref_of u z = 0" using t3(8) ru by auto
  have sc: "scene c u [] False None None 0 0"
    using ready e0 e1 pd no r3 outside_same [of u u] unfolding scene_def by (simp add: c shown_def present_def)
  obtain t1 where t1: "acts c (test_map x y z) u t1" "scene c t1 [z] True (Some (y, PTE_W)) (Some (y, PTE_W)) 2 0"
    using acts_test_map [OF st sc] by (auto simp: c)
  obtain t2 where t2: "acts c (test_unmap x y z) t1 t2" "scene c t2 [] True None None 0 0"
    using acts_test_unmap [OF st, of t1] t1(2) by (auto simp: c)
  obtain t where t: "acts c (test_tables x) t2 t" "scene c t [] False None None 0 0"
    using acts_test_tables [OF st t2(2)] e1 pd by (auto simp: c)
  note s' = sceneD [OF t(2)]
  define v where "v = (graft (set rest) (link_of s3) t)\<lparr>page_free_list := page_free_list s3\<rparr>"
  have lt: "length (pages t) = length (pages s)" using s'(7) lu by (simp add: c)
  have rt: "ref_of t q = ref_of s q" if "q < length (pages s)" for q
    using t(2) s'(15-17) t3(8) [of q] ru [OF that] by (cases "q \<in> three c") (auto simp: scene_def three_def c)
  have fv: "frees v rest"
    unfolding v_def by (rule graft_restore) (use s'(2) t3(2) rest rt lt in \<open>auto simp: frees_def\<close>)
  have kv: "kmem v = kmem t" "globals_of v = globals_of s" "length (pages v) = length (pages s)"
    using s'(6) ku(2) lt by (simp_all add: v_def c)
  have rv: "ref_of v q = ref_of s q" if "q < length (pages s)" for q
    using rt [OF that] that lt by (simp add: v_def ref_of_def graft_def)
  obtain w where w: "steps [page_free x, page_free y, page_free z] v = Inr w" "frees w (z # y # x # rest)"
    "kmem w = kmem v" "globals_of w = globals_of v" "\<forall>q. ref_of w q = ref_of v q"
    using free_three [OF fv t3(6,7)] t3(8) rv kv(3) by auto
  show thesis
  proof (rule that)
    have "test_map x y z (s3\<lparr>page_free_list := None\<rparr>) = Inr (graft (set rest) (link_of s3) t1)"
      using t1(1) gs(1) by (simp add: does_def c)
    moreover have "test_unmap x y z (graft (set rest) (link_of s3) t1) = Inr (graft (set rest) (link_of s3) t2)"
      using t2(1) by (simp add: does_def c)
    moreover have "test_tables x (graft (set rest) (link_of s3) t2) = Inr (graft (set rest) (link_of s3) t)"
      using t(1) by (simp add: does_def c)
    ultimately show "check_page s = Inr w"
      using w(1) t3(6) unfolding check_page_def t3(1)
      by (simp add: Let_def ensure_def set_free_list_def modify_def v_def)
    show "frees w (z # y # x # rest)" using w(2) .
    have kw: "kmem w = kmem t" using w(3) kv(1) by simp
    show "aspace w d"
    proof (rule aspace_refs [OF _ kw])
      show "aspace t d" using s'(3) by (simp add: c)
      show "length (pages w) = length (pages t)" using w(4) kv(2) lt by (simp add: globals_of_def)
      show "unat (ref_of t q) \<le> unat (ref_of w q)" if "q < length (pages t)" for q using that w(5) rv rt lt by simp
    qed
    have "outside {d, x, y, z} u t" using t(2) by (simp add: scene_def scenery_def three_def c)
    thus "outside {d, x, y, z} s w" unfolding outside_def kw ku(1) .
    show "globals_of w = globals_of s" using w(4) kv(2) by simp
    show "ref_of w q = ref_of s q" if "q < length (pages s)" for q using w(5) rv that by simp
    show "pde w d i = pde s d i" if "i < 1024" for i
      using t(2) that pd e0 kmem_cong(1) [OF kw] by (cases "i = 0") (simp_all add: scene_def c)
    show "mapping w d va = mapping s d va" if "va < UTOP" for va
    proof (cases "PDX va = 0")
      case True
      hence "mapping s d va = None" "mapping t d va = None" using e0 s'(9) by (simp_all add: not_present_entry c present_def)
      thus ?thesis by (simp add: mapping_def kmem_cong(3) [OF kw])
    next
      case False
      have "mapping t d va = mapping u d va" using t(2) that False by (simp add: scene_def c)
      thus ?thesis by (simp add: mapping_def kmem_cong(3) [OF kw] kmem_cong(3) [OF ku(1)])
    qed
  qed
qed

end
