(* ===== verification/Jos_CheckAlloc.thy ===== *)
theory Jos_CheckAlloc
  imports Jos_CheckPage
begin

text \<open>
  The tests \<open>check_page_alloc\<close> and \<open>check_page_free_list\<close> of \<open>kern/pmap.c\<close>. The first passes on every free list of three pages
  or more. The second sorts the pages below 4 MB to the front, writes over the free pages, and passes exactly when no page in use
  is on the list and both kinds of memory are.
\<close>

section \<open>check_page_alloc passes\<close>

lemma graft_ops:
  shows "frees s (x # fl) \<Longrightarrow> x \<notin> st \<Longrightarrow> allocate f k (graft st h s) = k x (graft st h (popped f x s))"
    and "frees s fl \<Longrightarrow> pp < length (pages s) \<Longrightarrow> pp \<notin> set fl \<Longrightarrow> ref_of s pp = 0 \<Longrightarrow> pp \<notin> st \<Longrightarrow>
      page_free pp (graft st h s) = Inr (graft st h (pushed pp s))"
    and "frees s [] \<Longrightarrow> no_page (graft st h s) = Inr (graft st h s)"
proof -
  assume fr: "frees s (x # fl)" and x: "x \<notin> st"
  have "page_free_list s = Some x" using fr by (simp add: frees_def)
  hence "page_alloc f (graft st h s) = Inr (Some x, graft st h (popped f x s))"
    using x page_alloc_Cons(1) [OF fr] by (intro graft_page_alloc) auto
  thus "allocate f k (graft st h s) = k x (graft st h (popped f x s))" by (simp add: allocate_def)
next
  assume "frees s fl" "pp < length (pages s)" "pp \<notin> set fl" "ref_of s pp = 0" "pp \<notin> st"
  thus "page_free pp (graft st h s) = Inr (graft st h (pushed pp s))"
    using page_free_ok(1) graft_page_free by blast
next
  assume fr: "frees s []"
  hence "page_free_list s = None" by (simp add: frees_def)
  hence "page_alloc 0 (graft st h s) = Inr (None, graft st h s)"
    using page_alloc_Nil [OF fr] by (intro graft_page_alloc) auto
  thus "no_page (graft st h s) = Inr (graft st h s)" by (simp add: no_page_def)
qed

lemma pushed_three:
  assumes fr: "frees s fl" and q: "distinct [x, y, z]" "{x, y, z} \<inter> set fl = {}"
    "\<forall>q \<in> {x, y, z}. q < length (pages s) \<and> ref_of s q = 0" and "{x, y, z} \<inter> st = {}"
  shows "page_free x (graft st h s) = Inr (graft st h (pushed x s))"
    and "page_free y (graft st h (pushed x s)) = Inr (graft st h (pushed y (pushed x s)))"
    and "page_free z (graft st h (pushed y (pushed x s))) = Inr (graft st h (pushed z (pushed y (pushed x s))))"
    and "frees (pushed z (pushed y (pushed x s))) (z # y # x # fl)"
proof -
  have l: "length (pages (pushed p t)) = length (pages t)" for p t using globals_pushed(1) [of p t] by (auto simp: globals_of_def)
  have 1: "frees (pushed x s) (x # fl)" using page_free_ok(2) [OF fr] q by simp
  have 2: "frees (pushed y (pushed x s)) (y # x # fl)" using page_free_ok(2) [OF 1] q l by simp
  show "frees (pushed z (pushed y (pushed x s))) (z # y # x # fl)" using page_free_ok(2) [OF 2] q l by simp
  show "page_free x (graft st h s) = Inr (graft st h (pushed x s))"
    "page_free y (graft st h (pushed x s)) = Inr (graft st h (pushed y (pushed x s)))"
    "page_free z (graft st h (pushed y (pushed x s))) = Inr (graft st h (pushed z (pushed y (pushed x s))))"
    using graft_ops(2) [OF fr, of x st h] graft_ops(2) [OF 1, of y st h] graft_ops(2) [OF 2, of z st h] q assms(5) l by simp_all
qed

lemma popped_three:
  assumes fr: "frees s (x # y # z # fl)" and "{x, y, z} \<inter> st = {}"
  shows "allocate 0 (\<lambda>a. allocate 0 (\<lambda>b. allocate 0 (\<lambda>c. k a b c))) (graft st h s) = k x y z (graft st h (popped 0 z (popped 0 y (popped 0 x s))))"
  using graft_ops(1) [OF fr] graft_ops(1) [OF page_alloc_Cons(2) [OF fr]]
    graft_ops(1) [OF page_alloc_Cons(2) [OF page_alloc_Cons(2) [OF fr]]] assms(2) by simp

lemma cleared_page:
  assumes "frees s fl" and "x < length (pages s)" and "\<And>a. in_page x a \<Longrightarrow> kmem s a = 0"
  shows "page_cleared x s = Inr True"
proof -
  have "page2kva s x = Inr (page_kva x)"
    using KADDR_page2pa [of x s] frees_bounds(1,5) [OF assms(1)] assms(2) by (force simp: page_kva_def)
  moreover have "kmem s (page_kva x + of_nat i) = 0" if "i < 4096" for i
    using that by (intro assms(3) in_page_offset) (simp add: unat_of_nat)
  ultimately show ?thesis by (simp add: page_cleared_def list_all_iff)
qed

lemma test_alloc_result:
  assumes fr: "frees s (x # y # z # rest)"
  obtains s' where "test_alloc s = Inr s'" "frees s' (x # y # z # rest)" "globals_of s' = globals_of s"
    "\<And>q. q < length (pages s) \<Longrightarrow> ref_of s' q = ref_of s q" "\<And>a. kmem s' a = (if in_page z a then 0 else kmem s a)"
proof -
  define s3 where "s3 = popped 0 z (popped 0 y (popped 0 x s))"
  note t3 = take_three [OF fr, folded s3_def]
  note g3 = globals_ofD [OF t3(4)]
  let ?g = "graft (set rest) (link_of s3)"
  define u where "u = graft (set rest) (\<lambda>_. None) (s3\<lparr>page_free_list := None\<rparr>)"
  note gs = graft_steal [OF t3(2), folded u_def]
  have ku: "kmem u = kmem s" "globals_of u = globals_of s" using t3(3,4) by (simp_all add: u_def)
  have lu: "length (pages u) = length (pages s)" using ku(2) by (simp add: globals_of_def)
  have ru: "ref_of u q = ref_of s q" if "q < length (pages s)" for q
    using g3(6) t3(5) [of q] that by (simp add: u_def ref_of_def graft_def)
  have bounds: "q < length (pages s)" "q < 0x10000" "ref_of s q = 0" if "q \<in> {x, y, z}" for q using t3(8) that by auto
  have uxyz: "\<forall>q \<in> {x, y, z}. q < length (pages u) \<and> ref_of u q = 0" using bounds lu ru by auto
  have off: "{x, y, z} \<inter> set rest = {}" "{z, y, x} \<inter> set rest = {}" using t3(7) by auto
  define u3 where "u3 = pushed z (pushed y (pushed x u))"
  note p3 = pushed_three [OF gs(2) t3(6) _ uxyz off(1)]
  have f3: "frees u3 [z, y, x]" using p3(4) by (simp add: u3_def)
  define v where "v = popped 0 x (popped 0 y (popped 0 z u3))"
  note tv = take_three [OF f3, folded v_def]
  have v: "kmem v = kmem s" "globals_of v = globals_of s" "\<And>q. ref_of v q = ref_of u q"
    using tv(3-5) ku by (simp_all add: u3_def)
  have lv: "length (pages v) = length (pages s)" using v(2) by (simp add: globals_of_def)
  have np: "unat (npages v) = length (pages s)" using frees_bounds(1) [OF tv(2)] lv by simp
  define w where "w = v\<lparr>kmem := memset (kmem v) (page_kva z) 1 PGSIZE\<rparr>"
  have fw: "frees w []" using tv(2) by (simp add: w_def)
  have rw: "ref_of w q = ref_of u q" for q using v(3) by (simp add: w_def ref_of_def)
  have lw: "length (pages w) = length (pages s)" using lv by (simp add: w_def)
  define w1 where "w1 = popped 1 z (pushed z w)"
  have z: "z < length (pages w)" "ref_of w z = 0" "z < 0x10000" "z \<notin> set rest" using bounds [of z] lw rw ru off(1) by auto
  have f1: "frees (pushed z w) [z]" using page_free_ok(2) [OF fw z(1) _ z(2)] by simp
  have fw1: "frees w1 []" using page_alloc_Cons(2) [OF f1] by (simp add: w1_def)
  have gw: "globals_of w1 = globals_of s" using v(2) by (simp add: w1_def w_def globals_of_def)
  have lw1: "length (pages w1) = length (pages s)" using gw by (simp add: globals_of_def)
  have rw1: "ref_of w1 q = ref_of u q" for q using z(1,2) rw by (auto simp: w1_def)
  have kw: "kmem w1 = (\<lambda>a. if in_page z a then 0 else kmem s a)"
    by (auto simp: w1_def w_def v(1) memset_fill fill_def in_page_def)
  define r where "r = (?g w1)\<lparr>page_free_list := page_free_list s3\<rparr>"
  have rest: "i \<in> set rest \<Longrightarrow> i < length (pages s) \<and> ref_of s i = 0" for i using fr by (auto simp: frees_def)
  have frr: "frees r rest"
    unfolding r_def by (rule graft_restore [OF fw1]) (use t3(2) rest rw1 ru lw1 in \<open>auto simp: frees_def\<close>)
  have lr: "length (pages r) = length (pages s)" using lw1 by (simp add: r_def)
  have rr: "ref_of r q = ref_of s q" if "q < length (pages s)" for q
    using rw1 [of q] ru [OF that] that lw1 by (simp add: r_def ref_of_def graft_def)
  have d: "distinct [z, y, x]" using t3(6) by auto
  have rzyx: "\<forall>q \<in> {z, y, x}. q < length (pages r) \<and> ref_of r q = 0" using bounds lr rr by auto
  obtain t where t: "steps [page_free z, page_free y, page_free x] r = Inr t" "frees t (x # y # z # rest)"
    "kmem t = kmem r" "globals_of t = globals_of r" "\<forall>q. ref_of t q = ref_of r q"
    using free_three [OF frr d off(2) rzyx] by blast
  show thesis
  proof (rule that [of t])
    have 1: "page_cleared z (?g w1) = Inr True"
      using cleared_page [OF fw1, of z] z(1) lw lw1 kw by (simp add: page_cleared_def)
    have 2: "no_page (?g u) = Inr (?g u)" "no_page (?g v) = Inr (?g v)" using graft_ops(3) gs(2) tv(2) by auto
    have 3: "page_free z (?g w) = Inr (?g (pushed z w))" by (rule graft_ops(2) [OF fw z(1) _ z(2,4)]) simp
    have 4: "allocate 1 k (?g (pushed z w)) = k z (?g w1)" for k
      using graft_ops(1) [OF f1 z(4)] by (simp add: w1_def)
    have 5: "fill_page z 1 0x1000 (?g v) = Inr (?g w)"
    proof -
      have "page2kva v z = Inr (page_kva z)" using KADDR_page2pa [of z v] np z lw by (simp add: page_kva_def)
      thus ?thesis by (simp add: fill_page_def w_def)
    qed
    have 6: "allocate 0 (\<lambda>a. allocate 0 (\<lambda>b. allocate 0 (\<lambda>c. k a b c))) (?g u3) = k z y x (?g v)" for k
      using popped_three [OF f3 off(2)] by (simp add: v_def)
    have pa: "page2pa q < npages s3 * PGSIZE" if "q \<in> {x, y, z}" for q
    proof -
      have "unat (npages s3) \<le> 0x10000" using frees_bounds(1,2) [OF t3(2)] by simp
      hence "unat (npages s3 * 0x1000) = unat (npages s3) * 0x1000" by (subst unat_mult_no_carry) simp_all
      moreover have "unat (npages s3) = length (pages s)" using frees_bounds(1) [OF t3(2)] g3(6) by simp
      ultimately show ?thesis using bounds [OF that] by (simp add: word_less_nat_alt unat_page2pa)
    qed
    show "test_alloc s = Inr t"
      unfolding test_alloc_def t3(1)
      using t3(6) pa t(1) d
      by (simp add: ensure_def ensure_that_def Let_def set_free_list_def modify_def gs(1) 2 p3(1-3) u3_def [symmetric] 3 4 5 6 1 r_def [symmetric])
    show "ref_of t q = ref_of s q" if "q < length (pages s)" for q using t(5) rr that by simp
    show "kmem t a = (if in_page z a then 0 else kmem s a)" for a using t(3) kw by (simp add: r_def)
    show "globals_of t = globals_of s" using t(4) gw by (simp add: r_def)
  qed (rule t(2))
qed


section \<open>Along the free list\<close>

lemma each_free_ok:
  assumes "linked h p fl" and "I fl s"
    and step: "\<And>x xs s. I (x # xs) s \<Longrightarrow> x < length (pages (snd s)) \<and>
      (\<exists>s'. body x s = Inr s' \<and> I xs s' \<and> pp_link (pages (snd s') ! x) = h x)"
  shows "\<exists>s'. each_free body p s = Some (Inr s') \<and> I [] s'"
  using assms(1,2)
proof (induction fl arbitrary: p s)
  case Nil
  thus ?case by (simp add: each_free.simps)
next
  case (Cons x xs)
  obtain s' where s': "body x s = Inr s'" "I xs s'" "pp_link (pages (snd s') ! x) = h x" "x < length (pages (snd s))"
    using step [OF Cons.prems(2)] by blast
  have "p = Some x" "linked h (h x) xs" using Cons.prems(1) by simp_all
  thus ?case using Cons.IH [of "h x" s'] s' by (simp add: each_free.simps)
qed

lemma count_pages:
  assumes "frees s fl"
  shows "each_free count_page (page_free_list s) (0, s) = Some (Inr (length fl, s))"
proof -
  have "linked (link_of s) (page_free_list s) fl" using assms by (simp add: frees_def)
  hence "\<exists>t. each_free count_page (page_free_list s) (0, s) = Some (Inr t) \<and>
      snd t = s \<and> fst t + length ([] :: nat list) = length fl \<and> set ([] :: nat list) \<subseteq> set fl"
    by (rule each_free_ok [where I = "\<lambda>xs t. snd t = s \<and> fst t + length xs = length fl \<and> set xs \<subseteq> set fl"])
       (use assms in \<open>auto simp: count_page_def link_of_def frees_def\<close>)
  thus ?thesis by auto
qed

lemma check_page_alloc_result:
  assumes fr: "frees s (x # y # z # rest)" and "pages_kva s \<noteq> 0"
  obtains s' where "check_page_alloc s = Some (Inr s')" "frees s' (x # y # z # rest)" "globals_of s' = globals_of s"
    "\<And>q. q < length (pages s) \<Longrightarrow> ref_of s' q = ref_of s q" "\<And>a. kmem s' a = (if in_page z a then 0 else kmem s a)"
proof (rule test_alloc_result [OF fr])
  fix s' assume a: "test_alloc s = Inr s'" "frees s' (x # y # z # rest)" "globals_of s' = globals_of s"
    "\<And>q. q < length (pages s) \<Longrightarrow> ref_of s' q = ref_of s q" "\<And>a. kmem s' a = (if in_page z a then 0 else kmem s a)"
  have "check_page_alloc s = Some (Inr s')"
    using count_pages [OF fr] count_pages [OF a(2)] a(1) assms(2) by (simp add: check_page_alloc_def ensure_def)
  thus thesis using a by (intro that [of s'])
qed

section \<open>Low pages first\<close>

fun path :: "(nat \<Rightarrow> nat option) \<Rightarrow> nat option \<Rightarrow> nat list \<Rightarrow> nat option \<Rightarrow> bool" where
  "path h p [] q = (p = q)"
| "path h p (x # xs) q = (p = Some x \<and> path h (h x) xs q)"

lemma path_append: "path h p (xs @ ys) q \<longleftrightarrow> (\<exists>r. path h p xs r \<and> path h r ys q)"
  by (induction xs arbitrary: p) auto

lemma path_linked: "path h p xs None = linked h p xs"
  by (induction xs arbitrary: p) auto

lemma path_cong: "(\<And>x. x \<in> set xs \<Longrightarrow> h x = h' x) \<Longrightarrow> path h p xs q = path h' p xs q"
  by (induction xs arbitrary: p) auto

text \<open>A list under construction: its last page is the one whose link is set next.\<close>

definition building :: "(nat \<Rightarrow> nat option) \<Rightarrow> nat option \<Rightarrow> nat option \<Rightarrow> nat list \<Rightarrow> bool" where
  "building h p tp xs \<longleftrightarrow>
     (if xs = [] then tp = None else tp = Some (last xs) \<and> path h p (butlast xs) (Some (last xs)))"

abbreviation head_of :: "bool \<Rightarrow> two_lists \<Rightarrow> nat option" where
  "head_of high x \<equiv> (if high then head2 x else head1 x)"

abbreviation tail_of :: "bool \<Rightarrow> two_lists \<Rightarrow> nat option" where
  "tail_of high x \<equiv> (if high then tp1 x else tp0 x)"

lemma set_link_building:
  assumes b: "building (link_of k) (head_of high x) (tail_of high x) xs" and xs: "distinct xs" "\<forall>q \<in> set xs. q < length (pages k)"
    and r: "set_link high v (x, k) = (x', k')"
  shows "path (link_of k') (head_of high x') xs v" and "tp0 x' = tp0 x" and "tp1 x' = tp1 x"
    and "head_of (\<not> high) x' = head_of (\<not> high) x" and "q \<notin> set xs \<Longrightarrow> link_of k' q = link_of k q"
    and "globals_of k' = globals_of k" and "ref_of k' q = ref_of k q" and "kmem k' = kmem k" and "length (pages k') = length (pages k)"
proof -
  have "path (link_of k') (head_of high x') xs v \<and> tp0 x' = tp0 x \<and> tp1 x' = tp1 x \<and> head_of (\<not> high) x' = head_of (\<not> high) x \<and>
    (\<forall>q. q \<notin> set xs \<longrightarrow> link_of k' q = link_of k q) \<and> globals_of k' = globals_of k \<and> (\<forall>q. ref_of k' q = ref_of k q) \<and>
    kmem k' = kmem k \<and> length (pages k') = length (pages k)"
  proof (cases "xs = []")
    case True
    thus ?thesis using b r by (auto simp: building_def set_link_def)
  next
    case False
    hence t: "tail_of high x = Some (last xs)" "path (link_of k) (head_of high x) (butlast xs) (Some (last xs))"
      using b by (simp_all add: building_def)
    have l: "last xs < length (pages k)" "last xs \<in> set xs" "last xs \<notin> set (butlast xs)"
      using False xs by (cases xs rule: rev_cases; simp)+
    have k': "k' = upd_page (last xs) (\<lambda>p. p\<lparr>pp_link := v\<rparr>) k" "x' = x" using r t(1) by (simp_all add: set_link_def)
    have lk: "link_of k' q = (if q = last xs then v else link_of k q)" for q using l(1) by (auto simp: k')
    have "path (link_of k') (head_of high x) (butlast xs) (Some (last xs))"
      using t(2) path_cong [of "butlast xs" "link_of k'" "link_of k"] lk l(3) by metis
    hence "path (link_of k') (head_of high x) (butlast xs @ [last xs]) v"
      unfolding path_append using lk by auto
    moreover have "globals_of k' = globals_of k" "kmem k' = kmem k" "length (pages k') = length (pages k)" unfolding k' by simp_all
    moreover have "ref_of k' q = ref_of k q" for q using l(1) by (simp add: k') (simp add: ref_of_def)
    ultimately show ?thesis using False k'(2) l(2) lk by auto
  qed
  thus "path (link_of k') (head_of high x') xs v" "tp0 x' = tp0 x" "tp1 x' = tp1 x" "head_of (\<not> high) x' = head_of (\<not> high) x"
    "q \<notin> set xs \<Longrightarrow> link_of k' q = link_of k q" "globals_of k' = globals_of k" "ref_of k' q = ref_of k q" "kmem k' = kmem k"
    "length (pages k') = length (pages k)" by blast+
qed


definition low_page :: "u32 \<Rightarrow> nat \<Rightarrow> bool" where
  "low_page lim pp \<longleftrightarrow> PDX (page2pa pp) < lim"

definition sorting :: "u32 \<Rightarrow> kern \<Rightarrow> nat list \<Rightarrow> nat list \<Rightarrow> two_lists \<times> kern \<Rightarrow> bool" where
  "sorting lim k0 pre xs t \<longleftrightarrow>
     building (link_of (snd t)) (head1 (fst t)) (tp0 (fst t)) (filter (low_page lim) pre) \<and>
     building (link_of (snd t)) (head2 (fst t)) (tp1 (fst t)) (filter (\<lambda>x. \<not> low_page lim x) pre) \<and>
     (\<forall>q. q \<notin> set pre \<longrightarrow> link_of (snd t) q = link_of k0 q) \<and>
     globals_of (snd t) = globals_of k0 \<and> kmem (snd t) = kmem k0 \<and> (\<forall>q. ref_of (snd t) q = ref_of k0 q)"

lemma building_cong:
  "building h p tp xs \<Longrightarrow> (\<And>x. x \<in> set xs \<Longrightarrow> h x = h' x) \<Longrightarrow> building h' p tp xs"
  using path_cong [of "butlast xs" h h' p "Some (last xs)"] in_set_butlastD [of _ xs] by (auto simp: building_def)

lemma sort_page_step:
  assumes s: "sorting lim k0 pre (y # xs) t" and d: "distinct (pre @ y # xs)"
    and l: "\<forall>q \<in> set (pre @ y # xs). q < length (pages k0)"
  shows "y < length (pages (snd t)) \<and>
    (\<exists>t'. sort_page lim y t = Inr t' \<and> sorting lim k0 (pre @ [y]) xs t' \<and> pp_link (pages (snd t') ! y) = link_of k0 y)"
proof -
  obtain x k where t: "t = (x, k)" by (cases t)
  define high where "high = (\<not> low_page lim y)"
  let ?L = "\<lambda>b. filter (\<lambda>z. low_page lim z \<noteq> b)"
  have L: "?L False = filter (low_page lim)" "?L True = filter (\<lambda>z. \<not> low_page lim z)" by simp_all
  have len: "length (pages k) = length (pages k0)" using s by (simp add: sorting_def t globals_of_def)
  have b: "building (link_of k) (head_of b x) (tail_of b x) (?L b pre)" for b
    using s by (cases b) (simp_all add: sorting_def t)
  obtain x' k' where r: "set_link high (Some y) (x, k) = (x', k')" by (cases "set_link high (Some y) (x, k)")
  have di: "distinct (?L high pre)" "\<forall>q \<in> set (?L high pre). q < length (pages k)" using d l len by auto
  note sl = set_link_building [OF b di r]
  define x'' where "x'' = (if high then x'\<lparr>tp1 := Some y\<rparr> else x'\<lparr>tp0 := Some y\<rparr>)"
  have hx: "head_of b x'' = head_of b x'" for b by (simp add: x''_def)
  have ok: "sort_page lim y t = Inr (x'', k')"
    using r by (auto simp: sort_page_def t Let_def high_def low_page_def x''_def not_less)
  have ynot: "y \<notin> set pre" using d by auto
  have lk: "link_of k' q = link_of k0 q" if "q \<notin> set pre" for q
    using sl(5) [of q] s that by (auto simp: sorting_def t)
  have B: "building (link_of k') (head_of b x'') (tail_of b x'') (?L b (pre @ [y]))" for b
  proof (cases "b = high")
    case True
    hence "?L b (pre @ [y]) = ?L high pre @ [y]" by (simp add: high_def)
    thus ?thesis using sl(1) True hx [of high] by (auto simp: building_def x''_def)
  next
    case False
    hence e: "?L b (pre @ [y]) = ?L b pre" "b = (\<not> high)" by (auto simp: high_def)
    have "building (link_of k') (head_of b x) (tail_of b x) (?L b pre)"
      by (rule building_cong [OF b]) (use sl(5) False e(2) in \<open>auto\<close>)
    moreover have "tail_of b x'' = tail_of b x" "head_of b x'' = head_of b x"
      using sl(2,3,4) hx [of b] e(2) by (auto simp: x''_def)
    ultimately show ?thesis unfolding e(1) by (simp only:)
  qed
  have "sorting lim k0 (pre @ [y]) xs (x'', k')"
    using B [of False] B [of True] lk sl(6-8) s unfolding L by (auto simp: sorting_def t)
  moreover have "y < length (pages k')" using l len sl(9) by auto
  ultimately show ?thesis using ok lk [OF ynot] len l by (auto simp: link_of_def t)
qed

lemma low_pages_first_result:
  assumes fr: "frees s fl"
  obtains s' where "low_pages_first lim s = Some (Inr s')"
    "frees s' (filter (low_page lim) fl @ filter (\<lambda>x. \<not> low_page lim x) fl)"
    "globals_of s' = globals_of s" "kmem s' = kmem s" "\<And>q. ref_of s' q = ref_of s q"
proof -
  let ?x0 = "\<lparr>head1 = None, head2 = None, tp0 = None, tp1 = None\<rparr>"
  let ?lo = "filter (low_page lim) fl" and ?hi = "filter (\<lambda>x. \<not> low_page lim x) fl"
  have fs: "distinct fl" "\<forall>q \<in> set fl. q < length (pages s)" "linked (link_of s) (page_free_list s) fl"
    using fr by (auto simp: frees_def)
  let ?I = "\<lambda>xs t. \<exists>pre. fl = pre @ xs \<and> sorting lim s pre xs t"
  have "\<exists>t. each_free (sort_page lim) (page_free_list s) (?x0, s) = Some (Inr t) \<and> ?I [] t"
  proof (rule each_free_ok [where I = ?I, OF fs(3)])
    show "?I fl (?x0, s)" by (rule exI [of _ "[]"]) (simp add: sorting_def building_def)
    fix y xs t assume "?I (y # xs) t"
    then obtain pre where d: "fl = pre @ y # xs" "sorting lim s pre (y # xs) t" by blast
    have "distinct (pre @ y # xs)" "\<forall>q \<in> set (pre @ y # xs). q < length (pages s)" using fs d(1) by auto
    from sort_page_step [OF d(2) this] d(1)
    show "y < length (pages (snd t)) \<and> (\<exists>t'. sort_page lim y t = Inr t' \<and> ?I xs t' \<and> pp_link (pages (snd t') ! y) = link_of s y)"
      by auto
  qed
  then obtain x k where t: "each_free (sort_page lim) (page_free_list s) (?x0, s) = Some (Inr (x, k))" "sorting lim s fl [] (x, k)"
    by auto
  have len: "length (pages k) = length (pages s)" using t(2) by (simp add: sorting_def globals_of_def)
  have b1: "building (link_of k) (head_of False x) (tail_of False x) ?lo" and b2: "building (link_of k) (head_of True x) (tail_of True x) ?hi"
    using t(2) by (simp_all add: sorting_def)
  obtain x1 k1 where r1: "set_link True None (x, k) = (x1, k1)" by (cases "set_link True None (x, k)")
  have dh: "distinct ?hi" "\<forall>q \<in> set ?hi. q < length (pages k)" using fs len by auto
  note s1 = set_link_building [OF b2 dh r1]
  have b1': "building (link_of k1) (head_of False x1) (tail_of False x1) ?lo"
    using building_cong [OF b1, of "link_of k1"] s1(2,4,5) by auto
  obtain x2 k2 where r2: "set_link False (head2 x1) (x1, k1) = (x2, k2)" by (cases "set_link False (head2 x1) (x1, k1)")
  have dl: "distinct ?lo" "\<forall>q \<in> set ?lo. q < length (pages k1)" using fs len s1(9) by auto
  note s2 = set_link_building [OF b1' dl r2]
  have "path (link_of k2) (head2 x1) ?hi None"
    using s1(1) path_cong [of ?hi "link_of k2" "link_of k1"] s2(5) by auto
  hence "path (link_of k2) (head1 x2) (?lo @ ?hi) None" unfolding path_append using s2(1) by auto
  hence lk: "linked (link_of k2) (head1 x2) (?lo @ ?hi)" by (simp add: path_linked)
  define s' where "s' = k2\<lparr>page_free_list := head1 x2\<rparr>"
  have g: "globals_of s' = globals_of s" "kmem s' = kmem s" using t(2) s1(6,8) s2(6,8) by (simp_all add: s'_def sorting_def)
  have rf: "ref_of s' q = ref_of s q" for q
    using t(2) s1(7) s2(7) by (simp add: s'_def sorting_def ref_of_def)
  have lq: "link_of s' q = link_of s q" if "q \<notin> set fl" for q
    using t(2) s1(5) [of q] s2(5) [of q] that by (simp add: s'_def sorting_def link_of_def)
  have "link_of s' = link_of k2" by (simp add: s'_def link_of_def fun_eq_iff)
  hence "frees s' (?lo @ ?hi)"
    using fr lk lq rf globals_ofD [OF g(1)] by (auto simp: frees_def s'_def)
  moreover have "low_pages_first lim s = Some (Inr s')"
    using t(1) r1 r2 by (simp add: low_pages_first_def s'_def)
  ultimately show thesis using that g rf by blast
qed


section \<open>check_page_free_list passes\<close>

lemma trash_pages:
  assumes fr: "frees s fl"
  shows "\<exists>m. each_free (trash_page lim) (page_free_list s) ((), s) = Some (Inr ((), s\<lparr>kmem := m\<rparr>)) \<and>
    (\<forall>a. (\<forall>x \<in> set fl. \<not> in_page x a) \<longrightarrow> m a = kmem s a)"
proof -
  let ?I = "\<lambda>xs t. set xs \<subseteq> set fl \<and>
    (\<exists>m. t = ((), s\<lparr>kmem := m\<rparr>) \<and> (\<forall>a. (\<forall>x \<in> set fl. \<not> in_page x a) \<longrightarrow> m a = kmem s a))"
  have l: "linked (link_of s) (page_free_list s) fl" using fr by (simp add: frees_def)
  have "\<exists>t. each_free (trash_page lim) (page_free_list s) ((), s) = Some (Inr t) \<and> ?I [] t"
  proof (rule each_free_ok [where I = ?I, OF l])
    show "?I fl ((), s)" by (auto intro!: exI [of _ "kmem s"])
    fix x xs t assume "?I (x # xs) t"
    then obtain m where m: "t = ((), s\<lparr>kmem := m\<rparr>)" "\<forall>a. (\<forall>x \<in> set fl. \<not> in_page x a) \<longrightarrow> m a = kmem s a"
      and sub: "set (x # xs) \<subseteq> set fl" by auto
    have x: "x \<in> set fl" "x < length (pages s)" "x < 0x10000" using sub fr frees_bounds(4) [OF fr] by (auto simp: frees_def)
    have k: "page2kva s x = Inr (page_kva x)" using KADDR_page2pa [of x s] frees_bounds(1) [OF fr] x by (simp add: page_kva_def)
    show "x < length (pages (snd t)) \<and> (\<exists>t'. trash_page lim x t = Inr t' \<and> ?I xs t' \<and> pp_link (pages (snd t') ! x) = link_of s x)"
    proof (cases "PDX (page2pa x) < lim")
      case True
      have "trash_page lim x t = Inr ((), s\<lparr>kmem := memset m (page_kva x) 0x97 128\<rparr>)"
        using True k m(1) by (simp add: trash_page_def fill_page_def)
      moreover have "memset m (page_kva x) 0x97 128 a = kmem s a" if "\<forall>x \<in> set fl. \<not> in_page x a" for a
      proof -
        have "\<not> in_page x a" using that x(1) by blast
        thus ?thesis using m(2) that by (simp add: memset_fill fill_def in_page_def)
      qed
      ultimately show ?thesis using x(2) sub m(1) by (auto simp: link_of_def)
    next
      case False
      hence "trash_page lim x t = Inr t" using m(1) by (simp add: trash_page_def)
      thus ?thesis using x(2) sub m by (auto simp: link_of_def)
    qed
  qed
  thus ?thesis by auto
qed

definition free_pages_ok :: "kern \<Rightarrow> nat list \<Rightarrow> bool" where
  "free_pages_ok s fl \<longleftrightarrow>
     (\<forall>x \<in> set fl. x \<notin> {0, 160, 255, 256} \<and> (x \<ge> 256 \<longrightarrow> page_kva x \<ge> nextfree s)) \<and>
     (\<exists>x \<in> set fl. x < 256) \<and> (\<exists>x \<in> set fl. x \<ge> 256)"

lemma page2pa_cmp: "x < 0x10000 \<Longrightarrow> y < 0x10000 \<Longrightarrow> (page2pa x = page2pa y \<longleftrightarrow> x = y) \<and> (page2pa x < page2pa y \<longleftrightarrow> x < y)"
  using unat_page2pa [of x] unat_page2pa [of y] by (simp add: word_unat_eq_iff word_less_nat_alt)

definition fine_page :: "u32 \<Rightarrow> nat \<Rightarrow> bool" where
  "fine_page first x \<longleftrightarrow> x \<notin> {0, 160, 255, 256} \<and> (x \<ge> 256 \<longrightarrow> page_kva x \<ge> first)"

lemma check_free_page_result:
  assumes x: "x < 0x10000" "x < unat (npages s)"
  shows "check_free_page first x ((b, e), s) =
    (if fine_page first x then Inr (if x < 256 then (b + 1, e) else (b, e + 1), s) else Inl failed)"
proof -
  have k: "page2kva s x = Inr (page_kva x)" using KADDR_page2pa [of x s] x by (simp add: page_kva_def)
  have pa: "page2pa 0 = 0" "page2pa 160 = 0xA0000" "page2pa 255 = 0xFF000" "page2pa 256 = 0x100000"
    by (simp_all add: page2pa_def PGSHIFT_def)
  note cmp = page2pa_cmp [OF x(1), unfolded PGSIZE_def]
  have n: "page2pa x = 0 \<longleftrightarrow> x = 0" "page2pa x = 0xA0000 \<longleftrightarrow> x = 160" "page2pa x = 0xFF000 \<longleftrightarrow> x = 255"
    "page2pa x = 0x100000 \<longleftrightarrow> x = 256" "page2pa x < 0x100000 \<longleftrightarrow> x < 256"
    using cmp [of 0] cmp [of 160] cmp [of 255] cmp [of 256] unfolding pa by simp_all
  show ?thesis using n k
    by (cases "x \<in> {0, 160, 255, 256}"; cases "x < 256") (auto simp: check_free_page_def fine_page_def ensure_def ensure_that_def)
qed

lemma check_free_pages:
  assumes "linked (link_of s) p xs" and "\<forall>x \<in> set xs. x < length (pages s) \<and> x < 0x10000 \<and> x < unat (npages s)"
  shows "each_free (check_free_page first) p ((b, e), s) =
     Some (if list_all (fine_page first) xs
       then Inr ((b + length (filter (\<lambda>x. x < 256) xs), e + length (filter (\<lambda>x. x \<ge> 256) xs)), s) else Inl failed)"
  using assms
proof (induction xs arbitrary: p b e)
  case (Cons x xs)
  have x: "p = Some x" "x < length (pages s)" "x < 0x10000" "x < unat (npages s)" using Cons.prems by simp_all
  have l: "linked (link_of s) (link_of s x) xs" "\<forall>x \<in> set xs. x < length (pages s) \<and> x < 0x10000 \<and> x < unat (npages s)"
    using Cons.prems by simp_all
  note ih = Cons.IH [OF l, unfolded link_of_def]
  show ?case using x ih check_free_page_result [OF x(3,4), of first b e]
    by (cases "x < 256") (simp_all add: each_free.simps)
qed (simp add: each_free.simps)

lemma filter_some: "filter P xs \<noteq> [] \<longleftrightarrow> (\<exists>x \<in> set xs. P x)"
  by (auto simp: filter_empty_conv)

lemma free_pages_ok_fine:
  "free_pages_ok s fl \<longleftrightarrow> list_all (fine_page (nextfree s)) fl \<and> filter (\<lambda>x. x < 256) fl \<noteq> [] \<and> filter (\<lambda>x. x \<ge> 256) fl \<noteq> []"
  unfolding free_pages_ok_def fine_page_def list_all_iff filter_some ..

lemma check_page_free_list_result:
  assumes fr: "frees s fl" and ne: "fl \<noteq> []" and nf: "nextfree s \<noteq> 0"
  defines "low \<equiv> filter (low_page 1) fl @ filter (\<lambda>x. \<not> low_page 1 x) fl"
  obtains s' where "check_page_free_list kend only_low s = Some (if free_pages_ok s fl then Inr s' else Inl failed)"
    "frees s' (if only_low then low else fl)" "globals_of s' = globals_of s" "\<And>q. ref_of s' q = ref_of s q"
    "\<And>a. (\<And>x. x \<in> set fl \<Longrightarrow> \<not> in_page x a) \<Longrightarrow> kmem s' a = kmem s a"
proof -
  let ?fl = "if only_low then low else fl" and ?lim = "if only_low then 1 else NPDENTRIES"
  have st: "set ?fl = set fl" by (auto simp: low_def)
  obtain t where t: "(if only_low then low_pages_first 1 s else Some (Inr s)) = Some (Inr t)"
    "frees t ?fl" "globals_of t = globals_of s" "kmem t = kmem s" "\<And>q. ref_of t q = ref_of s q"
  proof (cases only_low)
    case True
    thus thesis using low_pages_first_result [OF fr, of 1] that by (auto simp: low_def)
  qed (use fr that in auto)
  obtain m where m: "each_free (trash_page ?lim) (page_free_list t) ((), t) = Some (Inr ((), t\<lparr>kmem := m\<rparr>))"
    "\<forall>a. (\<forall>x \<in> set ?fl. \<not> in_page x a) \<longrightarrow> m a = kmem t a"
    using trash_pages [OF t(2), of ?lim] by blast
  define s' where "s' = t\<lparr>kmem := m\<rparr>"
  have fs: "frees s' ?fl" using t(2) by (simp add: s'_def)
  have g: "globals_of s' = globals_of s" using t(3) by (simp add: s'_def)
  have n: "nextfree s' = nextfree s" using globals_ofD(5) [OF g] .
  have ok: "free_pages_ok s' ?fl \<longleftrightarrow> free_pages_ok s fl" unfolding free_pages_ok_def st n by simp
  have l: "linked (link_of s') (page_free_list s') ?fl" unfolding frees_def using fs by (simp only: frees_def)
  have b: "\<forall>x \<in> set ?fl. x < length (pages s') \<and> x < 0x10000 \<and> x < unat (npages s')"
    using frees_bounds(1) [OF fs] frees_bounds(3,4) [OF fs] by simp
  define L where "L = ?fl"
  have ch: "each_free (check_free_page (nextfree s')) (page_free_list s') ((0, 0), s') =
     Some (if list_all (fine_page (nextfree s')) L
       then Inr ((length (filter (\<lambda>x. x < 256) L), length (filter (\<lambda>x. x \<ge> 256) L)), s') else Inl failed)"
    using check_free_pages [OF l b, of "nextfree s'" 0 0] by (simp add: L_def)
  have okL: "free_pages_ok s fl \<longleftrightarrow> list_all (fine_page (nextfree s')) L \<and> filter (\<lambda>x. x < 256) L \<noteq> [] \<and> filter (\<lambda>x. x \<ge> 256) L \<noteq> []"
    unfolding L_def by (rule ok [THEN sym, THEN trans, OF free_pages_ok_fine])
  have "(case (if list_all (fine_page (nextfree s')) L
       then Inr ((length (filter (\<lambda>x. x < 256) L), length (filter (\<lambda>x. x \<ge> 256) L)), s') else Inl failed) of
       Inl e \<Rightarrow> Inl e | Inr ((base, ext), s) \<Rightarrow> steps [ensure (\<lambda>s. 0 < base), ensure (\<lambda>s. 0 < ext)] s) =
     (if free_pages_ok s fl then Inr s' else Inl failed)"
    unfolding okL
    by (cases "list_all (fine_page (nextfree s')) L"; cases "filter (\<lambda>x. x < 256) L = []"; cases "filter (\<lambda>x. x \<ge> 256) L = []")
       (simp_all add: ensure_def)
  note fin = this
  have pf: "page_free_list s \<noteq> None" using ne fr by (cases fl) (auto simp: frees_def)
  have td: "then_do (Some r) (\<lambda>((base, ext), s). Some (f base ext s)) =
      Some (case r of Inl e \<Rightarrow> Inl e | Inr ((base, ext), s) \<Rightarrow> f base ext s)" for r :: "kerr + ((nat \<times> nat) \<times> kern)" and f :: "nat \<Rightarrow> nat \<Rightarrow> kern \<Rightarrow> kerr + kern"
    by (cases r) (auto split: prod.splits)
  have s't: "then_do (each_free (trash_page ?lim) (page_free_list t) ((), t)) k = k ((), s')" for k :: "unit \<times> kern \<Rightarrow> (kerr + kern) option"
    by (simp only: m(1) then_do.simps s'_def)
  have t1: "then_do (if only_low then low_pages_first ?lim s else Some (Inr s)) k = k t" for k :: "kern \<Rightarrow> (kerr + kern) option"
    using t(1) by (cases only_low) simp_all
  have ba: "boot_alloc kend 0 s' = (nextfree s', s')" using nf n boot_alloc_zero [of s' kend] by simp
  show thesis
  proof (rule that [of s'])
    show "check_page_free_list kend only_low s = Some (if free_pages_ok s fl then Inr s' else Inl failed)"
      unfolding check_page_free_list_def Let_def
      by (simp only: pf t1 s't if_False prod.case ba ch td fin)
    show "ref_of s' q = ref_of s q" for q using t(5) by (simp add: s'_def ref_of_def)
    show "kmem s' a = kmem s a" if "\<And>x. x \<in> set fl \<Longrightarrow> \<not> in_page x a" for a
      using m(2) that t(4) st by (simp add: s'_def)
  qed (use fs g in auto)
qed

lemma check_page_free_list_empty:
  "page_free_list s = None \<Longrightarrow> check_page_free_list kend only_low s = Some (Inl (Panic ''page_free_list is a null pointer!''))"
  by (simp add: check_page_free_list_def Let_def)

lemma check_page_free_list_passes:
  assumes fr: "frees s fl" and ok: "free_pages_ok s fl" and nf: "nextfree s \<noteq> 0"
  defines "low \<equiv> filter (low_page 1) fl @ filter (\<lambda>x. \<not> low_page 1 x) fl"
  obtains s' where "check_page_free_list kend only_low s = Some (Inr s')"
    "frees s' (if only_low then low else fl)" "globals_of s' = globals_of s" "\<And>q. ref_of s' q = ref_of s q"
    "\<And>a. (\<And>x. x \<in> set fl \<Longrightarrow> \<not> in_page x a) \<Longrightarrow> kmem s' a = kmem s a"
proof -
  have ne: "fl \<noteq> []" using ok by (auto simp: free_pages_ok_def)
  show thesis
    by (rule check_page_free_list_result [OF fr ne nf, of kend only_low, folded low_def]) (use ok in \<open>auto intro: that\<close>)
qed

end
