(* ===== verification/Jos_Env.thy ===== *)
theory Jos_Env
  imports Jos_PageTable
begin

text \<open>
  Environments of \<open>kern/env.c\<close> with the structures of \<open>inc/env.h\<close>, \<open>inc/trap.h\<close> and
  \<open>inc/elf.h\<close>: the descriptor table, \<open>envid2env\<close>, \<open>env_init\<close>, \<open>env_setup_vm\<close>,
  \<open>env_alloc\<close>, \<open>region_alloc\<close>, \<open>load_icode\<close>, \<open>env_create\<close>, \<open>env_free\<close>, \<open>env_run\<close>, and
  \<open>user_mem_check\<close> of \<open>kern/pmap.c\<close>.

  A pointer into \<open>envs\<close> is its index. While an environment's page directory is loaded, the
  kernel reaches user addresses through the page tables: \<open>vaddr\<close> is the translation the
  processor makes. Kernel addresses go through the window at \<open>KERNBASE\<close>.
\<close>

section \<open>Data (inc/trap.h, inc/env.h, inc/elf.h)\<close>

record PushRegs =
  reg_edi :: u32
  reg_esi :: u32
  reg_ebp :: u32
  reg_oesp :: u32
  reg_ebx :: u32
  reg_edx :: u32
  reg_ecx :: u32
  reg_eax :: u32

record Trapframe =
  tf_regs :: PushRegs
  tf_es :: u16
  tf_ds :: u16
  tf_trapno :: u32
  tf_err :: u32
  tf_eip :: u32
  tf_cs :: u16
  tf_eflags :: u32
  tf_esp :: u32
  tf_ss :: u16

definition zero_regs :: PushRegs where
  "zero_regs = \<lparr>reg_edi = 0, reg_esi = 0, reg_ebp = 0, reg_oesp = 0,
     reg_ebx = 0, reg_edx = 0, reg_ecx = 0, reg_eax = 0\<rparr>"

definition zero_tf :: Trapframe where
  "zero_tf = \<lparr>tf_regs = zero_regs, tf_es = 0, tf_ds = 0, tf_trapno = 0, tf_err = 0, tf_eip = 0,
     tf_cs = 0, tf_eflags = 0, tf_esp = 0, tf_ss = 0\<rparr>"

definition LOG2NENV :: nat where [simp]: "LOG2NENV = 10"
definition NENV :: nat where [simp]: "NENV = 2 ^ LOG2NENV"

definition ENVX :: "u32 \<Rightarrow> u32" where
  "ENVX envid = envid AND (of_nat NENV - 1)"

datatype EnvStatus = ENV_FREE | ENV_DYING | ENV_RUNNABLE | ENV_RUNNING | ENV_NOT_RUNNABLE

datatype EnvType = ENV_TYPE_USER

record Env =
  env_tf :: Trapframe
  env_link :: "nat option"
  env_id :: u32
  env_parent_id :: u32
  env_type :: EnvType
  env_status :: EnvStatus
  env_runs :: u32
  env_pgdir :: u32

definition ELF_MAGIC :: u32 where [simp]: "ELF_MAGIC = 0x464C457F"
definition ELF_PROG_LOAD :: u32 where [simp]: "ELF_PROG_LOAD = 1"

text \<open>The fields of \<open>struct Elf\<close> and \<open>struct Proghdr\<close> that are used, by their offsets.\<close>

definition ld16 :: "mem \<Rightarrow> u32 \<Rightarrow> u16" where
  "ld16 m a = ucast (m a) OR push_bit 8 (ucast (m (a + 1)))"

record Elf =
  e_magic :: u32
  e_entry :: u32
  e_phoff :: u32
  e_phnum :: u16

definition read_Elf :: "mem \<Rightarrow> u32 \<Rightarrow> Elf" where
  "read_Elf m a = \<lparr>e_magic = ld32 m a, e_entry = ld32 m (a + 24), e_phoff = ld32 m (a + 28),
     e_phnum = ld16 m (a + 44)\<rparr>"

record Proghdr =
  p_type :: u32
  p_offset :: u32
  p_va :: u32
  p_pa :: u32
  p_filesz :: u32
  p_memsz :: u32

definition read_Proghdr :: "mem \<Rightarrow> u32 \<Rightarrow> Proghdr" where
  "read_Proghdr m a = \<lparr>p_type = ld32 m a, p_offset = ld32 m (a + 4), p_va = ld32 m (a + 8),
     p_pa = ld32 m (a + 12), p_filesz = ld32 m (a + 16), p_memsz = ld32 m (a + 20)\<rparr>"

text \<open>The processor registers that the kernel sets, and the globals of \<open>kern/env.c\<close>.\<close>

record cpu =
  cr0 :: u32
  cr3 :: u32
  gdtr :: "Segdesc list"
  ldtr :: u16
  seg_gs :: u16
  seg_fs :: u16
  seg_es :: u16
  seg_ds :: u16
  seg_ss :: u16
  seg_cs :: u16

record ekern =
  krn :: kern
  envs :: "Env list"
  curenv :: "nat option"
  env_free_list :: "nat option"
  gdt :: "Segdesc list"
  hw :: cpu

definition gdt_init :: "Segdesc list" where
  "gdt_init = [SEG_NULL,
     SEG (STA_X OR STA_R) 0 0xffffffff 0,
     SEG STA_W 0 0xffffffff 0,
     SEG (STA_X OR STA_R) 0 0xffffffff 3,
     SEG STA_W 0 0xffffffff 3,
     SEG_NULL]"

definition E_BAD_ENV :: int where [simp]: "E_BAD_ENV = 2"
definition E_NO_FREE_ENV :: int where [simp]: "E_NO_FREE_ENV = 5"

definition upd_env :: "nat \<Rightarrow> (Env \<Rightarrow> Env) \<Rightarrow> ekern \<Rightarrow> ekern" where
  "upd_env i f s = s\<lparr>envs := (envs s)[i := f (envs s ! i)]\<rparr>"

text \<open>Loading \<open>%cr3\<close> also drops all cached translations.\<close>

definition lcr3 :: "u32 \<Rightarrow> ekern \<Rightarrow> ekern" where
  "lcr3 pa s = s\<lparr>hw := (hw s)\<lparr>cr3 := pa\<rparr>, krn := (krn s)\<lparr>tlb := (\<lambda>_. False)\<rparr>\<rparr>"

section \<open>Lookup, initialisation and allocation\<close>

text \<open>The result is the return value and the pointer stored through \<open>env_store\<close>.
  \<open>curenv->env_id\<close> is read only with a current environment.\<close>

definition envid2env :: "u32 \<Rightarrow> bool \<Rightarrow> ekern \<Rightarrow> kerr + (int \<times> nat option)" where
  "envid2env envid checkperm s =
     (if envid = 0 then Inr (0, curenv s)
      else let e = unat (ENVX envid) in
        if e \<ge> length (envs s) then Inl (Wild e)
        else if env_status (envs s ! e) = ENV_FREE \<or> env_id (envs s ! e) \<noteq> envid
        then Inr (- E_BAD_ENV, None)
        else if checkperm \<and> Some e \<noteq> curenv s
        then (case curenv s of
                None \<Rightarrow> Inl (Page_fault 72)
              | Some c \<Rightarrow>
                  if c \<ge> length (envs s) then Inl (Wild c)
                  else if env_parent_id (envs s ! e) \<noteq> env_id (envs s ! c) then Inr (- E_BAD_ENV, None)
                  else Inr (0, Some e))
        else Inr (0, Some e))"

definition env_init_percpu :: "ekern \<Rightarrow> ekern" where
  "env_init_percpu s = s\<lparr>hw := (hw s)\<lparr>gdtr := gdt s,
     seg_gs := ucast (GD_UD OR 3), seg_fs := ucast (GD_UD OR 3),
     seg_es := ucast GD_KD, seg_ds := ucast GD_KD, seg_ss := ucast GD_KD,
     seg_cs := ucast GD_KT, ldtr := 0\<rparr>\<rparr>"

fun env_init_loop :: "nat \<Rightarrow> ekern \<Rightarrow> ekern" where
  "env_init_loop 0 s = s"
| "env_init_loop (Suc i) s =
     (let s = upd_env i (\<lambda>e. e\<lparr>env_id := 0, env_status := ENV_FREE, env_link := env_free_list s\<rparr>) s
      in env_init_loop i (s\<lparr>env_free_list := Some i\<rparr>))"

definition env_init :: "ekern \<Rightarrow> ekern" where
  "env_init s = env_init_percpu (env_init_loop NENV s)"

definition env_setup_vm :: "nat \<Rightarrow> ekern \<Rightarrow> kerr + (int \<times> ekern)" where
  "env_setup_vm e s =
     res_bind (page_alloc ALLOC_ZERO (krn s)) (\<lambda>(p, k).
       case p of
         None \<Rightarrow> Inr (- E_NO_MEM, s\<lparr>krn := k\<rparr>)
       | Some p \<Rightarrow>
           res_bind (page2kva k p) (\<lambda>pgdir.
             let k = k\<lparr>kmem := memcpy (kmem k) pgdir (kern_pgdir k) PGSIZE\<rparr>;
                 k = upd_page p (\<lambda>p. p\<lparr>pp_ref := pp_ref p + 1\<rparr>) k
             in res_bind (PADDR pgdir) (\<lambda>pa.
               let k = k\<lparr>kmem := st32 (kmem k) (pgdir + 4 * PDX UVPT) (pa OR PTE_P OR PTE_U)\<rparr>
               in Inr (0, upd_env e (\<lambda>e. e\<lparr>env_pgdir := pgdir\<rparr>) (s\<lparr>krn := k\<rparr>)))))"

definition ENVGENSHIFT :: nat where [simp]: "ENVGENSHIFT = 12"

definition next_generation :: "u32 \<Rightarrow> u32" where
  "next_generation eid =
     (let generation = (eid + push_bit ENVGENSHIFT 1) AND NOT (of_nat NENV - 1)
      in if generation <=s 0 then push_bit ENVGENSHIFT 1 else generation)"

definition env_alloc :: "u32 \<Rightarrow> ekern \<Rightarrow> kerr + (int \<times> nat option \<times> ekern)" where
  "env_alloc parent_id s =
     (case env_free_list s of
        None \<Rightarrow> Inr (- E_NO_FREE_ENV, None, s)
      | Some e \<Rightarrow>
          if e \<ge> length (envs s) then Inl (Wild e)
          else res_bind (env_setup_vm e s) (\<lambda>(r, s).
            if r < 0 then Inr (r, None, s)
            else
              let generation = next_generation (env_id (envs s ! e));
                  tf = zero_tf\<lparr>tf_ds := ucast (GD_UD OR 3), tf_es := ucast (GD_UD OR 3),
                         tf_ss := ucast (GD_UD OR 3), tf_esp := USTACKTOP, tf_cs := ucast (GD_UT OR 3)\<rparr>;
                  s = upd_env e (\<lambda>v. v\<lparr>env_id := generation OR of_nat e, env_parent_id := parent_id,
                         env_type := ENV_TYPE_USER, env_status := ENV_RUNNABLE, env_runs := 0,
                         env_tf := tf\<rparr>) s
              in Inr (0, Some e, s\<lparr>env_free_list := env_link (envs s ! e)\<rparr>)))"

section \<open>Loading a program\<close>

fun region_alloc_loop :: "nat \<Rightarrow> u32 \<Rightarrow> u32 \<Rightarrow> kern \<Rightarrow> kerr + kern" where
  "region_alloc_loop 0 pgdir va_start k = Inr k"
| "region_alloc_loop (Suc n) pgdir va_start k =
     res_bind (page_alloc 0 k) (\<lambda>(pginfo, k).
       case pginfo of
         None \<Rightarrow> Inl (Panic ''region_alloc'')
       | Some pginfo \<Rightarrow>
           res_bind (page_insert pgdir pginfo va_start (PTE_W OR PTE_U OR PTE_P) k) (\<lambda>(r, k).
             if r < 0 then Inl (Panic ''region_alloc'')
             else region_alloc_loop n pgdir (va_start + PGSIZE) k))"

definition region_alloc :: "u32 \<Rightarrow> u32 \<Rightarrow> u32 \<Rightarrow> kern \<Rightarrow> kerr + kern" where
  "region_alloc pgdir va len k =
     (let pgnum = ROUNDUP len PGSIZE div PGSIZE; va_start = ROUNDDOWN va PGSIZE
      in region_alloc_loop (unat pgnum) pgdir va_start k)"

text \<open>The address in the kernel window of the byte at virtual address \<open>va\<close>: the walk of the
  processor from \<open>%cr3\<close>. A write needs \<open>PTE_W\<close> at both levels, because \<open>CR0_WP\<close> is set.\<close>

definition vaddr :: "u32 \<Rightarrow> bool \<Rightarrow> kern \<Rightarrow> u32 \<Rightarrow> kerr + u32" where
  "vaddr pd write k va =
     (if va \<ge> KERNBASE then Inr va
      else
        let pde = ld32 (kmem k) (pd + KERNBASE + 4 * PDX va) in
        if \<not> present pde \<or> (write \<and> pde AND PTE_W = 0) then Inl (Page_fault va)
        else
          let pte = ld32 (kmem k) (PTE_ADDR pde + KERNBASE + 4 * PTX va) in
          if \<not> present pte \<or> (write \<and> pte AND PTE_W = 0) then Inl (Page_fault va)
          else Inr (PTE_ADDR pte + PGOFF va + KERNBASE))"

fun vcopy_up :: "nat \<Rightarrow> u32 \<Rightarrow> u32 \<Rightarrow> u32 \<Rightarrow> kern \<Rightarrow> kerr + kern" where
  "vcopy_up 0 pd dst src k = Inr k"
| "vcopy_up (Suc n) pd dst src k =
     res_bind (vaddr pd False k src) (\<lambda>a.
     res_bind (vaddr pd True k dst) (\<lambda>b.
       vcopy_up n pd (dst + 1) (src + 1) (k\<lparr>kmem := (kmem k)(b := kmem k a)\<rparr>)))"

fun vcopy_down :: "nat \<Rightarrow> u32 \<Rightarrow> u32 \<Rightarrow> u32 \<Rightarrow> kern \<Rightarrow> kerr + kern" where
  "vcopy_down 0 pd dst src k = Inr k"
| "vcopy_down (Suc n) pd dst src k =
     res_bind (vaddr pd False k src) (\<lambda>a.
     res_bind (vaddr pd True k dst) (\<lambda>b.
       vcopy_down n pd (dst - 1) (src - 1) (k\<lparr>kmem := (kmem k)(b := kmem k a)\<rparr>)))"

definition vmemcpy :: "u32 \<Rightarrow> u32 \<Rightarrow> u32 \<Rightarrow> u32 \<Rightarrow> kern \<Rightarrow> kerr + kern" where
  "vmemcpy pd dst src n k =
     (if src < dst \<and> src + n > dst then vcopy_down (unat n) pd (dst + n - 1) (src + n - 1) k
      else vcopy_up (unat n) pd dst src k)"

fun vfill :: "nat \<Rightarrow> u32 \<Rightarrow> u32 \<Rightarrow> u8 \<Rightarrow> kern \<Rightarrow> kerr + kern" where
  "vfill 0 pd dst c k = Inr k"
| "vfill (Suc n) pd dst c k =
     res_bind (vaddr pd True k dst) (\<lambda>b.
       vfill n pd (dst + 1) c (k\<lparr>kmem := (kmem k)(b := c)\<rparr>))"

definition load_segment :: "u32 \<Rightarrow> u32 \<Rightarrow> u32 \<Rightarrow> Proghdr \<Rightarrow> kern \<Rightarrow> kerr + kern" where
  "load_segment pd pgdir binary ph k =
     (if p_type ph = ELF_PROG_LOAD then
        if p_filesz ph > p_memsz ph
        then Inl (Panic ''load_icode: file size is greater than memory size'')
        else
          res_bind (region_alloc pgdir (p_va ph) (p_memsz ph) k) (\<lambda>k.
          res_bind (vmemcpy pd (p_va ph) (binary + p_offset ph) (p_filesz ph) k) (\<lambda>k.
            vfill (unat (p_memsz ph - p_filesz ph)) pd (p_va ph + p_filesz ph) 0 k))
      else Inr k)"

text \<open>\<open>for (; ph < eph; ph++)\<close>: since \<open>eph = ph + e_phnum\<close>, \<open>e_phnum\<close> rounds are enough.\<close>

fun load_segments :: "nat \<Rightarrow> u32 \<Rightarrow> u32 \<Rightarrow> u32 \<Rightarrow> u32 \<Rightarrow> u32 \<Rightarrow> kern \<Rightarrow> kerr + kern" where
  "load_segments 0 pd pgdir binary ph eph k = Inr k"
| "load_segments (Suc n) pd pgdir binary ph eph k =
     (if ph < eph
      then res_bind (load_segment pd pgdir binary (read_Proghdr (kmem k) ph) k)
             (load_segments n pd pgdir binary (ph + 32) eph)
      else Inr k)"

definition load_icode :: "nat \<Rightarrow> u32 \<Rightarrow> ekern \<Rightarrow> kerr + ekern" where
  "load_icode e binary s =
     (let elf = read_Elf (kmem (krn s)) binary; pgdir = env_pgdir (envs s ! e) in
      if e_magic elf \<noteq> ELF_MAGIC then Inl (Panic ''load_icode: not an ELF file'')
      else
        let ph = binary + e_phoff elf; eph = ph + 32 * ucast (e_phnum elf) in
        res_bind (PADDR pgdir) (\<lambda>pd.
        let s = lcr3 pd s in
        res_bind (load_segments (unat (e_phnum elf)) pd pgdir binary ph eph (krn s)) (\<lambda>k.
        let s = upd_env e (\<lambda>v. v\<lparr>env_tf := (env_tf v)\<lparr>tf_eip := ld32 (kmem k) (binary + 24)\<rparr>\<rparr>) (s\<lparr>krn := k\<rparr>) in
        res_bind (region_alloc pgdir (USTACKTOP - PGSIZE) PGSIZE (krn s)) (\<lambda>k.
        res_bind (PADDR (kern_pgdir k)) (\<lambda>kpd. Inr (lcr3 kpd (s\<lparr>krn := k\<rparr>)))))))"

definition env_create :: "u32 \<Rightarrow> EnvType \<Rightarrow> ekern \<Rightarrow> kerr + ekern" where
  "env_create binary type s =
     res_bind (env_alloc 0 s) (\<lambda>(rc, e, s).
       if rc \<noteq> 0 then Inl (Panic ''env_create failed: env_alloc failed.'')
       else (case e of
           None \<Rightarrow> Inl (Wild 0)
         | Some e \<Rightarrow> res_bind (load_icode e binary s) (\<lambda>s. Inr (upd_env e (\<lambda>v. v\<lparr>env_type := type\<rparr>) s))))"

section \<open>Freeing and running\<close>

fun free_ptes :: "u32 \<Rightarrow> u32 \<Rightarrow> u32 \<Rightarrow> u32 list \<Rightarrow> kern \<Rightarrow> kerr + kern" where
  "free_ptes pgdir pt pdeno [] k = Inr k"
| "free_ptes pgdir pt pdeno (pteno # rest) k =
     (if present (ld32 (kmem k) (pt + 4 * pteno))
      then res_bind (page_remove pgdir (PGADDR pdeno pteno 0) k) (free_ptes pgdir pt pdeno rest)
      else free_ptes pgdir pt pdeno rest k)"

fun free_tables :: "u32 \<Rightarrow> u32 list \<Rightarrow> kern \<Rightarrow> kerr + kern" where
  "free_tables pgdir [] k = Inr k"
| "free_tables pgdir (pdeno # rest) k =
     (let pde = ld32 (kmem k) (pgdir + 4 * pdeno) in
      if \<not> present pde then free_tables pgdir rest k
      else
        let pa = PTE_ADDR pde in
        res_bind (KADDR k pa) (\<lambda>pt.
        res_bind (free_ptes pgdir pt pdeno (map of_nat [0..<unat (PTX (NOT 0)) + 1]) k) (\<lambda>k.
        let k = k\<lparr>kmem := st32 (kmem k) (pgdir + 4 * pdeno) 0\<rparr> in
        res_bind (pa2page k pa) (\<lambda>pp.
        res_bind (page_decref pp k) (free_tables pgdir rest)))))"

definition env_free :: "nat \<Rightarrow> ekern \<Rightarrow> kerr + ekern" where
  "env_free e s =
     res_bind (if Some e = curenv s
               then res_bind (PADDR (kern_pgdir (krn s))) (\<lambda>pa. Inr (lcr3 pa s)) else Inr s) (\<lambda>s.
     let pgdir = env_pgdir (envs s ! e) in
     res_bind (free_tables pgdir (map of_nat [0..<unat (PDX UTOP)]) (krn s)) (\<lambda>k.
     res_bind (PADDR pgdir) (\<lambda>pa.
     res_bind (pa2page k pa) (\<lambda>pp.
     res_bind (page_decref pp k) (\<lambda>k.
     Inr ((upd_env e (\<lambda>v. v\<lparr>env_pgdir := 0, env_status := ENV_FREE, env_link := env_free_list s\<rparr>)
            (s\<lparr>krn := k\<rparr>))\<lparr>env_free_list := Some e\<rparr>))))))"

text \<open>\<open>env_pop_tf\<close> leaves the kernel: what remains is the trap frame that \<open>iret\<close> restores.\<close>

definition env_run :: "nat \<Rightarrow> ekern \<Rightarrow> kerr + (Trapframe \<times> ekern)" where
  "env_run e s =
     (if e \<ge> length (envs s) then Inl (Wild e)
      else
        let s = (case curenv s of
                   None \<Rightarrow> s
                 | Some c \<Rightarrow> if env_status (envs s ! c) = ENV_RUNNING
                             then upd_env c (\<lambda>v. v\<lparr>env_status := ENV_RUNNABLE\<rparr>) s else s);
            s = s\<lparr>curenv := Some e\<rparr>;
            s = upd_env e (\<lambda>v. v\<lparr>env_status := ENV_RUNNING, env_runs := env_runs v + 1\<rparr>) s
        in res_bind (PADDR (env_pgdir (envs s ! e))) (\<lambda>pa. Inr (env_tf (envs s ! e), lcr3 pa s)))"

text \<open>As in the source, the body of \<open>user_mem_check\<close> is still empty. \<open>user_mem_assert\<close> gives the
  environment to destroy, if any.\<close>

definition user_mem_check :: "nat \<Rightarrow> u32 \<Rightarrow> u32 \<Rightarrow> u32 \<Rightarrow> ekern \<Rightarrow> int" where
  "user_mem_check env va len perm s = 0"

definition user_mem_assert :: "nat \<Rightarrow> u32 \<Rightarrow> u32 \<Rightarrow> u32 \<Rightarrow> ekern \<Rightarrow> nat option" where
  "user_mem_assert env va len perm s =
     (if user_mem_check env va len (perm OR PTE_U) s < 0 then Some env else None)"

section \<open>Environment identifiers\<close>

lemma unat_and_not_mask:
  fixes x :: "'a::len word"
  shows "unat (x AND NOT (mask n)) = unat x - unat x mod 2 ^ n"
proof -
  have "(x AND NOT (mask n)) + (x AND mask n) = (x AND NOT (mask n)) OR (x AND mask n)"
    by (rule disjunctive_add_eq_or) (rule bit_word_eqI, simp add: bit_simps)
  also have "\<dots> = x" by (simp flip: and.left_commute bit.conj_disj_distrib)
  finally have "x AND NOT (mask n) = x - (x AND mask n)" by (simp add: eq_diff_eq)
  thus ?thesis by (simp add: unat_sub_no_borrow unat_and_mask)
qed

lemma ENVX_unat: "unat (ENVX x) = unat x mod 1024"
  using unat_and_mask [of x 10] by (simp add: ENVX_def mask_eq_exp_minus_1)

text \<open>The generation of the next environment in a slot, for an identifier that is not negative.\<close>

lemma next_generation_unat:
  assumes "unat x < 2 ^ 31"
  shows "unat (next_generation x) =
     (if 1024 * (unat x div 1024 + 4) < 2 ^ 31 then 1024 * (unat x div 1024 + 4) else 4096)"
proof -
  let ?g = "(x + push_bit ENVGENSHIFT 1) AND NOT (of_nat NENV - 1)"
  have m: "(of_nat NENV - 1 :: u32) = mask 10" by (simp add: mask_eq_exp_minus_1)
  have "unat (x + push_bit ENVGENSHIFT 1) = unat x + 4096"
    using assms by (simp add: push_bit_eq_mult unat_add_no_carry)
  hence "unat ?g = (unat x + 4096) - (unat x + 4096) mod 1024"
    using unat_and_not_mask [of "x + push_bit ENVGENSHIFT 1" 10] unfolding m by simp
  also have "\<dots> = 1024 * ((unat x + 4096) div 1024)" by (simp add: minus_mod_eq_mult_div)
  also have "(unat x + 4096) div 1024 = unat x div 1024 + 4" by simp
  finally have g: "unat ?g = 1024 * (unat x div 1024 + 4)" .
  hence "?g <=s 0 \<longleftrightarrow> \<not> unat ?g < 2 ^ 31" by (simp add: signed.not_less [symmetric] sless_0_iff)
  thus ?thesis using g unfolding next_generation_def Let_def by (simp add: push_bit_eq_mult)
qed

lemma unat_or_low:
  fixes g :: u32
  assumes "1024 dvd unat g" and "i < 1024"
  shows "unat (g OR of_nat i) = unat g + i"
proof -
  have i: "unat (of_nat i :: u32) = i" using assms(2) by (simp add: unat_of_nat_small)
  have "g AND of_nat i = 0"
  proof (rule bit_word_eqI)
    fix n assume "n < LENGTH(32)"
    have "\<not> bit g n" if "n < 10"
    proof -
      have "g AND mask 10 = 0" using assms(1) by (simp add: word_unat_eq_iff unat_and_mask dvd_eq_mod_eq_0)
      hence "\<not> bit (g AND mask 10) n" by simp
      thus ?thesis using that by (simp add: bit_and_iff bit_mask_iff)
    qed
    moreover have "n < 10" if "bit (of_nat i :: u32) n"
      using bit_word_lessD [OF that, of 10] i assms(2) by (simp add: word_less_nat_alt)
    ultimately show "bit (g AND of_nat i) n = bit 0 n" by (auto simp: bit_and_iff)
  qed
  hence "g OR of_nat i = g + of_nat i" by (simp add: disjunctive_add_eq_or)
  moreover have "unat g + i < 2 ^ 32"
  proof -
    obtain q where "unat g = 1024 * q" using assms(1) by blast
    thus ?thesis using unat_lt_2p32 [of g] assms(2) by simp
  qed
  ultimately show ?thesis using i by (simp add: unat_add_no_carry)
qed

definition env_id_ok :: "nat \<Rightarrow> u32 \<Rightarrow> bool" where
  "env_id_ok i x \<longleftrightarrow> unat (ENVX x) = i \<and> 0 <s x"

text \<open>The identifier that \<open>env_alloc\<close> gives to slot \<open>i\<close> whose last identifier was \<open>x\<close>.\<close>

lemma new_env_id:
  assumes i: "i < 1024" and x: "x = 0 \<or> env_id_ok i x"
  shows "env_id_ok i (next_generation x OR of_nat i)" and "next_generation x OR of_nat i \<noteq> x"
proof -
  let ?g = "next_generation x"
  have x31: "unat x < 2 ^ 31" and xi: "x = 0 \<or> unat x mod 1024 = i"
    using x by (auto simp: env_id_ok_def sless_0_iff ENVX_unat)
  note g = next_generation_unat [OF x31]
  have "1024 dvd unat ?g" unfolding g by simp
  note u = unat_or_low [OF this i]
  have gb: "0 < unat ?g" "unat ?g + 1024 \<le> 2 ^ 31" "unat ?g \<noteq> 1024 * (unat x div 1024)"
    using x31 unfolding g by auto
  show "env_id_ok i (?g OR of_nat i)"
    using u gb \<open>1024 dvd unat ?g\<close> i by (simp add: env_id_ok_def sless_0_iff ENVX_unat mod_add_left_eq [symmetric] dvd_eq_mod_eq_0)
  have "unat ?g + i \<noteq> unat x"
  proof
    assume eq: "unat ?g + i = unat x"
    hence "(unat ?g + i) div 1024 = unat x div 1024" by simp
    moreover have "(unat ?g + i) div 1024 = unat ?g div 1024" using \<open>1024 dvd unat ?g\<close> i
      by (metis add.right_neutral div_less div_plus_div_distrib_dvd_left)
    ultimately have "unat ?g div 1024 = unat x div 1024" by simp
    thus False using gb(3) dvd_mult_div_cancel [OF \<open>1024 dvd unat ?g\<close>] by metis
  qed
  thus "?g OR of_nat i \<noteq> x" using u by metis
qed


section \<open>A new page directory\<close>

lemma memcpy_page:
  assumes "p < 0x10000" and "q < 0x10000" and "p \<noteq> q"
  shows "memcpy m (page_kva p) (page_kva q) PGSIZE = copy m (page_kva p) (page_kva q) 4096"
proof -
  have u: "unat (page_kva p) = 0xF0000000 + p * 4096" "unat (page_kva q) = 0xF0000000 + q * 4096"
    using assms by (simp_all add: unat_page_kva)
  have nd: "\<not> (page_kva q < page_kva p \<and> page_kva p < page_kva q + PGSIZE)"
  proof (cases "q < p")
    case True
    hence "unat (page_kva q + PGSIZE) = unat (page_kva q) + 4096"
      using u assms by (simp add: unat_add_no_carry)
    thus ?thesis using u True by (simp add: word_less_nat_alt)
  qed (use u assms in \<open>simp add: word_less_nat_alt\<close>)
  have al: "4 dvd unat (page_kva p)" "4 dvd unat (page_kva q)" unfolding u by simp_all
  hence "page_kva p mod 4 = 0" "page_kva q mod 4 = 0" by (simp_all add: mod4_unat)
  hence "memcpy m (page_kva p) (page_kva q) PGSIZE = movsb_up m (page_kva p) (page_kva q) 4096"
    using nd movsl_up_movsb [OF al, of m 1024] by (auto simp: memcpy_def memmove_def Let_def)
  also have "\<dots> = copy m (page_kva p) (page_kva q) 4096"
  proof (rule movsb_up_copy)
    show "\<forall>j<4096. j \<le> unat (page_kva q + of_nat j - page_kva p)"
    proof (intro allI impI)
      fix j :: nat assume j: "j < 4096"
      have uj: "unat (page_kva q + of_nat j) = 0xF0000000 + q * 4096 + j"
        using unat_page_offset [OF assms(2), of "of_nat j"] j u(2) by (simp add: unat_of_nat_small)
      show "j \<le> unat (page_kva q + of_nat j - page_kva p)"
        using uj u assms j by (auto simp: unat_sub_if')
    qed
  qed simp
  finally show ?thesis .
qed

lemma ld32_copy_page:
  assumes "p < 0x10000" and "q < 0x10000" and "t < 0x10000" and "i < 1024"
  shows "ld32 (copy m (page_kva p) (page_kva q) 4096) (page_kva t + 4 * i) =
     (if t = p then ld32 m (page_kva q + 4 * i) else ld32 m (page_kva t + 4 * i))"
proof -
  let ?c = "copy m (page_kva p) (page_kva q) 4096"
  have "?c (page_kva t + 4 * i + k) = (if t = p then m (page_kva q + 4 * i + k) else m (page_kva t + 4 * i + k))"
    if "k < 4" for k
  proof -
    have ip: "in_page t (page_kva t + 4 * i + k)" using slot_bytes_in_page [OF assms(3,4) that] .
    hence "in_page p (page_kva t + 4 * i + k) \<longleftrightarrow> t = p" using in_page_disjoint assms(1,3) by blast
    thus ?thesis by (auto simp: copy_def in_page_def add.assoc)
  qed
  from this [of 0] this [of 1] this [of 2] this [of 3] show ?thesis by (simp add: ld32_def)
qed

text \<open>The kernel after \<open>env_setup_vm\<close> has made page \<open>x\<close> a directory on the template \<open>kd\<close>.\<close>

definition with_dir :: "kern \<Rightarrow> nat \<Rightarrow> nat \<Rightarrow> kern" where
  "with_dir k x kd =
     (let k1 = popped 1 x k; k2 = k1\<lparr>kmem := copy (kmem k1) (page_kva x) (page_kva kd) 4096\<rparr>;
          k3 = upd_page x (\<lambda>p. p\<lparr>pp_ref := pp_ref p + 1\<rparr>) k2
      in k3\<lparr>kmem := st32 (kmem k3) (page_kva x + 4 * 957) (page2pa x OR PTE_P OR PTE_U)\<rparr>)"

lemma PDX_UVPT [simp]: "PDX UVPT = 957" "PDX 0xEF400000 = 957"
  by (simp_all add: PDX_def)

lemma env_setup_vm_ok:
  assumes fr: "frees (krn s) (x # fl)" and kd: "kern_pgdir (krn s) = page_kva kd" "kd < length (pages (krn s))" "kd \<noteq> x"
  shows "env_setup_vm e s =
     Inr (0, upd_env e (\<lambda>v. v\<lparr>env_pgdir := page_kva x\<rparr>) (s\<lparr>krn := with_dir (krn s) x kd\<rparr>))"
proof -
  have x: "x < unat (npages (krn s))" "x < 0x10000"
    using frees_bounds(1) [OF fr] frees_bounds(3,4) [OF fr, of x] by simp_all
  have kd16: "kd < 0x10000" using frees_bounds(5) [OF fr kd(2)] .
  have "page2kva (popped 1 x (krn s)) x = Inr (page_kva x)"
    using KADDR_page2pa [of x "popped 1 x (krn s)"] x by (simp add: page_kva_def)
  moreover have "kern_pgdir (popped 1 x (krn s)) = page_kva kd"
    by (simp add: kd(1) popped_def)
  ultimately show ?thesis
    using page_alloc_Cons(1) [OF fr, of 1] PADDR_page_kva [OF x(2)] memcpy_page [OF x(2) kd16] kd(3)
    by (simp add: env_setup_vm_def with_dir_def Let_def)
qed

lemma env_setup_vm_no_mem:
  "frees (krn s) [] \<Longrightarrow> env_setup_vm e s = Inr (- E_NO_MEM, s)"
  using page_alloc_Nil [of "krn s" 1] by (simp add: env_setup_vm_def)

lemma with_dir:
  assumes fr: "frees k (x # fl)" and kd: "kd < length (pages k)" "kd \<noteq> x"
    and low: "\<And>i. i < 955 \<Longrightarrow> \<not> present (pde k kd i)"
  shows "frees (with_dir k x kd) fl" and "length (pages (with_dir k x kd)) = length (pages k)"
    and "kern_pgdir (with_dir k x kd) = kern_pgdir k"
    and "ref_of (with_dir k x kd) q = (if q = x then 1 else ref_of k q)"
    and "i < 1024 \<Longrightarrow> pde (with_dir k x kd) x i = (if i = 957 then page2pa x OR PTE_P OR PTE_U else pde k kd i)"
    and "t < 0x10000 \<Longrightarrow> t \<noteq> x \<Longrightarrow> i < 1024 \<Longrightarrow> pde (with_dir k x kd) t i = pde k t i"
    and "aspace (with_dir k x kd) x" and "va < UTOP \<Longrightarrow> mapping (with_dir k x kd) x va = None"
proof -
  let ?k = "with_dir k x kd"
  have x: "x < length (pages k)" "x < 0x10000" "x \<notin> set fl"
    using frees_bounds(3,4) [OF fr, of x] fr by (simp_all add: frees_def)
  have kd16: "kd < 0x10000" using frees_bounds(5) [OF fr kd(1)] .
  show "frees ?k fl" unfolding with_dir_def Let_def frees_kmem
    by (rule frees_upd_ref) (use page_alloc_Cons(2) [OF fr, of 1] x in simp_all)
  show len: "length (pages ?k) = length (pages k)" by (simp add: with_dir_def Let_def)
  show "kern_pgdir ?k = kern_pgdir k" by (simp add: with_dir_def Let_def popped_def upd_page_def)
  show rf: "ref_of ?k q = (if q = x then 1 else ref_of k q)" for q
    using x(1) by (auto simp: with_dir_def Let_def ref_of_def upd_page_def popped_def nth_list_update)
  have ld: "ld32 (kmem ?k) (page_kva t + 4 * i) =
      (if t = x then if i = 957 then page2pa x OR PTE_P OR PTE_U else pde k kd i else ld32 (kmem k) (page_kva t + 4 * i))"
    if "t < 0x10000" "i < 1024" for t i
    using that x(2) kd16 kd(2) ld32_st32_slot [OF x(2) that(1) _ that(2), of 957]
    by (auto simp: with_dir_def Let_def ld32_copy_page ld32_zero_page pde_def)
  show pd: "pde ?k x i = (if i = 957 then page2pa x OR PTE_P OR PTE_U else pde k kd i)" if "i < 1024" for i
    using ld [OF x(2) that] by (simp add: pde_def)
  show "pde ?k t i = pde k t i" if "t < 0x10000" "t \<noteq> x" "i < 1024"
    using ld [OF that(1,3)] that(2) by (simp add: pde_def)
  have np: "\<not> present (pde ?k x i)" if "i < 955" for i
    using pd [OF less_955_1024 [OF that]] low [OF that] that by auto
  hence en: "entry ?k x i j = None" if "i < 955" for i j using that by (simp add: entry_def)
  show "aspace ?k x"
  proof (rule aspaceI)
    fix q assume "q < length (pages ?k)"
    have "nmaps ?k x q = 0" "ntabs ?k x q = 0"
      using en np by (auto simp: nmaps_def ntabs_def)
    thus "nmaps ?k x q + ntabs ?k x q + (if q = x then 1 else 0) \<le> unat (ref_of ?k q)" by (simp add: rf)
  qed (use np en len x in auto)
  show "mapping ?k x va = None" if "va < UTOP" using en that user_va_iff by (auto simp: mapping_def)
qed


section \<open>The table of environments\<close>

lemma upd_env_simps [simp]:
  "krn (upd_env i f s) = krn s" "curenv (upd_env i f s) = curenv s" "hw (upd_env i f s) = hw s"
  "env_free_list (upd_env i f s) = env_free_list s" "gdt (upd_env i f s) = gdt s"
  "length (envs (upd_env i f s)) = length (envs s)"
  by (simp_all add: upd_env_def)

lemma upd_env_nth [simp]:
  "j < length (envs s) \<Longrightarrow> envs (upd_env i f s) ! j = (if j = i then f (envs s ! i) else envs s ! j)"
  by (simp add: upd_env_def nth_list_update)

lemma lcr3_simps [simp]:
  "envs (lcr3 pa s) = envs s" "curenv (lcr3 pa s) = curenv s" "env_free_list (lcr3 pa s) = env_free_list s"
  "gdt (lcr3 pa s) = gdt s" "krn (lcr3 pa s) = (krn s)\<lparr>tlb := (\<lambda>_. False)\<rparr>" "cr3 (hw (lcr3 pa s)) = pa"
  by (simp_all add: lcr3_def)

text \<open>\<open>efl\<close> is the list of free environments: they are exactly those with status \<open>ENV_FREE\<close>.
  Every identifier belongs to its slot, and only the current environment is running.\<close>

definition env_wf :: "ekern \<Rightarrow> nat list \<Rightarrow> bool" where
  "env_wf s efl \<longleftrightarrow> length (envs s) = NENV \<and> distinct efl \<and> (\<forall>i \<in> set efl. i < NENV) \<and>
     linked (\<lambda>i. env_link (envs s ! i)) (env_free_list s) efl \<and>
     (\<forall>i < NENV. env_status (envs s ! i) = ENV_FREE \<longleftrightarrow> i \<in> set efl) \<and>
     (\<forall>i < NENV. (env_id (envs s ! i) = 0 \<and> i \<in> set efl) \<or> env_id_ok i (env_id (envs s ! i))) \<and>
     (\<forall>i < NENV. env_status (envs s ! i) = ENV_RUNNING \<longrightarrow> curenv s = Some i) \<and>
     (\<forall>c. curenv s = Some c \<longrightarrow> c < NENV)"

lemma NENV_1024: "NENV = 1024"
  by simp

lemma env_wfD:
  assumes "env_wf s efl"
  shows "length (envs s) = 1024" and "distinct efl" and "i \<in> set efl \<Longrightarrow> i < 1024"
    and "linked (\<lambda>i. env_link (envs s ! i)) (env_free_list s) efl"
    and "i < 1024 \<Longrightarrow> env_status (envs s ! i) = ENV_FREE \<longleftrightarrow> i \<in> set efl"
    and "i < 1024 \<Longrightarrow> (env_id (envs s ! i) = 0 \<and> i \<in> set efl) \<or> env_id_ok i (env_id (envs s ! i))"
    and "i < 1024 \<Longrightarrow> env_status (envs s ! i) = ENV_RUNNING \<Longrightarrow> curenv s = Some i"
    and "curenv s = Some c \<Longrightarrow> c < 1024"
  using assms unfolding env_wf_def NENV_1024 by blast+

lemma env_wfI:
  assumes "length (envs s) = 1024" and "distinct efl" and "\<And>i. i \<in> set efl \<Longrightarrow> i < 1024"
    and "linked (\<lambda>i. env_link (envs s ! i)) (env_free_list s) efl"
    and "\<And>i. i < 1024 \<Longrightarrow> env_status (envs s ! i) = ENV_FREE \<longleftrightarrow> i \<in> set efl"
    and "\<And>i. i < 1024 \<Longrightarrow> (env_id (envs s ! i) = 0 \<and> i \<in> set efl) \<or> env_id_ok i (env_id (envs s ! i))"
    and "\<And>i. i < 1024 \<Longrightarrow> env_status (envs s ! i) = ENV_RUNNING \<Longrightarrow> curenv s = Some i"
    and "\<And>c. curenv s = Some c \<Longrightarrow> c < 1024"
  shows "env_wf s efl"
  using assms unfolding env_wf_def NENV_1024 by blast

lemma env_wf_cong:
  "envs t = envs s \<Longrightarrow> env_free_list t = env_free_list s \<Longrightarrow> curenv t = curenv s \<Longrightarrow> env_wf t efl = env_wf s efl"
  by (simp only: env_wf_def)

lemma env_init_loop_spec:
  "n \<le> length (envs s) \<Longrightarrow> n \<le> m \<Longrightarrow> m \<le> length (envs s) \<Longrightarrow>
   linked (\<lambda>i. env_link (envs s ! i)) (env_free_list s) [n..<m] \<Longrightarrow>
   \<forall>i. n \<le> i \<longrightarrow> i < m \<longrightarrow> env_id (envs s ! i) = 0 \<and> env_status (envs s ! i) = ENV_FREE \<Longrightarrow>
   let t = env_init_loop n s in
     length (envs t) = length (envs s) \<and> linked (\<lambda>i. env_link (envs t ! i)) (env_free_list t) [0..<m] \<and>
     (\<forall>i < m. env_id (envs t ! i) = 0 \<and> env_status (envs t ! i) = ENV_FREE) \<and>
     krn t = krn s \<and> curenv t = curenv s \<and> gdt t = gdt s"
proof (induction n arbitrary: s)
  case (Suc n)
  let ?s = "(upd_env n (\<lambda>e. e\<lparr>env_id := 0, env_status := ENV_FREE, env_link := env_free_list s\<rparr>) s)
     \<lparr>env_free_list := Some n\<rparr>"
  have "linked (\<lambda>i. env_link (envs ?s ! i)) (env_free_list s) [Suc n..<m]"
    using Suc.prems by (subst linked_cong [where h' = "\<lambda>i. env_link (envs s ! i)"]) auto
  hence l: "linked (\<lambda>i. env_link (envs ?s ! i)) (env_free_list ?s) [n..<m]"
    using Suc.prems by (simp add: upt_conv_Cons)
  have "let t = env_init_loop n ?s in
     length (envs t) = length (envs ?s) \<and> linked (\<lambda>i. env_link (envs t ! i)) (env_free_list t) [0..<m] \<and>
     (\<forall>i < m. env_id (envs t ! i) = 0 \<and> env_status (envs t ! i) = ENV_FREE) \<and>
     krn t = krn ?s \<and> curenv t = curenv ?s \<and> gdt t = gdt ?s"
    by (rule Suc.IH [OF _ _ _ l]) (use Suc.prems in auto)
  thus ?case by (simp add: Let_def)
qed simp

lemma env_init_wf:
  assumes "length (envs s) = NENV" and "env_free_list s = None" and "curenv s = None"
  shows "env_wf (env_init s) [0..<NENV]" and "krn (env_init s) = krn s"
    and "gdtr (hw (env_init s)) = gdt s"
proof -
  let ?t = "env_init_loop NENV s"
  have t: "length (envs ?t) = 1024" "linked (\<lambda>i. env_link (envs ?t ! i)) (env_free_list ?t) [0..<1024]"
    "\<And>i. i < 1024 \<Longrightarrow> env_id (envs ?t ! i) = 0 \<and> env_status (envs ?t ! i) = ENV_FREE"
    "krn ?t = krn s" "curenv ?t = None" "gdt ?t = gdt s"
    using env_init_loop_spec [of NENV s NENV, unfolded Let_def] assms by (simp_all del: upt_rec_numeral)
  have "env_wf ?t [0..<1024]" using t by (intro env_wfI) (simp_all del: upt_rec_numeral)
  moreover have "env_wf (env_init s) efl = env_wf ?t efl" for efl
    by (rule env_wf_cong) (simp_all add: env_init_def env_init_percpu_def)
  ultimately show "env_wf (env_init s) [0..<NENV]" unfolding NENV_1024 by blast
  show "krn (env_init s) = krn s" "gdtr (hw (env_init s)) = gdt s"
    using t by (simp_all add: env_init_def env_init_percpu_def)
qed

text \<open>Looking up an identifier, where the slot in its low bits is always inside the table.\<close>

lemma envid2env_eq:
  assumes wf: "env_wf s efl" and nz: "x \<noteq> 0" and c: "curenv s = Some c"
  shows "envid2env x chk s =
     (let e = unat (ENVX x); v = envs s ! e in
      if env_status v \<noteq> ENV_FREE \<and> env_id v = x \<and> (chk \<longrightarrow> e = c \<or> env_parent_id v = env_id (envs s ! c))
      then Inr (0, Some e) else Inr (- E_BAD_ENV, None))"
  using env_wfD(1,8) [OF wf] c nz ENVX_unat [of x] by (auto simp: envid2env_def Let_def)

lemma env_id_slot:
  assumes "env_wf s efl" and "i < 1024" and "env_status (envs s ! i) \<noteq> ENV_FREE"
  shows "env_id_ok i (env_id (envs s ! i))" and "unat (ENVX (env_id (envs s ! i))) = i"
    and "env_id (envs s ! i) \<noteq> 0"
  using env_wfD(5,6) [OF assms(1,2)] assms(3) by (auto simp: env_id_ok_def)

section \<open>env_alloc and env_run\<close>

definition user_tf :: Trapframe where
  "user_tf = zero_tf\<lparr>tf_ds := 0x23, tf_es := 0x23, tf_ss := 0x23, tf_esp := USTACKTOP, tf_cs := 0x1B\<rparr>"

lemma env_alloc_ok:
  assumes wf: "env_wf s (e # efl)" and fr: "frees (krn s) (x # fl)"
    and kd: "kern_pgdir (krn s) = page_kva kd" "kd < length (pages (krn s))" "kd \<noteq> x"
  defines "v \<equiv> envs s ! e"
  obtains s' where "env_alloc parent s = Inr (0, Some e, s')" and "krn s' = with_dir (krn s) x kd"
    and "env_wf s' efl" and "\<And>j. j < 1024 \<Longrightarrow> j \<noteq> e \<Longrightarrow> envs s' ! j = envs s ! j"
    and "envs s' ! e = v\<lparr>env_pgdir := page_kva x, env_id := next_generation (env_id v) OR of_nat e,
       env_parent_id := parent, env_type := ENV_TYPE_USER, env_status := ENV_RUNNABLE, env_runs := 0,
       env_tf := user_tf\<rparr>"
    and "curenv s' = curenv s" and "hw s' = hw s"
proof -
  have e: "e < 1024" "env_free_list s = Some e" "e \<notin> set efl" "distinct efl"
    and l: "linked (\<lambda>i. env_link (envs s ! i)) (env_link v) efl"
    using env_wfD(2,4) [OF wf] env_wfD(3) [OF wf, of e] by (auto simp: v_def)
  have len: "length (envs s) = 1024" using env_wfD(1) [OF wf] .
  define v' where "v' = v\<lparr>env_pgdir := page_kva x, env_id := next_generation (env_id v) OR of_nat e,
       env_parent_id := parent, env_type := ENV_TYPE_USER, env_status := ENV_RUNNABLE, env_runs := 0,
       env_tf := user_tf\<rparr>"
  define s' where "s' = s\<lparr>krn := with_dir (krn s) x kd, envs := (envs s)[e := v'], env_free_list := env_link v\<rparr>"
  have al: "env_alloc parent s = Inr (0, Some e, s')"
    using env_setup_vm_ok [OF fr kd, of e] e len
    by (simp add: env_alloc_def upd_env_def s'_def v'_def v_def user_tf_def Let_def)
  have nth: "envs s' ! j = (if j = e then v' else envs s ! j)" if "j < 1024" for j
    using that len by (simp add: s'_def nth_list_update)
  have cur: "curenv s' = curenv s" by (simp add: s'_def)
  have "env_wf s' efl"
  proof (rule env_wfI)
    have "linked (\<lambda>i. env_link (envs s' ! i)) (env_link v) efl"
      using l e env_wfD(3) [OF wf] by (subst linked_cong [where h' = "\<lambda>i. env_link (envs s ! i)"]) (auto simp: nth)
    thus "linked (\<lambda>i. env_link (envs s' ! i)) (env_free_list s') efl" by (simp add: s'_def)
  next
    fix i :: nat assume i: "i < 1024"
    show "env_status (envs s' ! i) = ENV_FREE \<longleftrightarrow> i \<in> set efl"
      using env_wfD(5) [OF wf i] e i by (auto simp: nth v'_def)
    have "env_id v = 0 \<or> env_id_ok e (env_id v)" using env_wfD(6) [OF wf e(1)] by (auto simp: v_def)
    from new_env_id(1) [OF e(1) this]
    show "(env_id (envs s' ! i) = 0 \<and> i \<in> set efl) \<or> env_id_ok i (env_id (envs s' ! i))"
      using env_wfD(6) [OF wf i] e i by (auto simp: nth v'_def)
    show "curenv s' = Some i" if "env_status (envs s' ! i) = ENV_RUNNING"
      using that env_wfD(7) [OF wf i] i cur by (auto simp: nth v'_def split: if_splits)
  qed (use e len env_wfD(3,8) [OF wf] in \<open>auto simp: s'_def\<close>)
  thus thesis using that [OF al] nth e by (auto simp: s'_def v'_def)
qed

lemma env_alloc_no_env: "env_wf s [] \<Longrightarrow> env_alloc parent s = Inr (- E_NO_FREE_ENV, None, s)"
  using env_wfD(4) [of s "[]"] by (simp add: env_alloc_def)

lemma env_alloc_no_mem:
  assumes "env_wf s (e # efl)" and "frees (krn s) []"
  shows "env_alloc parent s = Inr (- E_NO_MEM, None, s)"
  using env_wfD(1,4) [OF assms(1)] env_wfD(3) [OF assms(1), of e] env_setup_vm_no_mem [OF assms(2)]
  by (simp add: env_alloc_def)

lemma env_run_wf:
  assumes wf: "env_wf s efl" and e: "e < 1024" "e \<notin> set efl" and pa: "PADDR (env_pgdir (envs s ! e)) = Inr pa"
  obtains s' where "env_run e s = Inr (env_tf (envs s ! e), s')" and "env_wf s' efl" and "curenv s' = Some e"
    and "cr3 (hw s') = pa" and "env_status (envs s' ! e) = ENV_RUNNING"
    and "env_runs (envs s' ! e) = env_runs (envs s ! e) + 1"
    and "\<And>j. j < 1024 \<Longrightarrow> j \<noteq> e \<Longrightarrow> env_status (envs s' ! j) =
       (if curenv s = Some j \<and> env_status (envs s ! j) = ENV_RUNNING then ENV_RUNNABLE else env_status (envs s ! j))"
proof -
  have len: "length (envs s) = 1024" using env_wfD(1) [OF wf] .
  define s1 where "s1 = (case curenv s of None \<Rightarrow> s | Some c \<Rightarrow>
     if env_status (envs s ! c) = ENV_RUNNING then upd_env c (\<lambda>v. v\<lparr>env_status := ENV_RUNNABLE\<rparr>) s else s)"
  define s2 where "s2 = upd_env e (\<lambda>v. v\<lparr>env_status := ENV_RUNNING, env_runs := env_runs v + 1\<rparr>) (s1\<lparr>curenv := Some e\<rparr>)"
  have s1: "envs s1 ! j = (if curenv s = Some j \<and> env_status (envs s ! j) = ENV_RUNNING
      then (envs s ! j)\<lparr>env_status := ENV_RUNNABLE\<rparr> else envs s ! j)" "length (envs s1) = 1024"
      "env_free_list s1 = env_free_list s" if "j < 1024" for j
    using that len by (auto simp: s1_def split: option.splits)
  have s2: "envs s2 ! j = (if j = e then (envs s1 ! e)\<lparr>env_status := ENV_RUNNING, env_runs := env_runs (envs s1 ! e) + 1\<rparr>
      else envs s1 ! j)" if "j < 1024" for j
    using that s1(2) [of 0] by (simp add: s2_def)
  have run: "env_run e s = Inr (env_tf (envs s ! e), lcr3 pa s2)"
    using e len pa s1 [of e] s2 [of e] unfolding env_run_def Let_def s1_def [symmetric] s2_def [symmetric] by simp
  have lnk: "env_link (envs s2 ! j) = env_link (envs s ! j)" "env_id (envs s2 ! j) = env_id (envs s ! j)" if "j < 1024" for j
    using that s1(1) [of j] s2 [of j] by auto
  have st: "env_status (envs s2 ! j) = (if j = e then ENV_RUNNING else if curenv s = Some j \<and> env_status (envs s ! j) = ENV_RUNNING
      then ENV_RUNNABLE else env_status (envs s ! j))" if "j < 1024" for j
    using that s1(1) [of j] s2 [of j] by auto
  have cur: "curenv s2 = Some e" by (simp add: s2_def)
  have "env_wf s2 efl"
  proof (rule env_wfI)
    have "linked (\<lambda>i. env_link (envs s2 ! i)) (env_free_list s) efl"
      using env_wfD(3,4) [OF wf] by (subst linked_cong [where h' = "\<lambda>i. env_link (envs s ! i)"]) (auto simp: lnk)
    thus "linked (\<lambda>i. env_link (envs s2 ! i)) (env_free_list s2) efl"
      using s1(3) [of 0] by (simp add: s2_def)
  next
    fix i :: nat assume i: "i < 1024"
    show "env_status (envs s2 ! i) = ENV_FREE \<longleftrightarrow> i \<in> set efl"
      using env_wfD(5) [OF wf i] e i by (auto simp: st)
    show "(env_id (envs s2 ! i) = 0 \<and> i \<in> set efl) \<or> env_id_ok i (env_id (envs s2 ! i))"
      using env_wfD(6) [OF wf i] i by (simp add: lnk)
    show "curenv s2 = Some i" if "env_status (envs s2 ! i) = ENV_RUNNING"
      using that env_wfD(7) [OF wf i] i cur by (auto simp: st split: if_splits)
  qed (use e s1(2) [of 0] env_wfD(2,3) [OF wf] in \<open>auto simp: s2_def\<close>)
  hence "env_wf (lcr3 pa s2) efl" using env_wf_cong [of "lcr3 pa s2" s2 efl] by simp
  thus thesis using that [OF run] e st s1(1) [of e] s2 [of e] by (simp add: s2_def)
qed

section \<open>Releasing an address space\<close>

text \<open>From \<open>k\<close> with free pages \<open>fl\<close> to \<open>k'\<close> with free pages \<open>fl'\<close>, uses of pages by directory \<open>d\<close>
  have been given up: the references drop by exactly these uses, and the pages that lose their
  last reference are the ones that become free.\<close>

definition released :: "kern \<Rightarrow> nat list \<Rightarrow> kern \<Rightarrow> nat list \<Rightarrow> nat \<Rightarrow> bool" where
  "released k fl k' fl' d \<longleftrightarrow> aspace k' d \<and> frees k' fl' \<and> length (pages k') = length (pages k) \<and>
     kern_pgdir k' = kern_pgdir k \<and>
     (\<forall>q. unat (ref_of k' q) + (nmaps k d q + ntabs k d q) = unat (ref_of k q) + (nmaps k' d q + ntabs k' d q)) \<and>
     (\<forall>q. nmaps k' d q + ntabs k' d q \<le> nmaps k d q + ntabs k d q) \<and>
     (\<forall>q. q \<in> set fl' \<longleftrightarrow> q \<in> set fl \<or> ref_of k q \<noteq> 0 \<and> ref_of k' q = 0)"

lemma u16_unat_iffs: "(r :: u16) = 0 \<longleftrightarrow> unat r = 0" "r = 1 \<longleftrightarrow> unat r = 1"
  by (simp_all only: word_unat_eq_iff unsigned_0 unsigned_1)

lemma released_refl: "aspace k d \<Longrightarrow> frees k fl \<Longrightarrow> released k fl k fl d"
  by (simp add: released_def)

lemma released_ref_le: "released k fl k' fl' d \<Longrightarrow> unat (ref_of k' q) \<le> unat (ref_of k q)"
proof -
  assume r: "released k fl k' fl' d"
  have "unat (ref_of k' q) + (nmaps k d q + ntabs k d q) = unat (ref_of k q) + (nmaps k' d q + ntabs k' d q)"
    and "nmaps k' d q + ntabs k' d q \<le> nmaps k d q + ntabs k d q" using r unfolding released_def by blast+
  thus ?thesis by linarith
qed

lemma released_trans:
  assumes 1: "released k fl k1 fl1 d" and 2: "released k1 fl1 k2 fl2 d"
  shows "released k fl k2 fl2 d"
proof -
  have acc: "unat (ref_of k2 q) + (nmaps k d q + ntabs k d q) = unat (ref_of k q) + (nmaps k2 d q + ntabs k2 d q)"
    "nmaps k2 d q + ntabs k2 d q \<le> nmaps k d q + ntabs k d q" for q
  proof -
    have "unat (ref_of k1 q) + (nmaps k d q + ntabs k d q) = unat (ref_of k q) + (nmaps k1 d q + ntabs k1 d q)"
      "nmaps k1 d q + ntabs k1 d q \<le> nmaps k d q + ntabs k d q"
      "unat (ref_of k2 q) + (nmaps k1 d q + ntabs k1 d q) = unat (ref_of k1 q) + (nmaps k2 d q + ntabs k2 d q)"
      "nmaps k2 d q + ntabs k2 d q \<le> nmaps k1 d q + ntabs k1 d q"
      using 1 2 unfolding released_def by blast+
    thus "unat (ref_of k2 q) + (nmaps k d q + ntabs k d q) = unat (ref_of k q) + (nmaps k2 d q + ntabs k2 d q)"
      "nmaps k2 d q + ntabs k2 d q \<le> nmaps k d q + ntabs k d q" by linarith+
  qed
  have fl: "q \<in> set fl2 \<longleftrightarrow> q \<in> set fl \<or> ref_of k q \<noteq> 0 \<and> ref_of k2 q = 0" for q
  proof -
    have "q \<in> set fl1 \<longleftrightarrow> q \<in> set fl \<or> ref_of k q \<noteq> 0 \<and> ref_of k1 q = 0"
      "q \<in> set fl2 \<longleftrightarrow> q \<in> set fl1 \<or> ref_of k1 q \<noteq> 0 \<and> ref_of k2 q = 0"
      using 1 2 unfolding released_def by blast+
    thus ?thesis using released_ref_le [OF 1, of q] released_ref_le [OF 2, of q] unfolding u16_unat_iffs by linarith
  qed
  show ?thesis using 1 2 acc fl unfolding released_def by simp
qed

lemma PGADDR_user:
  assumes "i < 955" and "j < 1024"
  shows "PDX (PGADDR i j 0) = i" and "PTX (PGADDR i j 0) = j" and "PGADDR i j 0 < UTOP"
proof -
  have "PDX (PGADDR i j 0) = i \<and> PTX (PGADDR i j 0) = j"
    using PGADDR_components [of i j 0] assms less_955_1024 by simp
  thus "PDX (PGADDR i j 0) = i" "PTX (PGADDR i j 0) = j" "PGADDR i j 0 < UTOP"
    using assms(1) user_va_iff by simp_all
qed

lemma ntabs_cong: "(\<And>i. i < 955 \<Longrightarrow> pde t d i = pde s d i) \<Longrightarrow> ntabs t d q = ntabs s d q"
  unfolding ntabs_def PDX_UTOP by (simp cong: conj_cong)

lemma page_remove_released:
  assumes fr: "frees k fl" and as: "aspace k d" and ij: "i < 955" "j < 1024" and en: "entry k d i j = Some e"
  obtains k' fl' where "page_remove (page_kva d) (PGADDR i j 0) k = Inr k'" "released k fl k' fl' d"
    "\<And>i. i < 1024 \<Longrightarrow> pde k' d i = pde k d i"
    "\<And>i' j'. i' < 955 \<Longrightarrow> j' < 1024 \<Longrightarrow> entry k' d i' j' = (if i' = i \<and> j' = j then None else entry k d i' j')"
proof -
  let ?q = "pt_page e" and ?fl = "if ref_of k (pt_page e) = 1 then pt_page e # fl else fl"
  note va = PGADDR_user [OF ij]
  have en': "entry k d (PDX (PGADDR i j 0)) (PTX (PGADDR i j 0)) = Some e" using en va by simp
  obtain k' where k': "page_remove (page_kva d) (PGADDR i j 0) k = Inr k'" "aspace k' d" "frees k' ?fl"
    "\<And>i' j'. i' < 955 \<Longrightarrow> j' < 1024 \<Longrightarrow> entry k' d i' j' = (if i' = i \<and> j' = j then None else entry k d i' j')"
    "\<And>q. ref_of k' q = (if q = ?q then ref_of k q - 1 else ref_of k q)"
    "length (pages k') = length (pages k)" "\<And>i. i < 1024 \<Longrightarrow> pde k' d i = pde k d i" "kern_pgdir k' = kern_pgdir k"
    by (rule page_remove_mapped [OF fr as va(3) en', unfolded va(1,2)]) blast
  have r: "0 < unat (ref_of k ?q)" using aspace_referenced(3) [OF as ij en] .
  have nm: "nmaps k' d q + (if ?q = q then 1 else 0) = nmaps k d q" for q
    using nmaps_update [OF k'(4) ij, of q] en by (simp add: uses_def)
  have nt: "ntabs k' d q = ntabs k d q" for q
    by (rule ntabs_cong) (use k'(7) less_955_1024 in blast)
  have rf: "unat (ref_of k' q) + (if ?q = q then 1 else 0) = unat (ref_of k q)" for q
    using k'(5) [of q] r unat_minus_1 [of "ref_of k q"] by auto
  have "q \<in> set ?fl \<longleftrightarrow> q \<in> set fl \<or> ref_of k q \<noteq> 0 \<and> ref_of k' q = 0" for q
    using rf [of q] r unfolding u16_unat_iffs by (auto split: if_splits)
  moreover have "unat (ref_of k' q) + (nmaps k d q + ntabs k d q) = unat (ref_of k q) + (nmaps k' d q + ntabs k' d q)"
    "nmaps k' d q + ntabs k' d q \<le> nmaps k d q + ntabs k d q" for q
    using rf [of q] nm [of q] nt [of q] by linarith+
  ultimately have "released k fl k' ?fl d" using k'(2,3,6,8) unfolding released_def by blast
  thus thesis using that k'(1,4,7) by blast
qed


lemma free_ptes_released:
  assumes "frees k fl" and "aspace k d" and i: "i < 955" and "present (pde k d i)" and "\<forall>j \<in> set js. j < 1024"
  shows "\<exists>k' fl'. free_ptes (page_kva d) (page_kva (pt_page (pde k d i))) i js k = Inr k' \<and>
     released k fl k' fl' d \<and> (\<forall>i < 1024. pde k' d i = pde k d i) \<and>
     (\<forall>i' < 955. \<forall>j < 1024. entry k' d i' j = (if i' = i \<and> j \<in> set js then None else entry k d i' j))"
  using assms
proof (induction js arbitrary: k fl)
  case Nil
  thus ?case using released_refl by auto
next
  case (Cons j js)
  have j: "j < 1024" using Cons.prems(5) by simp
  show ?case
  proof (cases "entry k d i j")
    case None
    hence "\<not> present (ld32 (kmem k) (page_kva (pt_page (pde k d i)) + 4 * j))"
      using Cons.prems(4) by (auto simp: entry_def slot_def split: if_splits)
    thus ?thesis using Cons.IH [OF Cons.prems(1-4)] Cons.prems(5) None by auto
  next
    case (Some e)
    hence p: "present (ld32 (kmem k) (page_kva (pt_page (pde k d i)) + 4 * j))"
      by (auto simp: entry_def slot_def split: if_splits)
    obtain k1 fl1 where k1: "page_remove (page_kva d) (PGADDR i j 0) k = Inr k1" "released k fl k1 fl1 d"
      "\<And>i. i < 1024 \<Longrightarrow> pde k1 d i = pde k d i"
      "\<And>i' j'. i' < 955 \<Longrightarrow> j' < 1024 \<Longrightarrow> entry k1 d i' j' = (if i' = i \<and> j' = j then None else entry k d i' j')"
      by (rule page_remove_released [OF Cons.prems(1,2) i j Some]) blast
    have fa: "frees k1 fl1" "aspace k1 d" using k1(2) by (auto simp: released_def)
    have pd: "pde k1 d i = pde k d i" using k1(3) i less_955_1024 by blast
    obtain k2 fl2 where k2: "free_ptes (page_kva d) (page_kva (pt_page (pde k d i))) i js k1 = Inr k2"
      "released k1 fl1 k2 fl2 d" "\<forall>i < 1024. pde k2 d i = pde k1 d i"
      "\<forall>i' < 955. \<forall>j < 1024. entry k2 d i' j = (if i' = i \<and> j \<in> set js then None else entry k1 d i' j)"
      using Cons.IH [OF fa i] Cons.prems(4,5) unfolding pd by auto
    have "\<forall>i' < 955. \<forall>j' < 1024. entry k2 d i' j' = (if i' = i \<and> j' \<in> set (j # js) then None else entry k d i' j')"
      using k2(4) k1(4) by auto
    thus ?thesis using p k1(1,3) k2(1,3) released_trans [OF k1(2) k2(2)] by auto
  qed
qed

text \<open>Clearing the directory slot of a table without entries and dropping the table.\<close>

lemma cleared_pde:
  assumes fr: "frees k fl" and as: "aspace k d" and i0: "i0 < 955"
    and none: "\<And>j. j < 1024 \<Longrightarrow> entry k d i0 j = None" and m: "kmem t = st32 (kmem k) (page_kva d + 4 * i0) 0"
  shows "i < 1024 \<Longrightarrow> pde t d i = (if i = i0 then 0 else pde k d i)"
    and "i < 955 \<Longrightarrow> j < 1024 \<Longrightarrow> entry t d i j = entry k d i j"
    and "nmaps t d q = nmaps k d q"
    and "ntabs t d q + (if present (pde k d i0) \<and> q = pt_page (pde k d i0) then 1 else 0) = ntabs k d q"
proof -
  have d: "d < 0x10000" using aspaceD(1) [OF as] frees_bounds(5) [OF fr] by blast
  have i1: "i0 < 1024" using i0 by (rule less_955_1024)
  have ld: "ld32 (kmem t) (page_kva p + 4 * i) = (if p = d \<and> i = i0 then 0 else ld32 (kmem k) (page_kva p + 4 * i))"
    if "p < 0x10000" "i < 1024" for p i using that d i1 by (auto simp: m ld32_st32_slot)
  show pd: "pde t d i = (if i = i0 then 0 else pde k d i)" if "i < 1024" for i
    using ld [OF d that] by (simp add: pde_def)
  have p0: "\<not> present 0" by simp
  show en: "entry t d i j = entry k d i j" if ij: "i < 955" "j < 1024" for i j
  proof (cases "i = i0 \<or> \<not> present (pde k d i)")
    case True
    thus ?thesis using pd [OF less_955_1024 [OF ij(1)]] none [OF ij(2)] p0 by (auto simp: entry_def)
  next
    case False
    hence eq: "pde t d i = pde k d i" using pd less_955_1024 [OF ij(1)] by simp
    have "pt_page (pde k d i) < length (pages k)" "pt_page (pde k d i) \<noteq> d"
      using aspaceD(2,3) [OF as ij(1)] False by blast+
    hence "ld32 (kmem t) (slot t d i j) = ld32 (kmem k) (slot k d i j)"
      using ld ij(2) frees_bounds(2) [OF fr] by (simp add: slot_def eq)
    thus ?thesis by (simp add: entry_def eq slot_def)
  qed
  show "nmaps t d q = nmaps k d q" unfolding nmaps_def PDX_UTOP using en by (simp cong: conj_cong)
  let ?A = "{i. i < 955 \<and> present (pde k d i) \<and> pt_page (pde k d i) = q}"
  have "{i. i < 955 \<and> present (pde t d i) \<and> pt_page (pde t d i) = q} = ?A - {i0}"
    using pd less_955_1024 p0 by (auto split: if_splits)
  hence "ntabs t d q = card (?A - {i0})" by (simp add: ntabs_def)
  moreover have "i0 \<in> ?A \<longleftrightarrow> present (pde k d i0) \<and> q = pt_page (pde k d i0)" using i0 by auto
  ultimately show "ntabs t d q + (if present (pde k d i0) \<and> q = pt_page (pde k d i0) then 1 else 0) = ntabs k d q"
    using card_Suc_Diff1 [of ?A i0] by (auto simp: ntabs_def)
qed

lemma drop_table_released:
  assumes fr: "frees k fl" and as: "aspace k d" and i0: "i0 < 955" and pr: "present (pde k d i0)"
    and none: "\<And>j. j < 1024 \<Longrightarrow> entry k d i0 j = None"
  defines "k1 \<equiv> k\<lparr>kmem := st32 (kmem k) (page_kva d + 4 * i0) 0\<rparr>" and "t \<equiv> pt_page (pde k d i0)"
  obtains k' fl' where "page_decref t k1 = Inr k'" "released k fl k' fl' d"
    "\<And>i. i < 1024 \<Longrightarrow> pde k' d i = (if i = i0 then 0 else pde k d i)"
    "\<And>i j. i < 955 \<Longrightarrow> j < 1024 \<Longrightarrow> entry k' d i j = entry k d i j"
proof -
  have t: "t < length (pages k)" "0 < unat (ref_of k t)" "t \<noteq> d"
    using aspaceD(2,3) [OF as i0 pr] aspace_referenced(2) [OF as i0 pr] by (simp_all add: t_def)
  have fr1: "frees k1 fl" "t < length (pages k1)" "0 < unat (ref_of k1 t)" "\<And>q. ref_of k1 q = ref_of k q"
    using fr t by (simp_all add: k1_def ref_of_def)
  let ?fl = "if ref_of k t = 1 then t # fl else fl"
  obtain k' where k': "page_decref t k1 = Inr k'" "frees k' ?fl" "kmem k' = kmem k1"
    "kern_pgdir k' = kern_pgdir k" "length (pages k') = length (pages k)"
    "\<And>j. ref_of k' j = (if j = t then ref_of k j - 1 else ref_of k j)"
    by (rule page_decref_ok [OF fr1(1-3)]) (use fr1(4) in \<open>simp add: k1_def\<close>)
  have "kmem k' = st32 (kmem k) (page_kva d + 4 * i0) 0" using k'(3) by (simp add: k1_def)
  note cp = cleared_pde [OF fr as i0 none this]
  have nt: "ntabs k' d q + (if q = t then 1 else 0) = ntabs k d q" for q
    using cp(4) [of q] pr by (simp add: t_def)
  have rf: "unat (ref_of k' q) + (if q = t then 1 else 0) = unat (ref_of k q)" for q
    using k'(6) [of q] t(2) unat_minus_1 [of "ref_of k q"] by auto
  have "aspace k' d"
  proof (rule aspaceI)
    fix i k assume "i < 955" "k < 955" "present (pde k' d i)" "present (pde k' d k)" "pt_page (pde k' d i) = pt_page (pde k' d k)"
    thus "i = k" using cp(1) less_955_1024 aspaceD(4) [OF as] by (auto split: if_splits)
  next
    fix i assume "i < 955" "present (pde k' d i)"
    thus "pt_page (pde k' d i) < length (pages k') \<and> pt_page (pde k' d i) \<noteq> d"
      using cp(1) less_955_1024 aspaceD(2,3) [OF as] k'(5) by (auto split: if_splits)
  next
    fix q assume "q < length (pages k')"
    thus "nmaps k' d q + ntabs k' d q + (if q = d then 1 else 0) \<le> unat (ref_of k' q)"
      using aspaceD(6) [OF as, of q] cp(3) [of q] nt [of q] rf [of q] k'(5) by auto
  qed (use aspaceD(1,5) [OF as] cp(2) k'(5) in auto)
  moreover have "q \<in> set ?fl \<longleftrightarrow> q \<in> set fl \<or> ref_of k q \<noteq> 0 \<and> ref_of k' q = 0" for q
    using rf [of q] t(2) unfolding u16_unat_iffs by (auto split: if_splits)
  moreover have "unat (ref_of k' q) + (nmaps k d q + ntabs k d q) = unat (ref_of k q) + (nmaps k' d q + ntabs k' d q)"
    "nmaps k' d q + ntabs k' d q \<le> nmaps k d q + ntabs k d q" for q
    using rf [of q] cp(3) [of q] nt [of q] by linarith+
  ultimately have "released k fl k' ?fl d" using k'(2,4,5) unfolding released_def by blast
  thus thesis using that k'(1) cp(1,2) by blast
qed


lemma pteno_list: "set (map of_nat [0..<unat (PTX (NOT 0)) + 1]) = {j :: u32. j < 1024}"
proof -
  have "NOT 0 = (0xFFFFFFFF :: u32)" by simp
  hence "unat (PTX (NOT 0)) = 1023" by (simp only: unat_PTX) simp
  moreover have "j \<in> of_nat ` {0..<1024}" if "j < 1024" for j :: u32
    using that by (intro image_eqI [of _ _ "unat j"]) (simp_all add: word_less_nat_alt)
  ultimately show ?thesis by (auto simp: word_less_nat_alt unat_of_nat_small)
qed

lemma pdeno_list: "set (map of_nat [0..<unat (PDX UTOP)]) = {i :: u32. i < 955}"
proof -
  have "i \<in> of_nat ` {0..<955}" if "i < 955" for i :: u32
    using that by (intro image_eqI [of _ _ "unat i"]) (simp_all add: word_less_nat_alt)
  thus ?thesis by (auto simp: word_less_nat_alt unat_of_nat_small)
qed

lemma free_tables_released:
  assumes "frees k fl" and "aspace k d" and "\<forall>i \<in> set is. i < 955"
  shows "\<exists>k' fl'. free_tables (page_kva d) is k = Inr k' \<and> released k fl k' fl' d \<and>
     (\<forall>i < 955. pde k' d i = (if i \<in> set is \<and> present (pde k d i) then 0 else pde k d i))"
  using assms
proof (induction "is" arbitrary: k fl)
  case Nil
  thus ?case using released_refl by auto
next
  case (Cons i0 rest)
  have i0: "i0 < 955" and rest: "\<forall>i \<in> set rest. i < 955" using Cons.prems(3) by simp_all
  show ?case
  proof (cases "present (pde k d i0)")
    case False
    thus ?thesis using Cons.IH [OF Cons.prems(1,2) rest] by (auto simp: ld32_pde)
  next
    case True
    let ?t = "pt_page (pde k d i0)" and ?js = "map of_nat [0..<unat (PTX (NOT 0)) + 1] :: u32 list"
    have t: "?t < length (pages k)" using aspaceD(2) [OF Cons.prems(2) i0 True] .
    obtain k1 fl1 where k1: "free_ptes (page_kva d) (page_kva ?t) i0 ?js k = Inr k1" "released k fl k1 fl1 d"
      "\<forall>i < 1024. pde k1 d i = pde k d i"
      "\<forall>i < 955. \<forall>j < 1024. entry k1 d i j = (if i = i0 \<and> j \<in> set ?js then None else entry k d i j)"
      using free_ptes_released [OF Cons.prems(1,2) i0 True, of ?js] pteno_list by blast
    have fa: "frees k1 fl1" "aspace k1 d" "length (pages k1) = length (pages k)"
      using k1(2) by (auto simp: released_def)
    have pd1: "pde k1 d i0 = pde k d i0" using k1(3) less_955_1024 [OF i0] by blast
    have none: "entry k1 d i0 j = None" if "j < 1024" for j
      using k1(4) i0 that pteno_list by (metis (mono_tags, lifting) mem_Collect_eq)
    let ?k = "k1\<lparr>kmem := st32 (kmem k1) (page_kva d + 4 * i0) 0\<rparr>"
    obtain k2 fl2 where k2: "page_decref ?t ?k = Inr k2" "released k1 fl1 k2 fl2 d"
      "\<And>i. i < 1024 \<Longrightarrow> pde k2 d i = (if i = i0 then 0 else pde k1 d i)"
      by (rule drop_table_released [OF fa(1,2) i0 _ none]) (use True pd1 in auto)
    have fa2: "frees k2 fl2" "aspace k2 d" using k2(2) by (auto simp: released_def)
    obtain k3 fl3 where k3: "free_tables (page_kva d) rest k2 = Inr k3" "released k2 fl2 k3 fl3 d"
      "\<forall>i < 955. pde k3 d i = (if i \<in> set rest \<and> present (pde k2 d i) then 0 else pde k2 d i)"
      using Cons.IH [OF fa2 rest] by blast
    have "pa2page ?k (PTE_ADDR (pde k d i0)) = Inr ?t"
      using pa2page_entry [of ?k fl1 "pde k d i0"] fa t by simp
    hence "free_tables (page_kva d) (i0 # rest) k = Inr k3"
      using True KADDR_table [OF Cons.prems(1) t] k1(1) k2(1) k3(1) by (simp add: ld32_pde Let_def del: upt_Suc)
    moreover have "released k fl k3 fl3 d" using released_trans [OF released_trans [OF k1(2) k2(2)] k3(2)] .
    moreover have "pde k3 d i = (if i \<in> set (i0 # rest) \<and> present (pde k d i) then 0 else pde k d i)" if "i < 955" for i
    proof -
      have "pde k2 d i = (if i = i0 then 0 else pde k d i)" using k2(3) k1(3) less_955_1024 [OF that] by simp
      thus ?thesis using k3(3) that True by auto
    qed
    ultimately show ?thesis by blast
  qed
qed

text \<open>All of the user part: afterwards the directory uses no page but itself.\<close>

lemma free_user_part:
  assumes "frees k fl" and "aspace k d"
  obtains k' fl' where "free_tables (page_kva d) (map of_nat [0..<unat (PDX UTOP)]) k = Inr k'"
    "released k fl k' fl' d" "\<And>q. nmaps k' d q = 0" "\<And>q. ntabs k' d q = 0"
proof -
  obtain k' fl' where k': "free_tables (page_kva d) (map of_nat [0..<unat (PDX UTOP)]) k = Inr k'" "released k fl k' fl' d"
     "\<forall>i < 955. pde k' d i = (if i < 955 \<and> present (pde k d i) then 0 else pde k d i)"
    using free_tables_released [OF assms, of "map of_nat [0..<unat (PDX UTOP)]"] unfolding pdeno_list by auto
  have "\<not> present (pde k' d i)" if "i < 955" for i using k'(3) that by auto
  hence "nmaps k' d q = 0" "ntabs k' d q = 0" for q by (auto simp: nmaps_def ntabs_def entry_def)
  thus thesis using that k'(1,2) by blast
qed

lemma env_free_ok:
  assumes wf: "env_wf s efl" and e: "e < 1024" "e \<notin> set efl" and pd: "env_pgdir (envs s ! e) = page_kva d"
    and fr: "frees (krn s) fl" and as: "aspace (krn s) d"
    and kd: "kern_pgdir (krn s) = page_kva kd" "kd < 0x10000"
  obtains s' fl' where "env_free e s = Inr s'" "env_wf s' (e # efl)" "frees (krn s') fl'"
    "\<And>q. unat (ref_of (krn s') q) + (nmaps (krn s) d q + ntabs (krn s) d q + (if q = d then 1 else 0)) = unat (ref_of (krn s) q)"
    "\<And>q. q \<in> set fl' \<longleftrightarrow> q \<in> set fl \<or> ref_of (krn s) q \<noteq> 0 \<and> ref_of (krn s') q = 0"
    "\<And>j. j < 1024 \<Longrightarrow> j \<noteq> e \<Longrightarrow> envs s' ! j = envs s ! j"
    "env_status (envs s' ! e) = ENV_FREE" "env_id (envs s' ! e) = env_id (envs s ! e)"
proof -
  define s0 where "s0 = (if Some e = curenv s then lcr3 (page2pa kd) s else s)"
  have s0: "res_bind (if Some e = curenv s then res_bind (PADDR (kern_pgdir (krn s))) (\<lambda>pa. Inr (lcr3 pa s)) else Inr s) f = f s0"
    for f :: "ekern \<Rightarrow> kerr + ekern" using PADDR_page_kva [OF kd(2)] kd(1) by (simp add: s0_def)
  have eq: "envs s0 = envs s" "curenv s0 = curenv s" "env_free_list s0 = env_free_list s" "kmem (krn s0) = kmem (krn s)"
    "frees (krn s0) fl" "\<And>q. ref_of (krn s0) q = ref_of (krn s) q" "length (pages (krn s0)) = length (pages (krn s))"
    using fr by (simp_all add: s0_def ref_of_def)
  note kc = kmem_cong [OF eq(4)]
  have as0: "aspace (krn s0) d" using as unfolding aspace_def kc eq(6,7) .
  have dl: "d < length (pages (krn s))" "d < 0x10000" using aspaceD(1) [OF as] frees_bounds(5) [OF fr] by auto
  obtain k fl1 where k: "free_tables (page_kva d) (map of_nat [0..<unat (PDX UTOP)]) (krn s0) = Inr k"
    "released (krn s0) fl k fl1 d" "\<And>q. nmaps k d q = 0" "\<And>q. ntabs k d q = 0"
    by (rule free_user_part [OF eq(5) as0]) blast
  have k': "frees k fl1" "aspace k d" "length (pages k) = length (pages (krn s))" using k(2) eq(7) by (auto simp: released_def)
  have acc: "unat (ref_of k q) + (nmaps (krn s) d q + ntabs (krn s) d q) = unat (ref_of (krn s) q)" for q
    using k(2) k(3,4) [of q] unfolding released_def kc eq(6) by simp
  obtain k2 where k2: "page_decref d k = Inr k2" "frees k2 (if ref_of k d = 1 then d # fl1 else fl1)"
    "\<And>j. ref_of k2 j = (if j = d then ref_of k j - 1 else ref_of k j)"
    by (rule page_decref_ok [OF k'(1) _ aspace_referenced(1) [OF k'(2)]]) (use k'(3) dl in auto)
  have "pa2page k (page2pa d) = Inr d"
    using pa2page_page2pa [of d k] frees_bounds(1) [OF k'(1)] k'(3) dl by simp
  define s' where "s' = (upd_env e (\<lambda>v. v\<lparr>env_pgdir := 0, env_status := ENV_FREE, env_link := env_free_list s\<rparr>)
     (s0\<lparr>krn := k2\<rparr>))\<lparr>env_free_list := Some e\<rparr>"
  have run: "env_free e s = Inr s'"
    using k(1) k2(1) PADDR_page_kva [OF dl(2)] \<open>pa2page k (page2pa d) = Inr d\<close>
    unfolding env_free_def s0 Let_def eq(1,3) pd by (simp add: s'_def del: PDX_UTOP upt_rec_numeral)
  have nth: "envs s' ! j = (if j = e then (envs s ! e)\<lparr>env_pgdir := 0, env_status := ENV_FREE, env_link := env_free_list s\<rparr>
     else envs s ! j)" if "j < 1024" for j using that env_wfD(1) [OF wf] eq(1) by (simp add: s'_def)
  have "env_wf s' (e # efl)"
  proof (rule env_wfI)
    have "linked (\<lambda>i. env_link (envs s' ! i)) (env_free_list s) efl"
      using env_wfD(3,4) [OF wf] e by (subst linked_cong [where h' = "\<lambda>i. env_link (envs s ! i)"]) (auto simp: nth)
    thus "linked (\<lambda>i. env_link (envs s' ! i)) (env_free_list s') (e # efl)" using nth [OF e(1)] by (simp add: s'_def)
  next
    fix i :: nat assume i: "i < 1024"
    show "env_status (envs s' ! i) = ENV_FREE \<longleftrightarrow> i \<in> set (e # efl)"
      using env_wfD(5) [OF wf i] i by (auto simp: nth)
    show "(env_id (envs s' ! i) = 0 \<and> i \<in> set (e # efl)) \<or> env_id_ok i (env_id (envs s' ! i))"
      using env_wfD(6) [OF wf i] i by (auto simp: nth)
    have "curenv s' = curenv s" using eq(2) by (simp add: s'_def)
    thus "curenv s' = Some i" if "env_status (envs s' ! i) = ENV_RUNNING"
      using that env_wfD(7) [OF wf i] i by (auto simp: nth split: if_splits)
  qed (use e env_wfD(1,2,3,8) [OF wf] eq in \<open>auto simp: s'_def\<close>)
  moreover have kk: "krn s' = k2" by (simp add: s'_def)
  moreover have rf: "unat (ref_of k2 q) + (if q = d then 1 else 0) = unat (ref_of k q)" for q
    using k2(3) [of q] aspace_referenced(1) [OF k'(2)] unat_minus_1 [of "ref_of k q"] by auto
  moreover have "q \<in> set (if ref_of k d = 1 then d # fl1 else fl1) \<longleftrightarrow> q \<in> set fl \<or> ref_of (krn s) q \<noteq> 0 \<and> ref_of k2 q = 0" for q
  proof -
    have "q \<in> set fl1 \<longleftrightarrow> q \<in> set fl \<or> ref_of (krn s) q \<noteq> 0 \<and> ref_of k q = 0"
      using k(2) unfolding released_def eq(6) by blast
    thus ?thesis using rf [of q] acc [of q] aspace_referenced(1) [OF k'(2)]
      unfolding u16_unat_iffs by (auto split: if_splits)
  qed
  moreover have "unat (ref_of k2 q) + (nmaps (krn s) d q + ntabs (krn s) d q + (if q = d then 1 else 0)) = unat (ref_of (krn s) q)"
    for q using rf [of q] acc [of q] by linarith
  ultimately show thesis
    by (intro that [OF run, of "if ref_of k d = 1 then d # fl1 else fl1"]) (use k2(2) nth e(1) in simp_all)
qed

section \<open>region_alloc\<close>

lemma popped_aspace:
  assumes fr: "frees k (x # fl)" and as: "aspace k d"
  shows "aspace (popped 0 x k) d" and "mapping (popped 0 x k) d va = mapping k d va"
    and "x < length (pages (popped 0 x k))" and "ref_of (popped 0 x k) x = 0"
proof -
  have x: "x < length (pages k)" "ref_of k x = 0" using fr by (auto simp: frees_def)
  have m: "kmem (popped 0 x k) = kmem k" by simp
  have "ref_of (popped 0 x k) q = ref_of k q" for q using x by auto
  thus "aspace (popped 0 x k) d" using as unfolding aspace_def kmem_cong [OF m] by simp
  show "mapping (popped 0 x k) d va = mapping k d va" by (simp add: mapping_def kmem_cong [OF m])
  show "x < length (pages (popped 0 x k))" "ref_of (popped 0 x k) x = 0" using x by simp_all
qed

lemma PGNUM_step:
  assumes "unat va + 4096 \<le> unat UTOP"
  shows "PGNUM (va + PGSIZE) = PGNUM va + 1" and "unat (va + PGSIZE) = unat va + 4096"
    and "unat (PGNUM va + 1) = unat (PGNUM va) + 1"
proof -
  show u: "unat (va + PGSIZE) = unat va + 4096" using assms by (simp add: unat_add_no_carry)
  have "unat (PGNUM va) < 2 ^ 20" using unat_lt_2p32 [of va] by (simp add: unat_PGNUM div_less_iff_less_mult)
  thus v: "unat (PGNUM va + 1) = unat (PGNUM va) + 1" by (simp add: unat_add_no_carry)
  have "unat (PGNUM (va + PGSIZE)) = unat (PGNUM va) + 1" unfolding unat_PGNUM u by simp
  thus "PGNUM (va + PGSIZE) = PGNUM va + 1" using v by (simp add: word_unat_eq_iff)
qed

text \<open>\<open>n\<close> pages from \<open>va\<close> on. Two free pages for each page to map are always enough: one for
  the page and one for a page table.\<close>

lemma region_alloc_loop_ok:
  "frees k fl \<Longrightarrow> aspace k d \<Longrightarrow> unat va + n * 4096 \<le> unat UTOP \<Longrightarrow> 2 * n \<le> length fl \<Longrightarrow>
   \<exists>k' fl'. region_alloc_loop n (page_kva d) va k = Inr k' \<and> frees k' fl' \<and> aspace k' d \<and>
     length fl \<le> length fl' + 2 * n \<and> length (pages k') = length (pages k) \<and> kern_pgdir k' = kern_pgdir k \<and>
     (\<forall>w < UTOP. if unat (PGNUM va) \<le> unat (PGNUM w) \<and> unat (PGNUM w) < unat (PGNUM va) + n
        then \<exists>q. mapping k' d w = Some (page2pa q OR 7) \<and> q < length (pages k)
        else mapping k' d w = mapping k d w)"
proof (induction n arbitrary: k fl va)
  case (Suc n)
  obtain x rest where fl: "fl = x # rest" "rest \<noteq> []" using Suc.prems(4) by (cases fl; cases "tl fl") auto
  have fr: "frees k (x # rest)" using Suc.prems(1) fl by simp
  let ?k = "popped 0 x k"
  have va: "va < UTOP" and step: "unat va + 4096 \<le> unat UTOP" using Suc.prems(3) by (simp_all add: word_less_nat_alt)
  note pa = popped_aspace [OF fr Suc.prems(2)]
  have x: "x \<notin> set rest" "frees ?k rest" using fr page_alloc_Cons(2) [OF fr] by (auto simp: frees_def)
  have "(7 :: u32) < 4096" by simp
  from page_insert_result [OF x(2) pa(1) va pa(3) x(1) _ this] pa(4) fl(2)
  obtain k1 fl1 where k1: "page_insert (page_kva d) x va 7 ?k = Inr (0, k1)" "frees k1 fl1" "aspace k1 d"
    "length (pages k1) = length (pages k)" "inserted ?k k1 d x va 7 rest" "length rest \<le> length fl1 + 1"
    "kern_pgdir k1 = kern_pgdir k" by (auto simp: popped_def)
  have m1: "mapping k1 d w = (if PGNUM w = PGNUM va then Some (page2pa x OR 7) else mapping k d w)" if "w < UTOP" for w
    using inserted_mapping [OF k1(5) that] pa(2) [of w] by (simp add: or.assoc)
  note ps = PGNUM_step [OF step]
  have "\<exists>k' fl'. region_alloc_loop n (page_kva d) (va + PGSIZE) k1 = Inr k' \<and> frees k' fl' \<and> aspace k' d \<and>
     length fl1 \<le> length fl' + 2 * n \<and> length (pages k') = length (pages k1) \<and> kern_pgdir k' = kern_pgdir k1 \<and>
     (\<forall>w < UTOP. if unat (PGNUM va) + 1 \<le> unat (PGNUM w) \<and> unat (PGNUM w) < unat (PGNUM va) + 1 + n
        then \<exists>q. mapping k' d w = Some (page2pa q OR 7) \<and> q < length (pages k1)
        else mapping k' d w = mapping k1 d w)"
    using Suc.IH [OF k1(2,3), of "va + PGSIZE"] ps Suc.prems(3,4) fl k1(6) by simp
  then obtain k' fl' where k': "region_alloc_loop n (page_kva d) (va + PGSIZE) k1 = Inr k'" "frees k' fl'" "aspace k' d"
     "length fl1 \<le> length fl' + 2 * n" "length (pages k') = length (pages k1)" "kern_pgdir k' = kern_pgdir k1"
     "\<And>w. w < UTOP \<Longrightarrow> if unat (PGNUM va) + 1 \<le> unat (PGNUM w) \<and> unat (PGNUM w) < unat (PGNUM va) + 1 + n
        then \<exists>q. mapping k' d w = Some (page2pa q OR 7) \<and> q < length (pages k1)
        else mapping k' d w = mapping k1 d w" by blast
  have "if unat (PGNUM va) \<le> unat (PGNUM w) \<and> unat (PGNUM w) < unat (PGNUM va) + Suc n
        then \<exists>q. mapping k' d w = Some (page2pa q OR 7) \<and> q < length (pages k)
        else mapping k' d w = mapping k d w" if w: "w < UTOP" for w
  proof (cases "PGNUM w = PGNUM va")
    case True
    thus ?thesis using k'(7) [OF w] m1 [OF w] pa(3) by auto
  next
    case False
    hence "unat (PGNUM w) \<noteq> unat (PGNUM va)" by (simp add: word_unat_eq_iff)
    thus ?thesis using k'(7) [OF w] m1 [OF w] False k1(4) by (auto split: if_splits)
  qed
  moreover have "region_alloc_loop (Suc n) (page_kva d) va k = Inr k'"
    using page_alloc_Cons(1) [OF fr, of 0] k1(1) k'(1) by simp
  ultimately show ?case using k' k1 fl by auto
qed auto


lemma ROUNDDOWN_page:
  "unat (ROUNDDOWN va PGSIZE) = unat va - unat va mod 4096" "PGNUM (ROUNDDOWN va PGSIZE) = PGNUM va"
  by (simp_all add: unat_ROUNDDOWN word_unat_eq_iff unat_PGNUM minus_mod_eq_div_mult)

lemma region_alloc_pages:
  assumes "unat len + 4096 \<le> 2 ^ 32"
  shows "region_alloc pgdir va len k =
     region_alloc_loop ((unat len + 4095) div 4096) pgdir (ROUNDDOWN va PGSIZE) k"
proof -
  have "unat (ROUNDUP len PGSIZE) = (unat len + 4095) div 4096 * 4096"
    using ROUNDUP_unat [of PGSIZE len] assms by simp
  hence "unat (ROUNDUP len PGSIZE div PGSIZE) = (unat len + 4095) div 4096" by (simp add: unat_div)
  thus ?thesis unfolding region_alloc_def Let_def by (simp only:)
qed

section \<open>Properties\<close>

text \<open>A table of zeroed environments, as \<open>mem_init\<close> leaves it, in the kernel of \<open>demo_aspace\<close>.\<close>

definition zero_env :: Env where
  "zero_env = \<lparr>env_tf = zero_tf, env_link = None, env_id = 0, env_parent_id = 0, env_type = ENV_TYPE_USER,
     env_status = ENV_FREE, env_runs = 0, env_pgdir = 0\<rparr>"

definition demo_ekern :: ekern where
  "demo_ekern = \<lparr>krn = demo_aspace, envs = replicate NENV zero_env, curenv = None, env_free_list = None,
     gdt = gdt_init, hw = \<lparr>cr0 = 0, cr3 = 0, gdtr = [], ldtr = 0, seg_gs = 0, seg_fs = 0, seg_es = 0,
       seg_ds = 0, seg_ss = 0, seg_cs = 0\<rparr>\<rparr>"

lemma upt_1024: "[0..<NENV] = 0 # [1..<1024]"
  unfolding NENV_1024 One_nat_def by (subst upt_conv_Cons) (rule zero_less_numeral, rule refl)

lemma demo_ekern_simps:
  "length (envs demo_ekern) = NENV" "env_free_list demo_ekern = None" "curenv demo_ekern = None" "krn demo_ekern = demo_aspace"
  by (simp_all add: demo_ekern_def del: NENV_def)

lemma demo_env_init:
  "env_wf (env_init demo_ekern) (0 # [1..<1024])" "krn (env_init demo_ekern) = demo_aspace"
  using env_init_wf [OF demo_ekern_simps(1-3)] unfolding upt_1024 demo_ekern_simps(4) by blast+

lemma demo_kern_pgdir: "kern_pgdir demo_aspace = page_kva 0" "0 < length (pages demo_aspace)" "0 \<notin> set [3, 2 :: nat]"
  by (simp_all add: demo_aspace_def page_kva_def page2pa_def)

text \<open>\<open>env_init\<close> on the zeroed table marks all environments free and links them in the order
  of the table, so that the first \<open>env_alloc\<close> takes \<open>envs[0]\<close>; it changes no memory and loads
  the descriptor table.\<close>

theorem env_init_spec:
  assumes "length (envs s) = NENV" and "env_free_list s = None" and "curenv s = None"
  shows "env_wf (env_init s) [0..<NENV] \<and> krn (env_init s) = krn s \<and> gdtr (hw (env_init s)) = gdt s"
  using env_init_wf [OF assms] by blast

theorem env_init_spec_witness: "env_wf (env_init demo_ekern) [0..<NENV]"
  using env_init_spec [OF demo_ekern_simps(1-3)] by blast

text \<open>the segments of the descriptor table are flat: code and data segments of both rings
  start at 0 and reach the end of the address space, and differ in their privilege level.\<close>

theorem gdt_flat:
  "map (\<lambda>d. (seg_base d, seg_limit d, sd_dpl d, sd_p d)) (take 4 (drop 1 gdt_init)) =
     [(0, 0xffffffff, 0, 1), (0, 0xffffffff, 0, 1), (0, 0xffffffff, 3, 1), (0, 0xffffffff, 3, 1)]"
  by (simp add: gdt_init_def seg_base_SEG seg_limit_SEG) (simp add: SEG_def)

text \<open>What it means that identifier \<open>envid\<close> gives access to environment \<open>e\<close>.\<close>

definition env_accessible :: "ekern \<Rightarrow> u32 \<Rightarrow> bool \<Rightarrow> nat \<Rightarrow> bool" where
  "env_accessible s envid checkperm e \<longleftrightarrow>
     e < NENV \<and> env_status (envs s ! e) \<noteq> ENV_FREE \<and> env_id (envs s ! e) = envid \<and>
     (checkperm \<longrightarrow> curenv s = Some e \<or> (\<exists>c. curenv s = Some c \<and> env_parent_id (envs s ! e) = env_id (envs s ! c)))"

lemma envid2env_accessible:
  assumes "env_wf s efl" and "envid \<noteq> 0" and "curenv s = Some c"
  shows "envid2env envid checkperm s =
      (if env_accessible s envid checkperm (unat (ENVX envid)) then Inr (0, Some (unat (ENVX envid)))
       else Inr (- E_BAD_ENV, None))"
    and "env_accessible s envid checkperm e \<Longrightarrow> unat (ENVX envid) = e"
proof -
  show "envid2env envid checkperm s =
      (if env_accessible s envid checkperm (unat (ENVX envid)) then Inr (0, Some (unat (ENVX envid)))
       else Inr (- E_BAD_ENV, None))"
    unfolding envid2env_eq [OF assms] Let_def env_accessible_def using assms(3) by (auto simp: ENVX_unat)
  show "unat (ENVX envid) = e" if "env_accessible s envid checkperm e"
    using env_id_slot(2) [OF assms(1), of e] that by (auto simp: env_accessible_def)
qed


lemma demo_env_alloc:
  obtains s' where "env_alloc 0 (env_init demo_ekern) = Inr (0, Some 0, s')" "krn s' = with_dir demo_aspace 3 0"
    "env_wf s' [1..<1024]" "env_id (envs s' ! 0) = 0x1000" "env_pgdir (envs s' ! 0) = page_kva 3"
    "env_status (envs s' ! 0) = ENV_RUNNABLE"
proof -
  have fr: "frees (krn (env_init demo_ekern)) (3 # [2])" using demo_aspace_frees demo_env_init(2) by simp
  have i0: "env_id (envs (env_init demo_ekern) ! 0) = 0"
  proof -
    have "env_id (envs (env_init_loop NENV demo_ekern) ! 0) = 0"
      using env_init_loop_spec [of NENV demo_ekern NENV, unfolded Let_def] demo_ekern_simps by simp
    thus ?thesis by (simp add: env_init_def env_init_percpu_def)
  qed
  show thesis
    by (rule env_alloc_ok [OF demo_env_init(1) fr, of 0 0])
       (use that demo_kern_pgdir demo_env_init(2) i0 in \<open>auto simp: next_generation_def push_bit_eq_mult\<close>)
qed




text \<open>C11: identifiers are not reused at once. After \<open>env_alloc\<close> has put a new environment into a
  slot, its identifier leads to it, and the identifier of the previous environment of
  that slot is rejected.\<close>

theorem env_alloc_invalidates_old_id:
  assumes "env_wf s (e # efl)" and "frees (krn s) (x # fl)"
    and "kern_pgdir (krn s) = page_kva kd" and "kd < length (pages (krn s))" and "kd \<noteq> x"
    and "curenv s = Some c" and "env_id (envs s ! e) \<noteq> 0"
  shows "\<exists>s'. env_alloc parent s = Inr (0, Some e, s') \<and>
     envid2env (env_id (envs s' ! e)) False s' = Inr (0, Some e) \<and>
     envid2env (env_id (envs s ! e)) False s' = Inr (- E_BAD_ENV, None)"
proof -
  have e: "e < 1024" using env_wfD(3) [OF assms(1), of e] by simp
  have old: "env_id_ok e (env_id (envs s ! e))" using env_wfD(6) [OF assms(1) e] assms(7) by auto
  note id = new_env_id [OF e disjI2 [OF old]]
  have zero: "y \<noteq> 0" if "env_id_ok e y" for y using that by (auto simp: env_id_ok_def)
  show ?thesis
  proof (rule env_alloc_ok [OF assms(1-5), of parent], goal_cases)
    case (1 s')
    hence c: "curenv s' = Some c" using assms(6) by simp
    have new: "env_id (envs s' ! e) = next_generation (env_id (envs s ! e)) OR of_nat e"
      "env_status (envs s' ! e) = ENV_RUNNABLE" using 1(5) by simp_all
    have ex: "unat (ENVX (env_id (envs s' ! e))) = e" "unat (ENVX (env_id (envs s ! e))) = e"
      using id(1) old unfolding new(1) env_id_ok_def by auto
    have "envid2env (env_id (envs s' ! e)) False s' = Inr (0, Some e)"
      using envid2env_eq [OF 1(3) zero c] id(1) new ex(1) by (simp add: Let_def)
    moreover have "envid2env (env_id (envs s ! e)) False s' = Inr (- E_BAD_ENV, None)"
      using envid2env_eq [OF 1(3) zero [OF old] c] id(2) new ex(2) by (simp add: Let_def)
    ultimately show ?case using 1(1) by blast
  qed
qed

text \<open>C9: \<open>env_free\<close> returns everything the environment used. It always succeeds on an environment
  with a well-formed address space, puts it at the head of the list of free environments,
  drops from every page exactly the references of the user mappings, of the page tables and
  of the directory, and the pages that become free are exactly those left without references.
  No other environment changes.\<close>

theorem env_free_spec:
  assumes "env_wf s efl" and "e < NENV" and "e \<notin> set efl" and "env_pgdir (envs s ! e) = page_kva d"
    and "frees (krn s) fl" and "aspace (krn s) d" and "kern_pgdir (krn s) = page_kva kd" and "kd < 0x10000"
  shows "\<exists>s' fl'. env_free e s = Inr s' \<and> env_wf s' (e # efl) \<and> frees (krn s') fl' \<and>
     (\<forall>q. unat (ref_of (krn s') q) + (nmaps (krn s) d q + ntabs (krn s) d q + (if q = d then 1 else 0)) =
        unat (ref_of (krn s) q)) \<and>
     (\<forall>q. q \<in> set fl' \<longleftrightarrow> q \<in> set fl \<or> ref_of (krn s) q \<noteq> 0 \<and> ref_of (krn s') q = 0) \<and>
     (\<forall>j < NENV. j \<noteq> e \<longrightarrow> envs s' ! j = envs s ! j)"
proof -
  have "e < 1024" using assms(2) by simp
  from env_free_ok [OF assms(1) this assms(3-8)] show ?thesis by (smt (verit) NENV_1024)
qed

theorem env_free_spec_witness:
  "\<exists>s s'. env_alloc 0 (env_init demo_ekern) = Inr (0, Some 0, s) \<and> env_free 0 s = Inr s' \<and> env_wf s' (0 # [1..<1024])"
proof (rule demo_env_alloc)
  fix s assume s: "env_alloc 0 (env_init demo_ekern) = Inr (0, Some 0, s)" "krn s = with_dir demo_aspace 3 0"
    "env_wf s [1..<1024]" "env_pgdir (envs s ! 0) = page_kva 3"
  have low: "\<not> present (pde demo_aspace 0 i)" for i by simp
  note wd = with_dir [OF demo_aspace_frees demo_kern_pgdir(2) _ low]
  have "frees (krn s) [2]" "aspace (krn s) 3" "kern_pgdir (krn s) = page_kva 0"
    unfolding s(2) using wd(1,3,7) demo_kern_pgdir(1) by simp_all
  from env_free_spec [OF s(3) _ _ s(4) this, simplified NENV_1024] s(1) show ?thesis by auto
qed

text \<open>\<open>env_run\<close> makes the environment the only running one: the environment that was running
  becomes runnable again, all others keep their status, its page directory is loaded, its run
  counter goes up by one, and the trap frame it resumes from is the saved one.\<close>

theorem env_run_spec:
  assumes "env_wf s efl" and "e < NENV" and "e \<notin> set efl" and "PADDR (env_pgdir (envs s ! e)) = Inr pa"
  shows "\<exists>s'. env_run e s = Inr (env_tf (envs s ! e), s') \<and> env_wf s' efl \<and> curenv s' = Some e \<and>
     cr3 (hw s') = pa \<and> env_runs (envs s' ! e) = env_runs (envs s ! e) + 1 \<and>
     (\<forall>j < NENV. env_status (envs s' ! j) =
        (if j = e then ENV_RUNNING
         else if env_status (envs s ! j) = ENV_RUNNING then ENV_RUNNABLE else env_status (envs s ! j)))"
proof -
  have e: "e < 1024" using assms(2) by simp
  show ?thesis
  proof (rule env_run_wf [OF assms(1) e assms(3,4)], goal_cases)
    case (1 s')
    moreover have "env_status (envs s' ! j) =
        (if j = e then ENV_RUNNING
         else if env_status (envs s ! j) = ENV_RUNNING then ENV_RUNNABLE else env_status (envs s ! j))" if "j < 1024" for j
      using 1(5,7) that env_wfD(7) [OF assms(1) that] by auto
    ultimately show ?case unfolding NENV_1024 by blast
  qed
qed

theorem env_run_spec_witness:
  "\<exists>s s'. env_alloc 0 (env_init demo_ekern) = Inr (0, Some 0, s) \<and>
     env_run 0 s = Inr (env_tf (envs s ! 0), s') \<and> curenv s' = Some 0 \<and> cr3 (hw s') = 0x3000"
proof (rule demo_env_alloc)
  fix s assume s: "env_alloc 0 (env_init demo_ekern) = Inr (0, Some 0, s)" "env_wf s [1..<1024]"
    "env_pgdir (envs s ! 0) = page_kva 3"
  have "PADDR (env_pgdir (envs s ! 0)) = Inr 0x3000"
    using s(3) PADDR_page_kva [of 3] by (simp add: page2pa_def)
  from env_run_spec [OF s(2) _ _ this] s(1) show ?thesis by auto
qed

text \<open>The table after an environment with identifier \<open>0x1000\<close> has come and gone in slot 0.\<close>

definition demo_used_slot :: ekern where
  "demo_used_slot = (upd_env 0 (\<lambda>v. v\<lparr>env_id := 0x1000\<rparr>) (env_init demo_ekern))\<lparr>curenv := Some 0\<rparr>"

lemma demo_used_slot_wf: "env_wf demo_used_slot (0 # [1..<1024])"
proof -
  note wf = demo_env_init(1)
  have len: "length (envs (env_init demo_ekern)) = 1024" using env_wfD(1) [OF wf] .
  have nth: "envs demo_used_slot ! j = (if j = 0 then (envs (env_init demo_ekern) ! 0)\<lparr>env_id := 0x1000\<rparr>
     else envs (env_init demo_ekern) ! j)" if "j < 1024" for j
    using that len by (simp add: demo_used_slot_def)
  have lk: "linked (\<lambda>i. env_link (envs demo_used_slot ! i)) (env_free_list (env_init demo_ekern)) (0 # [1..<1024])"
    using env_wfD(3,4) [OF wf]
    by (subst linked_cong [where h' = "\<lambda>i. env_link (envs (env_init demo_ekern) ! i)"]) (auto simp: nth simp del: upt_rec_numeral)
  have id: "env_id_ok 0 0x1000" by (simp add: env_id_ok_def ENVX_unat sless_0_iff)
  show ?thesis
  proof (rule env_wfI)
    fix i :: nat assume i: "i < 1024"
    show "(env_status (envs demo_used_slot ! i) = ENV_FREE) = (i \<in> set (0 # [1..<1024]))"
      using env_wfD(5) [OF wf i] nth [OF i] i by (auto simp del: upt_rec_numeral split: if_splits)
    show "env_id (envs demo_used_slot ! i) = 0 \<and> i \<in> set (0 # [1..<1024]) \<or> env_id_ok i (env_id (envs demo_used_slot ! i))"
      using env_wfD(6) [OF wf i] nth [OF i] id by (auto simp del: upt_rec_numeral)
    show "curenv demo_used_slot = Some i" if "env_status (envs demo_used_slot ! i) = ENV_RUNNING"
      using that env_wfD(5) [OF wf i] nth [OF i] i by (auto simp del: upt_rec_numeral split: if_splits)
  qed (use lk len env_wfD(2) [OF wf] in \<open>auto simp: demo_used_slot_def simp del: upt_rec_numeral\<close>)
qed

theorem env_alloc_invalidates_old_id_witness:
  "\<exists>s'. env_alloc 0 demo_used_slot = Inr (0, Some 0, s') \<and>
     envid2env 0x1000 False s' = Inr (- E_BAD_ENV, None)"
proof -
  have k: "krn demo_used_slot = demo_aspace" "curenv demo_used_slot = Some 0" "env_id (envs demo_used_slot ! 0) = 0x1000"
    using demo_env_init(2) env_wfD(1) [OF demo_env_init(1)] by (simp_all add: demo_used_slot_def)
  show ?thesis
    using env_alloc_invalidates_old_id [OF demo_used_slot_wf, of 3 "[2]" 0 0 0] k demo_aspace_frees demo_kern_pgdir by auto
qed

text \<open>C14: \<open>region_alloc\<close> with enough free pages (two for each page to map). It maps a writable user
  page at every page of the range that starts with the page of \<open>va\<close> and has \<open>len\<close> bytes rounded
  up to whole pages, keeps all other user mappings, and keeps the invariants.\<close>

theorem region_alloc_spec:
  assumes "frees k fl" and "aspace k d" and "unat len + 4096 \<le> 2 ^ 32"
    and "unat va - unat va mod 4096 + (unat len + 4095) div 4096 * 4096 \<le> unat UTOP"
    and "2 * ((unat len + 4095) div 4096) \<le> length fl"
  shows "\<exists>k' fl'. region_alloc (page_kva d) va len k = Inr k' \<and> frees k' fl' \<and> aspace k' d \<and>
     (\<forall>w < UTOP. if unat (PGNUM va) \<le> unat (PGNUM w) \<and> unat (PGNUM w) < unat (PGNUM va) + (unat len + 4095) div 4096
        then \<exists>q < length (pages k). mapping k' d w = Some (page2pa q OR PTE_U OR PTE_W OR PTE_P)
        else mapping k' d w = mapping k d w)"
proof -
  let ?n = "(unat len + 4095) div 4096" and ?v = "ROUNDDOWN va PGSIZE"
  note v = ROUNDDOWN_page [of va]
  have "\<exists>k' fl'. region_alloc_loop ?n (page_kva d) ?v k = Inr k' \<and> frees k' fl' \<and> aspace k' d \<and>
     length fl \<le> length fl' + 2 * ?n \<and> length (pages k') = length (pages k) \<and> kern_pgdir k' = kern_pgdir k \<and>
     (\<forall>w < UTOP. if unat (PGNUM ?v) \<le> unat (PGNUM w) \<and> unat (PGNUM w) < unat (PGNUM ?v) + ?n
        then \<exists>q. mapping k' d w = Some (page2pa q OR 7) \<and> q < length (pages k)
        else mapping k' d w = mapping k d w)"
    by (rule region_alloc_loop_ok [OF assms(1,2)]) (use assms(4,5) v in simp_all)
  moreover have "PTE_U OR PTE_W OR PTE_P = 7" by simp
  ultimately show ?thesis unfolding region_alloc_pages [OF assms(3)] v(2) by metis
qed

theorem region_alloc_spec_witness:
  "\<exists>k' fl'. region_alloc (page_kva 0) 0x800000 4 demo_aspace = Inr k' \<and> frees k' fl' \<and>
     (\<exists>q. mapping k' 0 0x800000 = Some (page2pa q OR 7))"
proof -
  have "\<exists>k' fl'. region_alloc (page_kva 0) 0x800000 4 demo_aspace = Inr k' \<and> frees k' fl' \<and> aspace k' 0 \<and>
     (\<forall>w < UTOP. if unat (PGNUM 0x800000) \<le> unat (PGNUM w) \<and> unat (PGNUM w) < unat (PGNUM 0x800000) + 1
        then \<exists>q < length (pages demo_aspace). mapping k' 0 w = Some (page2pa q OR PTE_U OR PTE_W OR PTE_P)
        else mapping k' 0 w = mapping demo_aspace 0 w)"
    using region_alloc_spec [OF demo_aspace_frees demo_aspace_aspace, of 4 "0x800000"] by simp
  then obtain k' fl' where k': "region_alloc (page_kva 0) 0x800000 4 demo_aspace = Inr k'" "frees k' fl'"
    "\<forall>w < UTOP. if unat (PGNUM 0x800000) \<le> unat (PGNUM w) \<and> unat (PGNUM w) < unat (PGNUM 0x800000) + 1
        then \<exists>q < length (pages demo_aspace). mapping k' 0 w = Some (page2pa q OR PTE_U OR PTE_W OR PTE_P)
        else mapping k' 0 w = mapping demo_aspace 0 w" by blast
  from spec [OF k'(3), of "0x800000"] k'(1,2) show ?thesis by (auto simp: or.assoc)
qed

text \<open>C20: \<open>region_alloc\<close> rounds \<open>len\<close> up without the offset of \<open>va\<close> in its page. When the range
  straddles one more page boundary than its length alone accounts for, the page of its
  last byte is left as it was, although the rest is mapped.\<close>

theorem region_alloc_misses_last_page:
  assumes "frees k fl" and "aspace k d" and "0 < unat len"
    and "unat va - unat va mod 4096 + (unat len + 4095) div 4096 * 4096 \<le> unat va + unat len - 1"
    and "unat va + unat len < unat UTOP" and "2 * ((unat len + 4095) div 4096) \<le> length fl"
  shows "\<exists>k'. region_alloc (page_kva d) va len k = Inr k' \<and> mapping k' d (va + len - 1) = mapping k d (va + len - 1)"
proof -
  let ?n = "(unat len + 4095) div 4096" and ?v = "ROUNDDOWN va PGSIZE"
  have l: "unat (va + len - 1) = unat va + unat len - 1"
    using assms(3,5) by (simp add: unat_sub_no_borrow unat_add_no_carry)
  have len: "unat len + 4096 \<le> 2 ^ 32" using assms(5) by simp
  note v = ROUNDDOWN_page [of va]
  have "\<exists>k' fl'. region_alloc_loop ?n (page_kva d) ?v k = Inr k' \<and> frees k' fl' \<and> aspace k' d \<and>
     length fl \<le> length fl' + 2 * ?n \<and> length (pages k') = length (pages k) \<and> kern_pgdir k' = kern_pgdir k \<and>
     (\<forall>w < UTOP. if unat (PGNUM ?v) \<le> unat (PGNUM w) \<and> unat (PGNUM w) < unat (PGNUM ?v) + ?n
        then \<exists>q. mapping k' d w = Some (page2pa q OR 7) \<and> q < length (pages k)
        else mapping k' d w = mapping k d w)"
    by (rule region_alloc_loop_ok [OF assms(1,2) _ assms(6)]) (use assms(4,5) v(1) in linarith)
  moreover have "va + len - 1 < UTOP" using l assms(5) by (simp add: word_less_nat_alt)
  moreover have "\<not> unat (PGNUM (va + len - 1)) < unat (PGNUM va) + ?n"
  proof -
    have "(unat va div 4096 + ?n) * 4096 \<le> unat (va + len - 1)"
      using assms(4) unfolding l by (simp add: minus_mod_eq_div_mult add_mult_distrib)
    thus ?thesis unfolding unat_PGNUM by (simp add: less_eq_div_iff_mult_less_eq not_less)
  qed
  ultimately show ?thesis unfolding region_alloc_pages [OF len] v(2) by metis
qed

theorem region_alloc_misses_last_page_witness:
  "\<exists>k'. region_alloc (page_kva 0) 0x800800 0x1000 demo_aspace = Inr k' \<and> mapping k' 0 0x8017FF = None"
proof -
  have "0x800800 + 0x1000 - 1 = (0x8017FF :: u32)" by simp
  thus ?thesis
    using region_alloc_misses_last_page [OF demo_aspace_frees demo_aspace_aspace, of "0x1000" "0x800800"] by simp
qed

end
