(* ===== verification/Jos_CheckInstalled.thy ===== *)
theory Jos_CheckInstalled
  imports Jos_CheckAlloc Jos_Env
begin

text \<open>
  \<open>check_page_installed_pgdir\<close> of \<open>kern/pmap.c\<close>: the test that reads and writes through the page tables once they are installed,
  and that it passes.
\<close>

section \<open>check_page_installed_pgdir\<close>

text \<open>Words at virtual addresses, through the page tables from \<open>%cr3\<close>; an aligned word lies in one page.\<close>

definition load_word :: "u32 \<Rightarrow> u32 \<Rightarrow> kern \<Rightarrow> kerr + u32" where
  "load_word pd va s = res_bind (vaddr pd False s va) (\<lambda>a. Inr (ld32 (kmem s) a))"

definition store_word :: "u32 \<Rightarrow> u32 \<Rightarrow> u32 \<Rightarrow> kern \<Rightarrow> kerr + kern" where
  "store_word pd va v s = res_bind (vaddr pd True s va) (\<lambda>a. Inr (s\<lparr>kmem := st32 (kmem s) a v\<rparr>))"

definition reads :: "u32 \<Rightarrow> u32 \<Rightarrow> u32 \<Rightarrow> kern \<Rightarrow> kerr + kern" where
  "reads pd va v = ensure_that (\<lambda>s. res_bind (load_word pd va s) (\<lambda>w. Inr (w = v)))"

text \<open>\<open>pd\<close> is what \<open>%cr3\<close> holds. The results of \<open>page_insert\<close> are not looked at.\<close>

definition check_page_installed_pgdir :: "u32 \<Rightarrow> kern \<Rightarrow> kerr + kern" where
  "check_page_installed_pgdir pd =
     allocate 0 (\<lambda>pp0. allocate 0 (\<lambda>pp1. allocate 0 (\<lambda>pp2. steps [
       page_free pp0,
       fill_page pp1 1 PGSIZE,
       fill_page pp2 2 PGSIZE,
       inserts (\<lambda>r. True) pp1 PGSIZE PTE_W,
       refs pp1 1,
       reads pd PGSIZE 0x01010101,
       inserts (\<lambda>r. True) pp2 PGSIZE PTE_W,
       reads pd PGSIZE 0x02020202,
       refs pp2 1,
       refs pp1 0,
       store_word pd PGSIZE 0x03030303,
       ensure_that (\<lambda>s. res_bind (page2kva s pp2) (\<lambda>kva. Inr (ld32 (kmem s) kva = 0x03030303))),
       (\<lambda>s. page_remove (kern_pgdir s) PGSIZE s),
       refs pp2 0,
       ensure (\<lambda>s. PTE_ADDR (pgdir_entry 0 s) = page2pa pp0),
       clear_entry 0,
       refs pp0 1,
       clear_ref pp0,
       page_free pp0])))"

section \<open>What an operation leaves alone in memory\<close>

section \<open>check_page_installed_pgdir passes\<close>

lemma vaddr_mapped:
  assumes as: "aspace s d" and va: "va < UTOP" and m: "mapping s d va = Some e" and w: "write \<Longrightarrow> pde s d (PDX va) AND PTE_W \<noteq> 0 \<and> e AND PTE_W \<noteq> 0"
  shows "vaddr (page2pa d) write s va = Inr (page_kva (pt_page e) + PGOFF va)"
proof -
  have lo: "\<not> va \<ge> KERNBASE" using va by (simp add: word_le_nat_alt word_less_nat_alt)
  have e: "present (pde s d (PDX va))" "present e" "ld32 (kmem s) (slot s d (PDX va) (PTX va)) = e"
    using m by (auto simp: mapping_def entry_def split: if_splits)
  have d: "page2pa d + KERNBASE = page_kva d" by (simp add: page_kva_def)
  have sl: "PTE_ADDR (pde s d (PDX va)) + KERNBASE + 4 * PTX va = slot s d (PDX va) (PTX va)"
    by (simp only: PTE_ADDR_kva slot_def)
  have "PTE_ADDR e + PGOFF va + KERNBASE = page_kva (pt_page e) + PGOFF va"
    unfolding PTE_ADDR_kva [symmetric] by (simp add: ac_simps)
  thus ?thesis using lo e w unfolding vaddr_def Let_def d ld32_pde sl by auto
qed

lemma fill_page_ok:
  assumes fr: "frees s fl" and x: "x < length (pages s)"
  obtains t where "fill_page x c PGSIZE s = Inr t" "frees t fl" "outside {x} s t" "globals_of t = globals_of s"
    "\<And>q. ref_of t q = ref_of s q" "\<And>a. in_page x a \<Longrightarrow> kmem t a = ucast c"
proof -
  have b: "x < 0x10000" "x < unat (npages s)" using frees_bounds(1,5) [OF fr] x by auto
  have k: "page2kva s x = Inr (page_kva x)" using KADDR_page2pa [of x s] b by (simp add: page_kva_def)
  define t where "t = s\<lparr>kmem := memset (kmem s) (page_kva x) c PGSIZE\<rparr>"
  show thesis
  proof (rule that [of t])
    show "fill_page x c PGSIZE s = Inr t" using k by (simp add: fill_page_def t_def)
    show "outside {x} s t" by (rule outsideI) (use b in \<open>simp_all add: t_def memset_fill fill_def in_page_def\<close>)
  qed (use fr in \<open>simp_all add: t_def ref_of_def memset_fill fill_def in_page_def\<close>)
qed

lemma word_of_bytes:
  assumes "\<And>a. in_page x a \<Longrightarrow> m a = b"
  shows "ld32 m (page_kva x) = ucast b OR push_bit 8 (ucast b) OR push_bit 16 (ucast b) OR push_bit 24 (ucast b)"
  using assms [of "page_kva x"] assms [of "page_kva x + 1"] assms [of "page_kva x + 2"] assms [of "page_kva x + 3"]
    in_page_offset [of 0 x] in_page_offset [of 1 x] in_page_offset [of 2 x] in_page_offset [of 3 x]
  by (simp add: ld32_def)

lemma outside_word: "outside X s t \<Longrightarrow> x < 0x10000 \<Longrightarrow> x \<notin> X \<Longrightarrow> ld32 (kmem t) (page_kva x) = ld32 (kmem s) (page_kva x)"
  unfolding outside_def by (drule spec [of _ x]) (auto dest: spec [of _ 0])

lemma reads_ok:
  assumes as: "aspace s d" and m: "mapping s d PGSIZE = Some (page2pa x OR PTE_W OR PTE_P)" and x: "x < 0x10000"
    and v: "ld32 (kmem s) (page_kva x) = v"
  shows "reads (page2pa d) PGSIZE v s = Inr s"
proof -
  have "vaddr (page2pa d) False s PGSIZE = Inr (page_kva (pt_page (page2pa x OR PTE_W OR PTE_P)) + PGOFF PGSIZE)"
    by (rule vaddr_mapped [OF as _ m]) simp_all
  moreover have "pt_page (page2pa x OR PTE_W OR PTE_P) = x" by (rule new_pte(2) [OF x]) simp
  ultimately have "vaddr (page2pa d) False s 0x1000 = Inr (page_kva x)" by (simp add: PGOFF_def)
  thus ?thesis using v by (simp add: reads_def ensure_that_def load_word_def)
qed

lemma steps_Cons: "f s = Inr t \<Longrightarrow> steps fs t = r \<Longrightarrow> steps (f # fs) s = r"
  by simp

lemma inserts_any: "inserts (\<lambda>r. r = 0) pp va perm s = Inr t \<Longrightarrow> inserts (\<lambda>r. True) pp va perm s = Inr t"
  by (auto simp: inserts_def res_simps split: if_splits)


text \<open>An insertion at \<open>PGSIZE\<close> with nothing put aside.\<close>

lemma insert_second_page:
  assumes rd: "ready {} d s fl" and pp: "pp < length (pages s)" "pp \<notin> set fl" "ref_of s pp = 0"
    and mem: "fl \<noteq> [] \<or> present (pde s d 0)"
  obtains t where "inserts (\<lambda>r. True) pp PGSIZE PTE_W s = Inr t"
    "ready {} d t (displaced s d PGSIZE pp @ (if present (pde s d 0) then fl else tl fl))"
    "inserted s t d pp PGSIZE PTE_W fl" "globals_of t = globals_of s"
    "\<And>i. i < 1024 \<Longrightarrow> pde t d i = (if i = 0 \<and> \<not> present (pde s d i) then page2pa (hd fl) OR 7 else pde s d i)"
    "\<not> present (pde s d 0) \<Longrightarrow> ref_of t (hd fl) = 1"
    "outside ({d} \<union> set fl \<union> (if present (pde s d 0) then {pt_page (pde s d 0)} else {})) s t"
    "mapping t d PGSIZE = Some (page2pa pp OR PTE_W OR PTE_P)"
proof (rule does_insert [OF rd, of PGSIZE pp PTE_W])
  note r = readyD [OF rd]
  show "PGSIZE < UTOP" "PTE_W < 4096" "pp \<notin> {}" "ref_of s pp \<noteq> 0xFFFF" "pp < length (pages s)" "pp \<notin> set fl"
    using pp by simp_all
  show "fl \<noteq> [] \<or> present (pde s d (PDX PGSIZE))" using mem by simp
  fix t assume a: "does {} (\<lambda>_. None) (inserts (\<lambda>r. r = 0) pp PGSIZE PTE_W) s t"
    "ready {} d t (displaced s d PGSIZE pp @ (if present (pde s d (PDX PGSIZE)) then fl else tl fl))"
    "inserted s t d pp PGSIZE PTE_W fl"
    "\<And>i. i < 1024 \<Longrightarrow> pde t d i = (if i = PDX PGSIZE \<and> \<not> present (pde s d i) then page2pa (hd fl) OR 7 else pde s d i)"
    "\<not> present (pde s d (PDX PGSIZE)) \<Longrightarrow> ref_of t (hd fl) = 1"
  have i: "inserts (\<lambda>r. r = 0) pp PGSIZE PTE_W s = Inr t" using a(1) by (simp add: does_def)
  obtain r0 where r0: "page_insert (page_kva d) pp 0x1000 PTE_W s = Inr (r0, t)"
    using i r(3) by (auto simp: inserts_def res_simps split: if_splits)
  have va: "(0x1000 :: u32) < UTOP" by simp
  show thesis
  proof (rule that [of t])
    show "globals_of t = globals_of s" using page_insert_globals [OF r0] .
    show "outside ({d} \<union> set fl \<union> (if present (pde s d 0) then {pt_page (pde s d 0)} else {})) s t"
      by (rule page_insert_outside [OF r(1,2) va r0]) auto
    show "mapping t d PGSIZE = Some (page2pa pp OR PTE_W OR PTE_P)" using inserted_mapping [OF a(3), of PGSIZE] by simp
  qed (use a inserts_any [OF i] in simp_all)
qed

lemma check_page_installed_result:
  assumes fr: "frees s (x # y # z # rest)" and as: "aspace s d" and kd: "kern_pgdir s = page_kva d" and e0: "pde s d 0 = 0"
  obtains s' where "check_page_installed_pgdir (page2pa d) s = Inr s'" "frees s' (x # z # y # rest)" "aspace s' d"
    "globals_of s' = globals_of s" "\<And>q. q < length (pages s) \<Longrightarrow> ref_of s' q = ref_of s q"
    "\<And>i. i < 1024 \<Longrightarrow> pde s' d i = pde s d i" "outside ({d} \<union> set (x # y # z # rest)) s s'"
proof -
  let ?X = "{d} \<union> set (x # y # z # rest)"
  define t0 where "t0 = popped 0 z (popped 0 y (popped 0 x s))"
  note t = take_three [OF fr, folded t0_def]
  have l0: "length (pages t0) = length (pages s)" using t(4) by (simp add: globals_of_def)
  have b: "q < length (pages s)" "q < 0x10000" "ref_of s q = 0" if "q \<in> {x, y, z}" for q using t(8) [of q] that by auto
  have d: "d \<notin> {x, y, z}" "d < 0x10000" using aspace_referenced(1) [OF as] b aspaceD(1) [OF as] frees_bounds(5) [OF fr] by fastforce+
  have l16: "length (pages s) \<le> 0x10000" using frees_bounds(2) [OF fr] .
  have n: "x \<noteq> y" "x \<noteq> z" "y \<noteq> z" "x \<notin> set rest" "y \<notin> set rest" "z \<notin> set rest" using t(6,7) by auto
  have "x < length (pages t0)" "x \<notin> set rest" "ref_of t0 x = 0" using b [of x] l0 n t(5) by simp_all
  note p1 = page_free_ok [OF t(2) this]
  let ?t1 = "pushed x t0"
  have l1: "length (pages ?t1) = length (pages s)" using l0 by simp
  have y1: "y < length (pages ?t1)" using l1 b [of y] by simp
  obtain t2 where t2: "fill_page y 1 PGSIZE ?t1 = Inr t2" "frees t2 (x # rest)" "outside {y} ?t1 t2" "globals_of t2 = globals_of ?t1"
    "\<And>q. ref_of t2 q = ref_of ?t1 q" "\<And>a. in_page y a \<Longrightarrow> kmem t2 a = ucast (1 :: u32)"
    by (rule fill_page_ok [OF p1(2) y1, of 1]) blast
  have l2: "length (pages t2) = length (pages s)" using t2(4) l1 by (simp add: globals_of_def)
  have z2: "z < length (pages t2)" using l2 b [of z] by simp
  obtain t3 where t3: "fill_page z 2 PGSIZE t2 = Inr t3" "frees t3 (x # rest)" "outside {z} t2 t3" "globals_of t3 = globals_of t2"
    "\<And>q. ref_of t3 q = ref_of t2 q" "\<And>a. in_page z a \<Longrightarrow> kmem t3 a = ucast (2 :: u32)"
    by (rule fill_page_ok [OF t2(2) z2, of 2]) blast
  have g3: "globals_of t3 = globals_of s" using t(4) t2(4) t3(4) by simp
  have l3: "length (pages t3) = length (pages s)" using g3 by (simp add: globals_of_def)
  have r3: "ref_of t3 q = ref_of s q" for q using t2(5) t3(5) t(5) by simp
  have o1: "outside {y} s t2" using t2(3) t(3) by (simp add: outside_def)
  have o3: "outside {y, z} s t3" by (rule outside_trans [OF o1 t3(3)]) auto
  have nt: "\<not> is_table s d q" if "q \<in> {y, z}" for q using unused_no_table [OF as] b that by blast
  have a3: "aspace t3 d" by (rule aspace_outside [OF as l16 l3 nt o3]) (use r3 in simp_all)
  have pd3: "pde t3 d i = pde s d i" if "i < 1024" for i by (rule other_page(1) [OF as l16 nt o3 that])
  have w1: "ld32 (kmem t3) (page_kva y) = 0x01010101"
  proof -
    have "ld32 (kmem t3) (page_kva y) = ld32 (kmem t2) (page_kva y)" by (rule outside_word [OF t3(3)]) (use b [of y] n in auto)
    also have "\<dots> = 0x01010101" using word_of_bytes [OF t2(6)] by simp
    finally show ?thesis .
  qed
  have w2: "ld32 (kmem t3) (page_kva z) = 0x02020202" using word_of_bytes [OF t3(6)] by simp
  have rd3: "ready {} d t3 (x # rest)" using t3(2) a3 globals_ofD(3) [OF g3] kd by (simp add: ready_def)
  have e3: "\<not> present (pde t3 d 0)" using pd3 e0 by (simp add: present_def)
  have m3: "mapping t3 d PGSIZE = None" using e3 by (intro not_present_entry) simp
  obtain t4 where t4: "inserts (\<lambda>r. True) y PGSIZE PTE_W t3 = Inr t4" "ready {} d t4 rest" "inserted t3 t4 d y PGSIZE PTE_W (x # rest)"
    "globals_of t4 = globals_of t3" "\<And>i. i < 1024 \<Longrightarrow> pde t4 d i = (if i = 0 then page2pa x OR 7 else pde t3 d i)" "ref_of t4 x = 1"
    "outside ({d} \<union> set (x # rest)) t3 t4" "mapping t4 d PGSIZE = Some (page2pa y OR PTE_W OR PTE_P)"
  proof (rule insert_second_page [OF rd3, of y], goal_cases)
    case (5 t)
    have "displaced t3 d PGSIZE y = []" using m3 by (simp add: displaced_def)
    thus ?case using 5 e3 by (intro 5(1) [of t]) auto
  qed (use b [of y] l3 n r3 in simp_all)
  have rf4: "unat (ref_of t4 q) = unat (ref_of t3 q) + (if q = y then 1 else 0)" if "q \<notin> set (x # rest)" for q
    using t4(3) that m3 by (simp add: inserted_def uses_def mapping_def)
  have r4: "ref_of t4 y = 1" "ref_of t4 z = 0"
    using rf4 [of y] rf4 [of z] n r3 b [of y] b [of z] by (simp_all add: word_unat_eq_iff)
  note d4 = readyD [OF t4(2)]
  have v1: "reads (page2pa d) PGSIZE 0x01010101 t4 = Inr t4"
  proof (rule reads_ok [OF d4(2) t4(8)])
    show "ld32 (kmem t4) (page_kva y) = 0x01010101"
      using outside_word [OF t4(7), of y] w1 b [of y] n d(1) by simp
  qed (use b [of y] in simp)
  have p4: "present (pde t4 d 0)" "pt_page (pde t4 d 0) = x" using t4(5) [of 0] present_or_7 pt_page_make [of x 7] b [of x] by simp_all
  have py: "pt_page (page2pa y OR PTE_W OR PTE_P) = y" "pt_page (page2pa z OR PTE_W OR PTE_P) = z"
    using new_pte(2) [of y PTE_W] new_pte(2) [of z PTE_W] b [of y] b [of z] by simp_all
  have l4: "length (pages t4) = length (pages s)" using t4(4) g3 by (simp add: globals_of_def)
  obtain t5 where t5: "inserts (\<lambda>r. True) z PGSIZE PTE_W t4 = Inr t5" "ready {} d t5 (y # rest)" "inserted t4 t5 d z PGSIZE PTE_W rest"
    "globals_of t5 = globals_of t4" "\<And>i. i < 1024 \<Longrightarrow> pde t5 d i = pde t4 d i"
    "outside ({d, x} \<union> set rest) t4 t5" "mapping t5 d PGSIZE = Some (page2pa z OR PTE_W OR PTE_P)"
  proof (rule insert_second_page [OF t4(2), of z], goal_cases)
    case (5 t)
    have "displaced t4 d PGSIZE z = [y]" using t4(8) py(1) n r4(1) by (simp add: displaced_def)
    moreover have "insert x (insert d (set rest)) = insert d (insert x (set rest))" by auto
    ultimately show ?case using 5 p4 by (intro 5(1) [of t]) auto
  qed (use b [of z] l4 n r4 p4 in simp_all)
  have rf5: "unat (ref_of t5 q) + (if q = y then 1 else 0) = unat (ref_of t4 q) + (if q = z then 1 else 0)" if "q \<notin> set rest" for q
    using t5(3) that t4(8) py by (auto simp: inserted_def uses_def mapping_def)
  have r5: "ref_of t5 z = 1" "ref_of t5 y = 0" "ref_of t5 x = 1"
    using rf5 [of y] rf5 [of z] rf5 [of x] n r4 t4(6) by (simp_all add: word_unat_eq_iff)
  note d5 = readyD [OF t5(2)]
  have l5: "length (pages t5) = length (pages s)" using t5(4) l4 by (simp add: globals_of_def)
  have v2: "reads (page2pa d) PGSIZE 0x02020202 t5 = Inr t5"
  proof (rule reads_ok [OF d5(2) t5(7)])
    show "ld32 (kmem t5) (page_kva z) = 0x02020202"
      using outside_word [OF t4(7), of z] outside_word [OF t5(6), of z] w2 b [of z] n d(1) by simp
  qed (use b [of z] in simp)
  define t6 where "t6 = t5\<lparr>kmem := st32 (kmem t5) (page_kva z) 0x03030303\<rparr>"
  have st: "store_word (page2pa d) PGSIZE 0x03030303 t5 = Inr t6"
  proof -
    have "vaddr (page2pa d) True t5 PGSIZE = Inr (page_kva (pt_page (page2pa z OR PTE_W OR PTE_P)) + PGOFF PGSIZE)"
      by (rule vaddr_mapped [OF d5(2) _ t5(7)]) (use t4(5) [of 0] t5(5) [of 0] in \<open>simp_all add: flags_of_pte or.assoc\<close>)
    thus ?thesis using py(2) by (simp add: store_word_def t6_def PGOFF_def)
  qed
  have o6: "outside {z} t5 t6" using b [of z] by (intro outside_st32 [of z 0]) (simp_all add: t6_def)
  have en5: "entry t5 d 0 1 = Some (page2pa z OR PTE_W OR PTE_P)" using t5(7) by (simp add: mapping_def)
  have nz: "\<not> is_table t5 d q" if "q \<in> {z}" for q
    using mapped_no_table [OF d5(2) r5(1) _ _ en5 py(2)] that by simp
  have l56: "length (pages t5) \<le> 0x10000" "length (pages t6) = length (pages t5)" using l5 l16 by (simp_all add: t6_def)
  have rf6: "ref_of t6 q = ref_of t5 q" for q by (simp add: t6_def ref_of_def)
  have a6: "aspace t6 d" by (rule aspace_outside [OF d5(2) l56 nz o6]) (use rf6 in simp_all)
  have f6: "frees t6 (y # rest)" using d5(1) by (simp add: t6_def)
  have pd6: "pde t6 d i = pde t5 d i" if "i < 1024" for i by (rule other_page(1) [OF d5(2) l56(1) nz o6 that])
  have en6: "entry t6 d (PDX 0x1000) (PTX 0x1000) = Some (page2pa z OR PTE_W OR PTE_P)"
    using other_page(2) [OF d5(2) l56(1) nz o6, of 0 1] en5 by simp
  have va: "(0x1000 :: u32) < UTOP" by simp
  obtain t7 where t7: "page_remove (page_kva d) 0x1000 t6 = Inr t7" "aspace t7 d" "frees t7 (z # y # rest)"
    "\<And>q. ref_of t7 q = (if q = z then ref_of t6 q - 1 else ref_of t6 q)" "length (pages t7) = length (pages t6)"
    "\<And>i. i < 1024 \<Longrightarrow> pde t7 d i = pde t6 d i"
  proof (rule page_remove_mapped [OF f6 a6 va en6], goal_cases)
    case (1 t)
    thus ?case unfolding py(2) using r5(1) rf6 by (intro 1(1) [of t]) auto
  qed
  have p7: "pde t7 d i = (if i = 0 then page2pa x OR 7 else pde s d i)" if "i < 1024" for i
    using t7(6) [OF that] pd6 [OF that] t5(5) [OF that] t4(5) [OF that] pd3 [OF that] by simp
  have x7: "pt_page (pde t7 d 0) = x" "present (pde t7 d 0)" using p7 [of 0] p4 t4(5) [of 0] by simp_all
  have o7: "outside {x} t6 t7"
    using page_remove_outside [OF f6 a6 va en6 t7(1)] t7(6) [of 0] x7(1) by simp
  have g7: "globals_of t7 = globals_of s"
    using page_remove_globals [OF t7(1)] t5(4) t4(4) g3 by (simp add: t6_def)
  have l7: "length (pages t7) = length (pages s)" using g7 by (simp add: globals_of_def)
  have r7: "ref_of t7 x = 1" "ref_of t7 y = 0" "ref_of t7 z = 0" using t7(4) rf6 r5 n by simp_all
  define t8 where "t8 = t7\<lparr>kmem := st32 (kmem t7) (page_kva d + 4 * 0) 0\<rparr>"
  define t9 where "t9 = upd_page x (\<lambda>p. p\<lparr>pp_ref := 0\<rparr>) t8"
  have x9: "x < length (pages t7)" using l7 b [of x] by simp
  have rf9: "ref_of t9 q = (if q = x then 0 else ref_of t7 q)" for q using x9 by (auto simp: t9_def t8_def ref_of_def)
  have k9: "kmem t9 = st32 (kmem t7) (page_kva d + 4 * 0) 0" "length (pages t9) = length (pages t7)" by (simp_all add: t9_def t8_def)
  have "length (pages t7) \<le> 0x10000" using l7 l16 by simp
  note dt = aspace_drop_table [OF t7(2) this _ x7(2) x7(1) [symmetric] r7(1) k9]
  have a9: "aspace t9 d" by (rule dt(3)) (use rf9 in simp_all)
  have p9: "pde t9 d i = (if i = 0 then 0 else pde t7 d i)" if "i < 1024" for i by (rule dt(1)) (use rf9 that in simp_all)
  have f9: "frees t9 (z # y # rest)" unfolding t9_def by (rule frees_upd_ref) (use t7(3) x9 n in \<open>simp_all add: t8_def\<close>)
  have "x < length (pages t9)" "x \<notin> set (z # y # rest)" "ref_of t9 x = 0" using x9 n rf9 by (simp_all add: k9)
  note p10 = page_free_ok [OF f9 this]
  have o9: "outside {d} t7 t9" using d(2) k9(1) by (intro outside_st32 [of d 0]) simp_all
  show thesis
  proof (rule that [of "pushed x t9"])
    have kd': "kern_pgdir t5 = page_kva d" "kern_pgdir t6 = page_kva d" "kern_pgdir t7 = page_kva d"
      using d5(3) globals_ofD(3) [OF g7] kd by (simp_all add: t6_def)
    have rs: "refs y 1 t4 = Inr t4" "refs z 1 t5 = Inr t5" "refs y 0 t5 = Inr t5" "refs z 0 t7 = Inr t7"
      using r4 r5 r7 by (simp_all add: refs_def ensure_def flip: ref_of_def)
    have rx: "refs x 1 t8 = Inr t8" using r7(1) by (simp add: refs_def ensure_def t8_def ref_of_def)
    have rw: "ensure_that (\<lambda>s. res_bind (page2kva s z) (\<lambda>kva. Inr (ld32 (kmem s) kva = 0x03030303))) t6 = Inr t6"
    proof -
      have "page2kva t6 z = Inr (page_kva z)"
        using KADDR_page2pa [of z t6] frees_bounds(1) [OF f6] l56(2) l5 b [of z] by (simp add: page_kva_def)
      thus ?thesis by (simp add: ensure_that_def t6_def)
    qed
    have ch: "ensure (\<lambda>s. PTE_ADDR (pgdir_entry 0 s) = page2pa x) t7 = Inr t7"
      using x7(1) kd'(3) by (simp add: ensure_def pgdir_entry_def PTE_ADDR_page2pa flip: x7(1)) (simp add: pde_def)
    have cl: "clear_entry 0 t7 = Inr t8" "clear_ref x t8 = Inr t9" using kd'(3) by (simp_all add: clear_entry_def clear_ref_def modify_def t8_def t9_def)
    have rm: "page_remove (kern_pgdir t6) PGSIZE t6 = Inr t7" using t7(1) kd'(2) by simp
    show "check_page_installed_pgdir (page2pa d) s = Inr (pushed x t9)"
      unfolding check_page_installed_pgdir_def t(1)
      by (rule steps_Cons, rule p1(1) t2(1) t3(1) t4(1) rs rx v1 t5(1) v2 st rw rm ch cl p10(1))+ (rule steps.simps(1))
    show "frees (pushed x t9) (x # z # y # rest)" using p10(2) .
    show "aspace (pushed x t9) d" by (rule aspace_refs [OF a9]) simp_all
    show "globals_of (pushed x t9) = globals_of s" using g7 by (simp add: t9_def t8_def)
    show "ref_of (pushed x t9) q = ref_of s q" if "q < length (pages s)" for q
    proof (cases "q \<in> set (x # z # y # rest)")
      case True
      have "ref_of (pushed x t9) q = 0" "ref_of s q = 0" using True p10(2) fr unfolding frees_def by auto
      thus ?thesis by simp
    next
      case False
      hence "unat (ref_of t5 q) = unat (ref_of s q)" using rf5 [of q] rf4 [of q] r3 by simp
      thus ?thesis using False rf9 t7(4) rf6 by (simp add: word_unat_eq_iff)
    qed
    show "pde (pushed x t9) d i = pde s d i" if "i < 1024" for i
      using p9 [OF that] p7 [OF that] e0 kmem_cong(1) [of "pushed x t9" t9 d i] by simp
    have "outside ?X t3 t4" "outside ?X t4 t5" "outside ?X t5 t6" "outside ?X t6 t7" "outside ?X t7 t9" "outside ?X s t3"
      using t4(7) t5(6) o6 o7 o9 o3 by (auto simp: outside_def)
    thus "outside ?X s (pushed x t9)" by (simp add: outside_def)
  qed
qed

end
