(* ===== verification/Jos_Load.thy ===== *)
theory Jos_Load
  imports Jos_CheckInstalled
begin

text \<open>
  Loading a program: what \<open>region_alloc\<close>, \<open>load_icode\<close> and \<open>env_create\<close> of \<open>kern/env.c\<close> leave in the memory of the new environment.
  The invariant \<open>loading\<close> says that the user pages of an address space are its own: no page is mapped twice, none is a page
  table, all can be written. Under it the user part of memory is a function from addresses to bytes, on which copying
  and clearing act byte by byte.
\<close>

section \<open>An insertion at a free address\<close>

lemma page_insert_detail:
  assumes fr: "frees s fl" and as: "aspace s d" and va: "va < UTOP" and un: "mapping s d va = None"
    and pp: "pp < length (pages s)" "pp \<notin> set fl" "ref_of s pp \<noteq> 0xFFFF" and perm: "perm < 4096"
    and mem: "fl \<noteq> [] \<or> present (pde s d (PDX va))"
  obtains s' where "page_insert (page_kva d) pp va perm s = Inr (0, s')"
    "frees s' (if present (pde s d (PDX va)) then fl else tl fl)" "aspace s' d" "inserted s s' d pp va perm fl"
    "length (pages s') = length (pages s)" "globals_of s' = globals_of s"
    "\<And>i. i < 1024 \<Longrightarrow> pde s' d i = (if i = PDX va \<and> \<not> present (pde s d i) then page2pa (hd fl) OR 7 else pde s d i)"
proof -
  let ?fl = "if present (pde s d (PDX va)) then fl else tl fl"
  have i: "PDX va < 955" using va user_va_iff by simp
  obtain t where t: "pgdir_walk (page_kva d) va True s = Inr (Some (slot t d (PDX va) (PTX va)), t)"
    "frees t ?fl" "aspace t d" "present (pde t d (PDX va))" "kern_pgdir t = kern_pgdir s"
    "length (pages t) = length (pages s)" "npages t = npages s"
    "\<And>i j. i < 955 \<Longrightarrow> j < 1024 \<Longrightarrow> entry t d i j = entry s d i j"
    "\<And>i. i < 1024 \<Longrightarrow> pde t d i = (if i = PDX va \<and> \<not> present (pde s d i) then page2pa (hd fl) OR 7 else pde s d i)"
    "\<And>q. ref_of t q = (if \<not> present (pde s d (PDX va)) \<and> q = hd fl then 1 else ref_of s q)"
    by (rule walk_to_table [OF fr as va mem], rule that)
  have sub: "set ?fl \<subseteq> set fl" by (cases fl) auto
  have hd: "hd fl \<in> set fl" if "\<not> present (pde s d (PDX va))" using mem that by (cases fl) auto
  have pt: "pp < length (pages t)" "pp \<notin> set ?fl" "ref_of t pp \<noteq> 0xFFFF" using pp sub t(6,10) hd by auto
  have "mapping t d va = None" using t(8) i un by (simp add: mapping_def)
  hence dt: "displaced t d va pp = []" by (simp add: displaced_def)
  obtain s' where s': "page_insert (page_kva d) pp va perm s = Inr (0, s')" "frees s' (displaced t d va pp @ ?fl)"
    "aspace s' d" "length (pages s') = length (pages t)" "inserted t s' d pp va perm ?fl" "kern_pgdir s' = kern_pgdir t"
    "\<And>i. i < 1024 \<Longrightarrow> pde s' d i = pde t d i" "npages s' = npages t"
    by (rule insert_present [OF t(2,3) va t(4,1) pt perm], rule that)
  have "inserted s s' d pp va perm fl"
    by (rule inserted_from [OF s'(5) i t(8) _ sub]) (use t(10) hd in auto)
  moreover have "pde s' d i = (if i = PDX va \<and> \<not> present (pde s d i) then page2pa (hd fl) OR 7 else pde s d i)"
    if "i < 1024" for i using s'(7) [OF that] t(9) [OF that] by simp
  ultimately show thesis using that [of s'] s' dt t(6) page_insert_globals [OF s'(1)] by simp
qed

section \<open>An address space with pages of its own\<close>

definition upage :: "kern \<Rightarrow> nat \<Rightarrow> nat \<Rightarrow> bool" where
  "upage s d q \<longleftrightarrow> (\<exists>va < UTOP. \<exists>e. mapping s d va = Some e \<and> pt_page e = q)"

definition loading :: "kern \<Rightarrow> nat \<Rightarrow> nat list \<Rightarrow> bool" where
  "loading s d fl \<longleftrightarrow> frees s fl \<and> aspace s d \<and>
     (\<forall>i < 955. present (pde s d i) \<longrightarrow> pde s d i AND PTE_W \<noteq> 0) \<and>
     (\<forall>va < UTOP. \<forall>e. mapping s d va = Some e \<longrightarrow> e AND PTE_W \<noteq> 0 \<and> \<not> is_table s d (pt_page e)) \<and>
     (\<forall>va < UTOP. \<forall>vb < UTOP. \<forall>e e'. mapping s d va = Some e \<longrightarrow> mapping s d vb = Some e' \<longrightarrow>
        pt_page e = pt_page e' \<longrightarrow> PGNUM va = PGNUM vb)"

lemma loadingD:
  assumes "loading s d fl"
  shows "frees s fl" and "aspace s d" and "i < 955 \<Longrightarrow> present (pde s d i) \<Longrightarrow> pde s d i AND PTE_W \<noteq> 0"
    and "va < UTOP \<Longrightarrow> mapping s d va = Some e \<Longrightarrow> e AND PTE_W \<noteq> 0"
    and "va < UTOP \<Longrightarrow> mapping s d va = Some e \<Longrightarrow> \<not> is_table s d (pt_page e)"
    and "va < UTOP \<Longrightarrow> vb < UTOP \<Longrightarrow> mapping s d va = Some e \<Longrightarrow> mapping s d vb = Some e' \<Longrightarrow>
        pt_page e = pt_page e' \<Longrightarrow> PGNUM va = PGNUM vb"
  using assms unfolding loading_def by blast+

lemma loadingI:
  assumes "frees s fl" and "aspace s d" and "\<And>i. i < 955 \<Longrightarrow> present (pde s d i) \<Longrightarrow> pde s d i AND PTE_W \<noteq> 0"
    and "\<And>va e. va < UTOP \<Longrightarrow> mapping s d va = Some e \<Longrightarrow> e AND PTE_W \<noteq> 0 \<and> \<not> is_table s d (pt_page e)"
    and "\<And>va vb e e'. va < UTOP \<Longrightarrow> vb < UTOP \<Longrightarrow> mapping s d va = Some e \<Longrightarrow> mapping s d vb = Some e' \<Longrightarrow>
        pt_page e = pt_page e' \<Longrightarrow> PGNUM va = PGNUM vb"
  shows "loading s d fl"
  using assms unfolding loading_def by blast

lemma mapping_entry: "va < UTOP \<Longrightarrow> mapping s d va = Some e \<Longrightarrow> PDX va < 955 \<and> PTX va < 1024 \<and> entry s d (PDX va) (PTX va) = Some e"
  using user_va_iff by (simp add: mapping_def)

lemma mapped_page:
  assumes "loading s d fl" and "va < UTOP" and "mapping s d va = Some e"
  shows "pt_page e < length (pages s)" and "pt_page e < 0x10000" and "ref_of s (pt_page e) \<noteq> 0" and "pt_page e \<notin> set fl"
proof -
  note l = loadingD(1,2) [OF assms(1)] and m = mapping_entry [OF assms(2,3)]
  show q: "pt_page e < length (pages s)" using aspaceD(5) [OF l(2)] m by blast
  thus "pt_page e < 0x10000" using frees_bounds(5) [OF l(1)] by blast
  have "0 < unat (ref_of s (pt_page e))" using aspace_referenced(3) [OF l(2)] m by blast
  thus "ref_of s (pt_page e) \<noteq> 0" "pt_page e \<notin> set fl" using referenced_not_free [OF l(1)] by auto
qed

lemma is_table_bounds:
  assumes "loading s d fl" and "is_table s d x"
  shows "x < 0x10000" and "ref_of s x \<noteq> 0" and "x \<notin> set fl"
proof -
  note l = loadingD(1,2) [OF assms(1)]
  have "x < length (pages s)" using assms(2) aspaceD(1,2) [OF l(2)] by (auto simp: is_table_def)
  thus "x < 0x10000" using frees_bounds(5) [OF l(1)] by blast
  show r: "ref_of s x \<noteq> 0" using unused_no_table [OF l(2)] assms(2) by blast
  thus "x \<notin> set fl" using l(1) by (auto simp: frees_def)
qed

text \<open>The byte of the program at a user address; the pages that loading has nothing to do with.\<close>

definition user_byte :: "kern \<Rightarrow> nat \<Rightarrow> u32 \<Rightarrow> u8 option" where
  "user_byte s d va = (case mapping s d va of None \<Rightarrow> None | Some e \<Rightarrow> Some (kmem s (page_kva (pt_page e) + PGOFF va)))"

definition away :: "kern \<Rightarrow> nat \<Rightarrow> nat list \<Rightarrow> nat \<Rightarrow> bool" where
  "away s d fl q \<longleftrightarrow> q < 0x10000 \<and> q \<notin> set fl \<and> \<not> is_table s d q \<and> \<not> upage s d q"

definition kept :: "nat \<Rightarrow> kern \<Rightarrow> nat list \<Rightarrow> kern \<Rightarrow> nat list \<Rightarrow> bool" where
  "kept d s fl t fl' \<longleftrightarrow> loading t d fl' \<and> globals_of t = globals_of s \<and>
     (\<forall>q. away s d fl q \<longrightarrow> away t d fl' q \<and> ref_of t q = ref_of s q \<and> (\<forall>a. in_page q a \<longrightarrow> kmem t a = kmem s a))"

lemma kept_refl: "loading s d fl \<Longrightarrow> kept d s fl s fl"
  by (simp add: kept_def)

lemma kept_trans: "kept d s fl t fl' \<Longrightarrow> kept d t fl' u fl'' \<Longrightarrow> kept d s fl u fl''"
  unfolding kept_def by metis

lemma PGOFF_in_page: "in_page q (page_kva q + PGOFF va)"
  by (rule in_page_offset) (simp add: unat_PGOFF)

text \<open>One page of a region: a fresh page is mapped where nothing was.\<close>

lemma user_page_eq: "PGNUM va = PGNUM w \<Longrightarrow> mapping s d va = mapping s d w"
  unfolding mapping_def page_eq_iff by simp

lemma load_page:
  assumes ld: "loading s d (x # rest)" and ne: "rest \<noteq> []" and va: "va < UTOP" and un: "mapping s d va = None"
  obtains t fl' where "page_insert (page_kva d) x va 7 (popped 0 x s) = Inr (0, t)" "kept d s (x # rest) t fl'"
    "length rest \<le> length fl' + 1"
    "\<And>w. w < UTOP \<Longrightarrow> mapping t d w = (if PGNUM w = PGNUM va then Some (page2pa x OR 7) else mapping s d w)"
    "\<And>w. w < UTOP \<Longrightarrow> PGNUM w \<noteq> PGNUM va \<Longrightarrow> user_byte t d w = user_byte s d w"
proof -
  let ?s = "popped 0 x s" and ?fl = "if present (pde s d (PDX va)) then rest else tl rest"
  note l = loadingD [OF ld]
  have i: "PDX va < 955" using va user_va_iff by simp
  have km: "kmem ?s = kmem s" by simp
  note kc = kmem_cong [OF km]
  have mp: "mapping ?s d w = mapping s d w" for w by (simp add: mapping_def kc)
  have f: "frees ?s rest" "x \<notin> set rest" using page_alloc_Cons(2) [OF l(1), of 0] l(1) by (auto simp: frees_def)
  have x: "x < length (pages ?s)" "x < 0x10000" "ref_of s x = 0" "ref_of ?s x \<noteq> 0xFFFF"
    using frees_bounds(3,4) [OF l(1), of x] l(1) ref_of_popped_0 [OF l(1)] by (auto simp: frees_def)
  note as = popped_aspace(1) [OF l(1,2)]
  have b7: "(7 :: u32) < 4096" by simp
  have un': "mapping ?s d va = None" using un mp by simp
  obtain t where t: "page_insert (page_kva d) x va 7 ?s = Inr (0, t)"
    "frees t (if present (pde ?s d (PDX va)) then rest else tl rest)" "aspace t d" "inserted ?s t d x va 7 rest"
    "length (pages t) = length (pages ?s)" "globals_of t = globals_of ?s"
    "\<And>i. i < 1024 \<Longrightarrow> pde t d i = (if i = PDX va \<and> \<not> present (pde ?s d i) then page2pa (hd rest) OR 7 else pde ?s d i)"
    by (rule page_insert_detail [OF f(1) as va un' x(1) f(2) x(4) b7], use ne in blast, rule that)
  have pd: "pde t d i = (if i = PDX va \<and> \<not> present (pde s d i) then page2pa (hd rest) OR 7 else pde s d i)" if "i < 1024" for i
    using t(7) [OF that] unfolding kc(1) .
  have ft: "frees t ?fl" using t(2) unfolding kc(1) .
  have sub: "set ?fl \<subseteq> set rest" by (cases rest) auto
  have hd: "hd rest \<in> set rest" "hd rest \<noteq> x" "hd rest < 0x10000" "ref_of s (hd rest) = 0"
    using ne f(2) frees_bounds(4) [OF f(1)] l(1) by (auto simp: frees_def)
  have pt: "pt_page (page2pa (hd rest) OR 7) = hd rest" using pt_page_make [OF hd(3) b7] .
  have px: "page2pa x OR 7 OR PTE_P = page2pa x OR 7" "pt_page (page2pa x OR 7) = x" using pt_page_make [OF x(2) b7] by (simp_all add: or.assoc)
  have mt: "mapping t d w = (if PGNUM w = PGNUM va then Some (page2pa x OR 7) else mapping s d w)" if "w < UTOP" for w
    using inserted_mapping [OF t(4) that] mp [of w] px(1) by (simp only: )
  have tab: "is_table t d q \<Longrightarrow> is_table s d q \<or> q = hd rest" for q
    using pd less_955_1024 pt by (auto simp: is_table_def split: if_splits)
  have tabs: "is_table s d q \<Longrightarrow> q \<noteq> x \<and> q \<notin> set rest" for q using is_table_bounds(3) [OF ld] by auto
  have old: "mapping s d w = Some e \<Longrightarrow> w < UTOP \<Longrightarrow> pt_page e \<noteq> x \<and> pt_page e \<notin> set rest" for w e
    using mapped_page(4) [OF ld] by auto
  have w7: "(page2pa q OR 7) AND PTE_W \<noteq> 0" for q by (simp add: flags_of_pte)
  have lt: "loading t d ?fl"
  proof (rule loadingI [OF ft t(3)])
    show "pde t d i AND PTE_W \<noteq> 0" if "i < 955" "present (pde t d i)" for i
      using pd [OF less_955_1024 [OF that(1)]] that l(3) w7 by (auto split: if_splits)
    show "e AND PTE_W \<noteq> 0 \<and> \<not> is_table t d (pt_page e)" if w: "w < UTOP" "mapping t d w = Some e" for w e
    proof (cases "PGNUM w = PGNUM va")
      case True
      hence "e = page2pa x OR 7" using mt w by simp
      thus ?thesis using w7 px(2) tab [of x] tabs [of x] hd(2) by auto
    next
      case False
      hence m: "mapping s d w = Some e" using mt w by simp
      thus ?thesis using l(4,5) [OF w(1) m] tab [of "pt_page e"] old [OF m w(1)] hd(1) by metis
    qed
    show "PGNUM v = PGNUM w" if "v < UTOP" "w < UTOP" "mapping t d v = Some e" "mapping t d w = Some e'" "pt_page e = pt_page e'" for v w e e'
      using mt [OF that(1)] mt [OF that(2)] that old px(2) l(6) [OF that(1,2)] by (metis option.inject)
  qed
  let ?X = "{d} \<union> set rest \<union> (if present (pde s d (PDX va)) then {pt_page (pde s d (PDX va))} else {})"
  have o: "outside ?X s t"
  proof -
    have "outside ?X ?s t" by (rule page_insert_outside [OF f(1) as va t(1)]) (use kc(1) in auto)
    thus ?thesis by (simp add: outside_def)
  qed
  have nX: "q \<notin> ?X" if "\<not> is_table s d q" "q \<notin> set rest" for q using that i by (auto simp: is_table_def)
  have kp: "kept d s (x # rest) t ?fl"
    unfolding kept_def
  proof (intro conjI allI impI lt)
    show "globals_of t = globals_of s" using t(6) by simp
    fix q assume a: "away s d (x # rest) q"
    hence q: "q < 0x10000" "q \<noteq> x" "q \<notin> set rest" "\<not> is_table s d q" "\<not> upage s d q" by (simp_all add: away_def)
    have "\<not> upage t d q" using q mt px(2) by (auto simp: upage_def split: if_splits)
    moreover have "\<not> is_table t d q" using tab [of q] q hd(1) by auto
    ultimately show "away t d ?fl q" using q sub by (auto simp: away_def)
    have "unat (ref_of t q) = unat (ref_of ?s q)" using t(4) q(2,3) un' by (simp add: inserted_def mapping_def uses_def)
    thus "ref_of t q = ref_of s q" using ref_of_popped_0 [OF l(1)] by (simp add: word_unat_eq_iff)
    show "kmem t b = kmem s b" if "in_page q b" for b by (rule outside_byte [OF o q(1) nX [OF q(4,3)] that])
  qed
  have ub: "user_byte t d w = user_byte s d w" if w: "w < UTOP" "PGNUM w \<noteq> PGNUM va" for w
  proof (cases "mapping s d w")
    case (Some e)
    note e = l(5) [OF w(1) Some] old [OF Some w(1)] mapped_page(2) [OF ld w(1) Some]
    have "kmem t (page_kva (pt_page e) + PGOFF w) = kmem s (page_kva (pt_page e) + PGOFF w)"
      by (rule outside_byte [OF o e(3) nX PGOFF_in_page]) (use e in auto)
    thus ?thesis using mt [OF w(1)] w(2) Some by (simp add: user_byte_def)
  qed (use mt [OF w(1)] w(2) in \<open>simp add: user_byte_def\<close>)
  have "length rest \<le> length ?fl + 1" by (cases rest) auto
  thus thesis using that [OF t(1) kp _ mt ub] by blast
qed

lemma user_byte_None: "user_byte s d w = None \<longleftrightarrow> mapping s d w = None"
  by (simp add: user_byte_def split: option.split)

text \<open>A region: \<open>n\<close> pages from \<open>va\<close> on, none of them in use before.\<close>

definition in_region :: "u32 \<Rightarrow> nat \<Rightarrow> u32 \<Rightarrow> bool" where
  "in_region va n w \<longleftrightarrow> unat (PGNUM va) \<le> unat (PGNUM w) \<and> unat (PGNUM w) < unat (PGNUM va) + n"

lemma load_region_loop:
  "loading s d fl \<Longrightarrow> unat va + n * 4096 \<le> unat UTOP \<Longrightarrow> 2 * n \<le> length fl \<Longrightarrow>
   (\<And>w. w < UTOP \<Longrightarrow> in_region va n w \<Longrightarrow> user_byte s d w = None) \<Longrightarrow>
   \<exists>t fl'. region_alloc_loop n (page_kva d) va s = Inr t \<and> kept d s fl t fl' \<and> length fl \<le> length fl' + 2 * n \<and>
     (\<forall>w < UTOP. if in_region va n w then user_byte t d w \<noteq> None else user_byte t d w = user_byte s d w)"
proof (induction n arbitrary: s fl va)
  case 0
  have "\<not> in_region va 0 w" for w by (simp add: in_region_def)
  thus ?case using kept_refl [OF 0(1)] by auto
next
  case (Suc n)
  obtain x rest where fl: "fl = x # rest" "rest \<noteq> []" using Suc.prems(3) by (cases fl; cases "tl fl") auto
  have ld: "loading s d (x # rest)" using Suc.prems(1) fl by simp
  have va: "va < UTOP" and step: "unat va + 4096 \<le> unat UTOP" using Suc.prems(2) by (simp_all add: word_less_nat_alt)
  note ps = PGNUM_step [OF step]
  have first: "in_region va (Suc n) va" by (simp add: in_region_def)
  have un0: "mapping s d va = None" using Suc.prems(4) [OF va first] by (simp add: user_byte_None)
  obtain t1 fl1 where t1: "page_insert (page_kva d) x va 7 (popped 0 x s) = Inr (0, t1)" "kept d s (x # rest) t1 fl1"
    "length rest \<le> length fl1 + 1"
    "\<And>w. w < UTOP \<Longrightarrow> mapping t1 d w = (if PGNUM w = PGNUM va then Some (page2pa x OR 7) else mapping s d w)"
    "\<And>w. w < UTOP \<Longrightarrow> PGNUM w \<noteq> PGNUM va \<Longrightarrow> user_byte t1 d w = user_byte s d w"
    by (rule load_page [OF ld fl(2) va un0], rule that)
  have split: "in_region va (Suc n) w \<longleftrightarrow> PGNUM w = PGNUM va \<or> in_region (va + PGSIZE) n w" for w
    unfolding in_region_def ps word_unat_eq_iff [of "PGNUM w"] by auto
  have un1: "user_byte t1 d w = None" if "w < UTOP" "in_region (va + PGSIZE) n w" for w
  proof -
    have "PGNUM w \<noteq> PGNUM va" using that(2) unfolding in_region_def ps by auto
    thus ?thesis using t1(5) [OF that(1)] Suc.prems(4) [OF that(1)] split [of w] that(2) by simp
  qed
  have l1: "loading t1 d fl1" using t1(2) by (simp add: kept_def)
  have b: "unat (va + PGSIZE) + n * 4096 \<le> unat UTOP" "2 * n \<le> length fl1" using ps Suc.prems(2,3) fl t1(3) by simp_all
  obtain t fl' where t: "region_alloc_loop n (page_kva d) (va + PGSIZE) t1 = Inr t" "kept d t1 fl1 t fl'"
    "length fl1 \<le> length fl' + 2 * n"
    "\<And>w. w < UTOP \<Longrightarrow> if in_region (va + PGSIZE) n w then user_byte t d w \<noteq> None else user_byte t d w = user_byte t1 d w"
    using Suc.IH [OF l1 b un1] by blast
  have "region_alloc_loop (Suc n) (page_kva d) va s = Inr t"
    using page_alloc_Cons(1) [OF loadingD(1) [OF ld], of 0] t1(1) t(1) by simp
  moreover have "kept d s fl t fl'" using kept_trans [OF t1(2) t(2)] fl by simp
  moreover have "length fl \<le> length fl' + 2 * Suc n" using t(3) t1(3) fl by simp
  moreover have "if in_region va (Suc n) w then user_byte t d w \<noteq> None else user_byte t d w = user_byte s d w" if w: "w < UTOP" for w
  proof (cases "in_region (va + PGSIZE) n w")
    case True
    thus ?thesis using t(4) [OF w] split [of w] by simp
  next
    case False
    hence u: "user_byte t d w = user_byte t1 d w" using t(4) [OF w] by simp
    show ?thesis
    proof (cases "PGNUM w = PGNUM va")
      case True
      hence "user_byte t1 d w \<noteq> None" using t1(4) [OF w] by (simp add: user_byte_None)
      thus ?thesis using True split [of w] u by simp
    qed (use t1(5) [OF w] split [of w] u False in simp)
  qed
  ultimately show ?case by blast
qed

definition npages_of :: "u32 \<Rightarrow> nat" where
  "npages_of len = (unat len + 4095) div 4096"

lemma load_region:
  assumes ld: "loading s d fl" and len: "unat len + 4096 \<le> 2 ^ 32"
    and top: "(unat (PGNUM va) + npages_of len) * 4096 \<le> unat UTOP" and mem: "2 * npages_of len \<le> length fl"
    and un: "\<And>w. w < UTOP \<Longrightarrow> in_region va (npages_of len) w \<Longrightarrow> user_byte s d w = None"
  obtains t fl' where "region_alloc (page_kva d) va len s = Inr t" "kept d s fl t fl'" "length fl \<le> length fl' + 2 * npages_of len"
    "\<And>w. w < UTOP \<Longrightarrow> if in_region va (npages_of len) w then user_byte t d w \<noteq> None else user_byte t d w = user_byte s d w"
proof -
  have r: "in_region (ROUNDDOWN va PGSIZE) n w = in_region va n w" for n w
    by (simp only: in_region_def ROUNDDOWN_page)
  have "unat (ROUNDDOWN va PGSIZE) = unat (PGNUM va) * 4096" by (simp only: ROUNDDOWN_page unat_PGNUM minus_mod_eq_div_mult)
  hence "unat (ROUNDDOWN va PGSIZE) + npages_of len * 4096 \<le> unat UTOP" using top by (simp add: algebra_simps)
  note l = load_region_loop [OF ld this mem, unfolded r, OF un]
  thus thesis using that region_alloc_pages [OF len, of "page_kva d" va s] unfolding npages_of_def [symmetric] by auto
qed

section \<open>Writing to the program\<close>

lemma same_address: "PGNUM w = PGNUM va \<Longrightarrow> PGOFF w = PGOFF va \<Longrightarrow> w = va"
  unfolding page_eq_iff using PGADDR_roundtrip [of w] PGADDR_roundtrip [of va] by metis

lemma store_user:
  fixes v :: u8
  assumes ld: "loading s d fl" and va: "va < UTOP" and m: "mapping s d va = Some e"
  defines "t \<equiv> s\<lparr>kmem := (kmem s)(page_kva (pt_page e) + PGOFF va := v)\<rparr>"
  shows "kept d s fl t fl" and "w < UTOP \<Longrightarrow> user_byte t d w = (if w = va then Some v else user_byte s d w)"
proof -
  let ?q = "pt_page e" and ?b = "page_kva (pt_page e) + PGOFF va"
  note l = loadingD [OF ld] and q = mapped_page [OF ld va m]
  have nt: "\<not> is_table s d x" if "x \<in> {?q}" for x using l(5) [OF va m] that by simp
  have o: "outside {?q} s t" by (rule outsideI) (use q(2) PGOFF_in_page [of ?q va] in \<open>auto simp: t_def\<close>)
  have ps: "pages t = pages s" by (simp add: t_def)
  hence rf: "ref_of t x = ref_of s x" for x by (simp add: ref_of_def)
  note op = other_page [OF l(2) frees_bounds(2) [OF l(1)] nt o]
  have mp: "mapping t d w = mapping s d w" if "w < UTOP" for w using op(2) that user_va_iff by (simp add: mapping_def)
  have it: "is_table t d x = is_table s d x" for x using op(1) less_955_1024 by (auto simp: is_table_def)
  have f: "frees t fl" using l(1) by (simp add: t_def)
  have a: "aspace t d" by (rule aspace_outside [OF l(2) frees_bounds(2) [OF l(1)] _ nt o]) (use ps rf in auto)
  have lt: "loading t d fl"
  proof (rule loadingI [OF f a])
    show "PGNUM u = PGNUM w" if "u < UTOP" "w < UTOP" "mapping t d u = Some e1" "mapping t d w = Some e2" "pt_page e1 = pt_page e2" for u w e1 e2
      using l(6) [OF that(1,2)] that mp by metis
  qed (use l op(1) less_955_1024 mp it in auto)
  have up: "upage t d x = upage s d x" for x using mp by (auto simp: upage_def)
  show "kept d s fl t fl"
    unfolding kept_def
  proof (intro conjI allI impI lt)
    show "globals_of t = globals_of s" by (simp add: t_def globals_of_def)
    fix x assume x: "away s d fl x"
    thus "away t d fl x" by (simp add: away_def it up)
    show "ref_of t x = ref_of s x" by (rule rf)
    have "x \<noteq> ?q" using x va m by (auto simp: away_def upage_def)
    thus "kmem t b = kmem s b" if "in_page x b" for b
      using that in_page_disjoint [OF that, of ?q] x q(2) PGOFF_in_page [of ?q va] by (auto simp: t_def away_def)
  qed
  show "user_byte t d w = (if w = va then Some v else user_byte s d w)" if w: "w < UTOP"
  proof (cases "mapping s d w")
    case None
    thus ?thesis using mp [OF w] m by (auto simp: user_byte_def)
  next
    case (Some e2)
    have "page_kva (pt_page e2) + PGOFF w = ?b \<longleftrightarrow> w = va"
    proof
      assume e: "page_kva (pt_page e2) + PGOFF w = ?b"
      have "in_page (pt_page e2) ?b" "in_page ?q ?b" using PGOFF_in_page [of "pt_page e2" w] PGOFF_in_page [of ?q va] e by simp_all
      hence p: "pt_page e2 = ?q" using in_page_disjoint mapped_page(2) [OF ld w Some] q(2) by blast
      hence "PGNUM w = PGNUM va" using l(6) [OF w va Some m] by simp
      thus "w = va" using same_address e p by simp
    qed (use Some m in simp)
    thus ?thesis using mp [OF w] Some by (simp add: user_byte_def t_def)
  qed
qed

lemma vaddr_user:
  assumes ld: "loading s d fl" and va: "va < UTOP" and m: "mapping s d va = Some e"
  shows "vaddr (page2pa d) wr s va = Inr (page_kva (pt_page e) + PGOFF va)"
proof (rule vaddr_mapped [OF loadingD(2) [OF ld] va m])
  have "PDX va < 955" "present (pde s d (PDX va))" using va m user_va_iff by (auto simp: mapping_def entry_def split: if_splits)
  thus "pde s d (PDX va) AND PTE_W \<noteq> 0 \<and> e AND PTE_W \<noteq> 0" using loadingD(3,4) [OF ld] va m by blast
qed

text \<open>Bytes that the kernel holds in pages of its own.\<close>

definition stored :: "(nat \<Rightarrow> bool) \<Rightarrow> u32 \<Rightarrow> nat \<Rightarrow> bool" where
  "stored Q a n \<longleftrightarrow> unat a + n \<le> 2 ^ 32 \<and> (\<forall>i < n. \<exists>q. Q q \<and> in_page q (a + of_nat i))"

abbreviation held :: "kern \<Rightarrow> nat \<Rightarrow> nat list \<Rightarrow> u32 \<Rightarrow> nat \<Rightarrow> bool" where
  "held s d fl \<equiv> stored (away s d fl)"

lemma held_part: "held s d fl a n \<Longrightarrow> i + m \<le> n \<Longrightarrow> held s d fl (a + of_nat i) m"
proof -
  assume im: "held s d fl a n" and le: "i + m \<le> n"
  show ?thesis
  proof (cases "m = 0")
    case True
    thus ?thesis using unat_lt_2p32 [of "a + of_nat i"] by (simp add: stored_def less_imp_le)
  next
    case False
    have an: "unat a + n \<le> 2 ^ 32" using im unfolding stored_def by blast
    hence i: "unat a + i < 2 ^ 32" using False le by linarith
    hence "unat (of_nat i :: u32) = i" by (intro unat_of_nat_small) simp
    hence "unat (a + of_nat i) = unat a + i" using i by (subst unat_add_no_carry) simp_all
    hence "unat (a + of_nat i) + m \<le> 2 ^ 32" using an le by linarith
    moreover have "\<exists>q. away s d fl q \<and> in_page q (a + of_nat i + of_nat j)" if "j < m" for j
    proof -
      have "i + j < n" using le that by simp
      hence "\<exists>q. away s d fl q \<and> in_page q (a + of_nat (i + j))" using im unfolding stored_def by blast
      thus ?thesis by (simp add: add.assoc)
    qed
    ultimately show ?thesis unfolding stored_def by blast
  qed
qed

lemma held_kept:
  assumes "held s d fl a n" and "kept d s fl t fl'"
  shows "held t d fl' a n" and "i < n \<Longrightarrow> kmem t (a + of_nat i) = kmem s (a + of_nat i)"
  using assms unfolding stored_def kept_def by blast+

lemma held_kernel: "held s d fl a n \<Longrightarrow> 0 < n \<Longrightarrow> KERNBASE \<le> a"
proof -
  assume im: "held s d fl a n" and n: "0 < n"
  obtain q where q: "q < 0x10000" "in_page q (a + of_nat 0)" using im n unfolding stored_def away_def by blast
  hence "unat a div 4096 = 0xF0000 + q" using in_page_iff [OF q(1)] by simp
  hence "(0xF0000 + q) * 4096 \<le> unat a" using div_times_less_eq_dividend [of "unat a" 4096] by (simp only:)
  thus ?thesis by (simp add: word_le_nat_alt)
qed

text \<open>\<open>memcpy\<close> from the kernel into the program, and \<open>memset\<close>.\<close>

definition between :: "u32 \<Rightarrow> nat \<Rightarrow> u32 \<Rightarrow> bool" where
  "between a n w \<longleftrightarrow> unat a \<le> unat w \<and> unat w < unat a + n"

lemma between_0 [simp]: "\<not> between a 0 w"
  by (simp add: between_def)

lemma between_Suc:
  assumes "unat a + Suc n < 2 ^ 32"
  shows "between a (Suc n) w \<longleftrightarrow> w = a \<or> between (a + 1) n w" and "\<not> between (a + 1) n a" and "unat (a + 1) = unat a + 1"
proof -
  show u: "unat (a + 1) = unat a + 1" using assms by (subst unat_add_no_carry) simp_all
  show "between a (Suc n) w \<longleftrightarrow> w = a \<or> between (a + 1) n w" "\<not> between (a + 1) n a"
    unfolding between_def u word_unat_eq_iff [of w] by auto
qed

lemma load_copy:
  "loading s d fl \<Longrightarrow> unat dst + n \<le> unat UTOP \<Longrightarrow> (\<And>w. between dst n w \<Longrightarrow> user_byte s d w \<noteq> None) \<Longrightarrow> held s d fl src n \<Longrightarrow>
   \<exists>t. vcopy_up n (page2pa d) dst src s = Inr t \<and> kept d s fl t fl \<and>
     (\<forall>w < UTOP. user_byte t d w = (if between dst n w then Some (kmem s (src + (w - dst))) else user_byte s d w))"
proof (induction n arbitrary: s dst src)
  case 0
  thus ?case using kept_refl [OF 0(1)] by simp
next
  case (Suc n)
  have lt: "unat dst + Suc n < 2 ^ 32" using Suc.prems(2) by simp
  note bt = between_Suc [OF lt]
  have dst: "dst < UTOP" using Suc.prems(2) by (simp add: word_less_nat_alt)
  have "user_byte s d dst \<noteq> None" using Suc.prems(3) [of dst] bt(1) by simp
  then obtain e where e: "mapping s d dst = Some e" by (auto simp: user_byte_None)
  define b where "b = page_kva (pt_page e) + PGOFF dst"
  define t1 where "t1 = s\<lparr>kmem := (kmem s)(b := kmem s src)\<rparr>"
  note st = store_user [OF Suc.prems(1) dst e, where v = "kmem s src", folded b_def, folded t1_def]
  have l1: "loading t1 d fl" using st(1) by (simp add: kept_def)
  have rd: "vaddr (page2pa d) False s src = Inr src"
    using held_kernel [OF Suc.prems(4)] by (simp add: vaddr_def)
  have wr: "vaddr (page2pa d) True s dst = Inr b" unfolding b_def by (rule vaddr_user [OF Suc.prems(1) dst e])
  have im: "held t1 d fl (src + 1) n" using held_kept(1) [OF held_part [OF Suc.prems(4), of 1 n] st(1)] by simp
  have le: "unat (dst + 1) + n \<le> unat UTOP" using bt(3) Suc.prems(2) by simp
  have lu: "w < UTOP" if "between (dst + 1) n w" for w using that le by (simp add: between_def word_less_nat_alt)
  have dm: "user_byte t1 d w \<noteq> None" if "between (dst + 1) n w" for w
    using st(2) [OF lu [OF that]] Suc.prems(3) [of w] bt(1) that by simp
  obtain t where t: "vcopy_up n (page2pa d) (dst + 1) (src + 1) t1 = Inr t" "kept d t1 fl t fl"
    "\<And>w. w < UTOP \<Longrightarrow> user_byte t d w = (if between (dst + 1) n w then Some (kmem t1 (src + 1 + (w - (dst + 1)))) else user_byte t1 d w)"
    using Suc.IH [OF l1 le dm im] by blast
  have "user_byte t d w = (if between dst (Suc n) w then Some (kmem s (src + (w - dst))) else user_byte s d w)" if w: "w < UTOP" for w
  proof (cases "between (dst + 1) n w")
    case True
    define i where "i = unat w - unat dst"
    have i: "i < Suc n" "w = dst + of_nat i"
    proof -
      show "i < Suc n" using True bt(3) unfolding between_def i_def by linarith
      have "unat dst \<le> unat w" using True bt(3) by (simp add: between_def)
      thus "w = dst + of_nat i" by (simp add: i_def of_nat_diff)
    qed
    have "kmem t1 (src + of_nat i) = kmem s (src + of_nat i)" by (rule held_kept(2) [OF Suc.prems(4) st(1) i(1)])
    thus ?thesis using t(3) [OF w] True bt(1) i(2) by simp
  next
    case False
    thus ?thesis using t(3) [OF w] st(2) [OF w] bt(1) by simp
  qed
  moreover have "vcopy_up (Suc n) (page2pa d) dst src s = Inr t" using rd wr t(1) by (simp add: t1_def)
  ultimately show ?case using kept_trans [OF st(1) t(2)] by blast
qed

lemma load_fill:
  "loading s d fl \<Longrightarrow> unat dst + n \<le> unat UTOP \<Longrightarrow> (\<And>w. between dst n w \<Longrightarrow> user_byte s d w \<noteq> None) \<Longrightarrow>
   \<exists>t. vfill n (page2pa d) dst c s = Inr t \<and> kept d s fl t fl \<and>
     (\<forall>w < UTOP. user_byte t d w = (if between dst n w then Some c else user_byte s d w))"
proof (induction n arbitrary: s dst)
  case 0
  thus ?case using kept_refl [OF 0(1)] by simp
next
  case (Suc n)
  have lt: "unat dst + Suc n < 2 ^ 32" using Suc.prems(2) by simp
  note bt = between_Suc [OF lt]
  have dst: "dst < UTOP" using Suc.prems(2) by (simp add: word_less_nat_alt)
  have "user_byte s d dst \<noteq> None" using Suc.prems(3) [of dst] bt(1) by simp
  then obtain e where e: "mapping s d dst = Some e" by (auto simp: user_byte_None)
  define b where "b = page_kva (pt_page e) + PGOFF dst"
  define t1 where "t1 = s\<lparr>kmem := (kmem s)(b := c)\<rparr>"
  note st = store_user [OF Suc.prems(1) dst e, where v = c, folded b_def, folded t1_def]
  have l1: "loading t1 d fl" using st(1) by (simp add: kept_def)
  have wr: "vaddr (page2pa d) True s dst = Inr b" unfolding b_def by (rule vaddr_user [OF Suc.prems(1) dst e])
  have le: "unat (dst + 1) + n \<le> unat UTOP" using bt(3) Suc.prems(2) by simp
  have lu: "w < UTOP" if "between (dst + 1) n w" for w using that le by (simp add: between_def word_less_nat_alt)
  have dm: "user_byte t1 d w \<noteq> None" if "between (dst + 1) n w" for w
    using st(2) [OF lu [OF that]] Suc.prems(3) [of w] bt(1) that by simp
  obtain t where t: "vfill n (page2pa d) (dst + 1) c t1 = Inr t" "kept d t1 fl t fl"
    "\<And>w. w < UTOP \<Longrightarrow> user_byte t d w = (if between (dst + 1) n w then Some c else user_byte t1 d w)"
    using Suc.IH [OF l1 le dm] by blast
  have "user_byte t d w = (if between dst (Suc n) w then Some c else user_byte s d w)" if w: "w < UTOP" for w
    using t(3) [OF w] st(2) [OF w] bt(1,2) by auto
  moreover have "vfill (Suc n) (page2pa d) dst c s = Inr t" using wr t(1) by (simp add: t1_def)
  ultimately show ?case using kept_trans [OF st(1) t(2)] by blast
qed

section \<open>Loading a segment\<close>

text \<open>A segment that \<open>region_alloc\<close> provides for in full, below \<open>UTOP\<close>; its pages, and its contents.\<close>

definition seg_pages :: "Proghdr \<Rightarrow> nat" where
  "seg_pages ph = npages_of (p_memsz ph)"

definition seg_fits :: "Proghdr \<Rightarrow> bool" where
  "seg_fits ph \<longleftrightarrow> p_filesz ph \<le> p_memsz ph \<and> unat (p_memsz ph) + 4096 \<le> 2 ^ 32 \<and>
     unat (p_va ph) mod 4096 + unat (p_memsz ph) \<le> seg_pages ph * 4096 \<and>
     (unat (PGNUM (p_va ph)) + seg_pages ph) * 4096 \<le> unat UTOP"

definition seg_byte :: "mem \<Rightarrow> u32 \<Rightarrow> Proghdr \<Rightarrow> u32 \<Rightarrow> u8" where
  "seg_byte m binary ph w =
     (if between (p_va ph) (unat (p_filesz ph)) w then m (binary + p_offset ph + (w - p_va ph)) else 0)"

lemma seg_fits_region:
  assumes "seg_fits ph"
  shows "between (p_va ph) (unat (p_memsz ph)) w \<Longrightarrow> in_region (p_va ph) (seg_pages ph) w"
    and "unat (p_va ph) + unat (p_memsz ph) \<le> unat UTOP"
proof -
  have v: "unat (p_va ph) = unat (PGNUM (p_va ph)) * 4096 + unat (p_va ph) mod 4096" by (simp add: unat_PGNUM)
  have le: "unat (p_va ph) + unat (p_memsz ph) \<le> (unat (PGNUM (p_va ph)) + seg_pages ph) * 4096"
    using assms v unfolding seg_fits_def by (simp add: algebra_simps)
  thus "unat (p_va ph) + unat (p_memsz ph) \<le> unat UTOP" using assms unfolding seg_fits_def by linarith
  assume "between (p_va ph) (unat (p_memsz ph)) w"
  hence b: "unat (p_va ph) \<le> unat w" "unat w < (unat (PGNUM (p_va ph)) + seg_pages ph) * 4096"
    using le by (simp_all add: between_def)
  hence "unat w div 4096 < unat (PGNUM (p_va ph)) + seg_pages ph" by (simp add: div_less_iff_less_mult)
  moreover have "unat (p_va ph) div 4096 \<le> unat w div 4096" using b(1) by (rule div_le_mono)
  ultimately show "in_region (p_va ph) (seg_pages ph) w" by (simp add: in_region_def unat_PGNUM)
qed

lemma load_segment_ok:
  assumes ld: "loading s d fl" and ty: "p_type ph = ELF_PROG_LOAD" and fits: "seg_fits ph" and mem: "2 * seg_pages ph \<le> length fl"
    and un: "\<And>w. w < UTOP \<Longrightarrow> in_region (p_va ph) (seg_pages ph) w \<Longrightarrow> user_byte s d w = None"
    and im: "held s d fl (binary + p_offset ph) (unat (p_filesz ph))"
  obtains t fl' where "load_segment (page2pa d) (page_kva d) binary ph s = Inr t" "kept d s fl t fl'"
    "length fl \<le> length fl' + 2 * seg_pages ph"
    "\<And>w. between (p_va ph) (unat (p_memsz ph)) w \<Longrightarrow> user_byte t d w = Some (seg_byte (kmem s) binary ph w)"
    "\<And>w. w < UTOP \<Longrightarrow> if in_region (p_va ph) (seg_pages ph) w then user_byte t d w \<noteq> None else user_byte t d w = user_byte s d w"
proof -
  let ?va = "p_va ph" and ?fz = "unat (p_filesz ph)" and ?mz = "unat (p_memsz ph)" and ?src = "binary + p_offset ph"
  note sr = seg_fits_region [OF fits]
  have fm: "?fz \<le> ?mz" "unat (p_memsz ph) + 4096 \<le> 2 ^ 32" "(unat (PGNUM ?va) + seg_pages ph) * 4096 \<le> unat UTOP"
    using fits by (simp_all add: seg_fits_def word_le_nat_alt)
  have low: "w < UTOP" if "between ?va ?mz w" for w using that sr(2) by (simp add: between_def word_less_nat_alt)
  have sub: "between ?va ?mz w" if "between ?va ?fz w" for w using that fm(1) by (simp add: between_def)
  obtain t1 fl1 where t1: "region_alloc (page_kva d) ?va (p_memsz ph) s = Inr t1" "kept d s fl t1 fl1"
    "length fl \<le> length fl1 + 2 * seg_pages ph"
    "\<And>w. w < UTOP \<Longrightarrow> if in_region ?va (seg_pages ph) w then user_byte t1 d w \<noteq> None else user_byte t1 d w = user_byte s d w"
    by (rule load_region [OF ld, of "p_memsz ph" ?va, folded seg_pages_def, OF fm(2,3) mem un], assumption, assumption, rule that)
  have l1: "loading t1 d fl1" using t1(2) by (simp add: kept_def)
  have d1: "user_byte t1 d w \<noteq> None" if "between ?va ?mz w" for w using t1(4) [OF low [OF that]] sr(1) [OF that] by simp
  have im1: "held t1 d fl1 ?src ?fz" by (rule held_kept(1) [OF im t1(2)])
  have le: "unat ?va + ?fz \<le> unat UTOP" using sr(2) fm(1) by linarith
  obtain t2 where t2: "vcopy_up ?fz (page2pa d) ?va ?src t1 = Inr t2" "kept d t1 fl1 t2 fl1"
    "\<And>w. w < UTOP \<Longrightarrow> user_byte t2 d w = (if between ?va ?fz w then Some (kmem t1 (?src + (w - ?va))) else user_byte t1 d w)"
    using load_copy [OF l1 le d1 [OF sub] im1] by blast
  have cp: "vmemcpy (page2pa d) ?va ?src (p_filesz ph) t1 = Inr t2"
  proof (cases "p_filesz ph = 0")
    case False
    hence "0 < ?fz" by (simp add: unat_gt_0)
    hence "KERNBASE \<le> ?src" by (rule held_kernel [OF im1])
    moreover have "?va < UTOP" using \<open>0 < ?fz\<close> le by (simp add: word_less_nat_alt)
    ultimately have "\<not> ?src < ?va" by (simp add: word_less_nat_alt word_le_nat_alt)
    thus ?thesis using t2(1) by (simp add: vmemcpy_def)
  qed (use t2(1) in \<open>simp add: vmemcpy_def\<close>)
  have l2: "loading t2 d fl1" using t2(2) by (simp add: kept_def)
  have e: "unat (?va + p_filesz ph) = unat ?va + ?fz" "unat (p_memsz ph - p_filesz ph) = ?mz - ?fz"
    using le fm(1) by (simp_all add: unat_add_no_carry unat_sub_no_borrow)
  have rest: "between (?va + p_filesz ph) (?mz - ?fz) w \<longleftrightarrow> between ?va ?mz w \<and> \<not> between ?va ?fz w" for w
    using fm(1) by (auto simp: between_def e)
  have le2: "unat (?va + p_filesz ph) + (?mz - ?fz) \<le> unat UTOP" using e sr(2) fm(1) by simp
  have d2: "user_byte t2 d w \<noteq> None" if "between (?va + p_filesz ph) (?mz - ?fz) w" for w
    using t2(3) [OF low] d1 rest that by auto
  obtain t where t: "vfill (?mz - ?fz) (page2pa d) (?va + p_filesz ph) 0 t2 = Inr t" "kept d t2 fl1 t fl1"
    "\<And>w. w < UTOP \<Longrightarrow> user_byte t d w = (if between (?va + p_filesz ph) (?mz - ?fz) w then Some 0 else user_byte t2 d w)"
    using load_fill [OF l2 le2 d2] by blast
  have src: "kmem t1 (?src + (w - ?va)) = kmem s (?src + (w - ?va))" if "between ?va ?fz w" for w
  proof -
    have "w - ?va = of_nat (unat w - unat ?va)" "unat w - unat ?va < ?fz" using that by (auto simp: between_def of_nat_diff)
    thus ?thesis using held_kept(2) [OF im t1(2)] by simp
  qed
  show thesis
  proof (rule that [of t fl1])
    show "load_segment (page2pa d) (page_kva d) binary ph s = Inr t"
      using ty fits t1(1) cp t(1) e(2) by (simp add: load_segment_def seg_fits_def not_less)
    show "kept d s fl t fl1" by (rule kept_trans [OF kept_trans [OF t1(2) t2(2)] t(2)])
    show "user_byte t d w = Some (seg_byte (kmem s) binary ph w)" if "between ?va ?mz w" for w
      using t(3) [OF low [OF that]] t2(3) [OF low [OF that]] rest [of w] src [of w] that by (auto simp: seg_byte_def)
    show "if in_region ?va (seg_pages ph) w then user_byte t d w \<noteq> None else user_byte t d w = user_byte s d w" if "w < UTOP" for w
      using t(3) [OF that] t2(3) [OF that] t1(4) [OF that] rest [of w] sr(1) [of w] sub [of w] by (auto split: if_splits)
  qed (rule t1(3))
qed

section \<open>Loading all segments\<close>

fun headers :: "mem \<Rightarrow> u32 \<Rightarrow> nat \<Rightarrow> Proghdr list" where
  "headers m ph 0 = []"
| "headers m ph (Suc n) = read_Proghdr m ph # headers m (ph + 32) n"

definition seg_range :: "Proghdr \<Rightarrow> nat set" where
  "seg_range ph = {unat (PGNUM (p_va ph))..<unat (PGNUM (p_va ph)) + seg_pages ph}"

definition loads :: "Proghdr list \<Rightarrow> Proghdr list" where
  "loads phs = filter (\<lambda>ph. p_type ph = ELF_PROG_LOAD) phs"

lemma loads_simps [simp]:
  "loads [] = []" "loads (ph # phs) = (if p_type ph = ELF_PROG_LOAD then ph # loads phs else loads phs)"
  by (simp_all add: loads_def)

lemma loads_type: "ph \<in> set (loads phs) \<Longrightarrow> p_type ph = ELF_PROG_LOAD"
  by (simp add: loads_def)

text \<open>No two segments touch the same page, and none touches the pages \<open>P\<close>.\<close>

fun apart :: "nat set \<Rightarrow> Proghdr list \<Rightarrow> bool" where
  "apart P [] \<longleftrightarrow> True"
| "apart P (ph # phs) \<longleftrightarrow> seg_range ph \<inter> P = {} \<and> apart (P \<union> seg_range ph) phs"

lemma apart_disjoint: "apart P phs \<Longrightarrow> ph \<in> set phs \<Longrightarrow> seg_range ph \<inter> P = {}"
proof (induction phs arbitrary: P)
  case (Cons a phs)
  thus ?case using Cons.IH [of "P \<union> seg_range a"] by (cases "ph = a") auto
qed simp

lemma in_region_range: "in_region (p_va ph) (seg_pages ph) w \<longleftrightarrow> unat (PGNUM w) \<in> seg_range ph"
  by (simp add: in_region_def seg_range_def)

lemma ld32_cong:
  assumes "\<And>j. j < 4 \<Longrightarrow> m' (a + of_nat j) = m (a + of_nat j)"
  shows "ld32 m' a = ld32 m a"
  using assms [of 0] assms [of 1] assms [of 2] assms [of 3] by (simp add: ld32_def)

lemma read_Proghdr_cong:
  assumes "\<And>i. i < 32 \<Longrightarrow> m' (a + of_nat i) = m (a + of_nat i)"
  shows "read_Proghdr m' a = read_Proghdr m a"
proof -
  have "ld32 m' (a + of_nat k) = ld32 m (a + of_nat k)" if "k + 3 < 32" for k
    using assms [of k] assms [of "k + 1"] assms [of "k + 2"] assms [of "k + 3"] that by (simp add: ld32_def ac_simps)
  from this [of 0] this [of 4] this [of 8] this [of 12] this [of 16] this [of 20]
  show ?thesis by (simp add: read_Proghdr_def)
qed

lemma headers_kept:
  "held s d fl ph (32 * n) \<Longrightarrow> kept d s fl t fl' \<Longrightarrow> headers (kmem t) ph n = headers (kmem s) ph n"
proof (induction n arbitrary: ph)
  case (Suc n)
  have "read_Proghdr (kmem t) ph = read_Proghdr (kmem s) ph"
    by (rule read_Proghdr_cong) (use held_kept(2) [OF Suc.prems] in simp)
  moreover have "held s d fl (ph + 32) (32 * n)" using held_part [OF Suc.prems(1), of 32 "32 * n"] by simp
  ultimately show ?case using Suc.IH [OF _ Suc.prems(2)] by simp
qed simp

lemma seg_byte_kept:
  assumes "held s d fl (binary + p_offset ph) (unat (p_filesz ph))" and "kept d s fl t fl'"
  shows "seg_byte (kmem t) binary ph w = seg_byte (kmem s) binary ph w"
proof -
  have "w - p_va ph = of_nat (unat w - unat (p_va ph)) \<and> unat w - unat (p_va ph) < unat (p_filesz ph)"
    if "between (p_va ph) (unat (p_filesz ph)) w" using that by (auto simp: between_def of_nat_diff)
  thus ?thesis using held_kept(2) [OF assms] by (auto simp: seg_byte_def)
qed

definition loaded :: "kern \<Rightarrow> kern \<Rightarrow> nat \<Rightarrow> u32 \<Rightarrow> Proghdr list \<Rightarrow> bool" where
  "loaded s t d binary phs \<longleftrightarrow>
     (\<forall>ph \<in> set phs. \<forall>w. between (p_va ph) (unat (p_memsz ph)) w \<longrightarrow> user_byte t d w = Some (seg_byte (kmem s) binary ph w)) \<and>
     (\<forall>w < UTOP. if unat (PGNUM w) \<in> (\<Union>ph \<in> set phs. seg_range ph) then user_byte t d w \<noteq> None else user_byte t d w = user_byte s d w)"

lemma load_segments_ok:
  "loading s d fl \<Longrightarrow> unat ph + 32 * n < 2 ^ 32 \<Longrightarrow> eph = ph + of_nat (32 * n) \<Longrightarrow> held s d fl ph (32 * n) \<Longrightarrow>
   phs = loads (headers (kmem s) ph n) \<Longrightarrow> \<forall>p \<in> set phs. seg_fits p \<and> held s d fl (binary + p_offset p) (unat (p_filesz p)) \<Longrightarrow>
   apart P phs \<Longrightarrow> 2 * sum_list (map seg_pages phs) \<le> length fl \<Longrightarrow>
   (\<And>w. w < UTOP \<Longrightarrow> user_byte s d w \<noteq> None \<Longrightarrow> unat (PGNUM w) \<in> P) \<Longrightarrow>
   \<exists>t fl'. load_segments n (page2pa d) (page_kva d) binary ph eph s = Inr t \<and> kept d s fl t fl' \<and>
     length fl \<le> length fl' + 2 * sum_list (map seg_pages phs) \<and> loaded s t d binary phs"
proof (induction n arbitrary: s fl ph phs P)
  case 0
  thus ?case using kept_refl [OF 0(1)] by (auto simp: loaded_def intro!: exI [of _ fl])
next
  case (Suc n)
  let ?h = "read_Proghdr (kmem s) ph"
  have step: "ph < eph"
  proof -
    have u: "unat (of_nat (32 * Suc n) :: u32) = 32 * Suc n" using Suc.prems(2) by (intro unat_of_nat_small) simp
    have c: "unat ph + unat (of_nat (32 * Suc n) :: u32) < 2 ^ LENGTH(32)" unfolding u using Suc.prems(2) by simp
    have "unat eph = unat ph + 32 * Suc n" unfolding Suc.prems(3) unat_add_no_carry [OF c] u ..
    thus ?thesis by (simp add: word_less_nat_alt)
  qed
  have nx: "unat (ph + 32) + 32 * n < 2 ^ 32" "eph = ph + 32 + of_nat (32 * n)"
    using Suc.prems(2,3) by (simp_all add: unat_add_no_carry)
  have hn: "held s d fl (ph + 32) (32 * n)" using held_part [OF Suc.prems(4), of 32 "32 * n"] by simp
  show ?case
  proof (cases "p_type ?h = ELF_PROG_LOAD")
    case False
    hence "load_segment (page2pa d) (page_kva d) binary ?h s = Inr s" by (simp add: load_segment_def)
    moreover have "phs = loads (headers (kmem s) (ph + 32) n)" using Suc.prems(5) False by simp
    ultimately show ?thesis using Suc.IH [OF Suc.prems(1) nx hn _ Suc.prems(6-9)] step by simp
  next
    case True
    define rest where "rest = loads (headers (kmem s) (ph + 32) n)"
    have phs: "phs = ?h # rest" using Suc.prems(5) True by (simp add: rest_def)
    have ap: "seg_range ?h \<inter> P = {}" "apart (P \<union> seg_range ?h) rest" using Suc.prems(7) phs by simp_all
    have fit: "seg_fits ?h" "held s d fl (binary + p_offset ?h) (unat (p_filesz ?h))" using Suc.prems(6) phs by simp_all
    have mem: "2 * seg_pages ?h \<le> length fl" using Suc.prems(8) phs by simp
    have un: "user_byte s d w = None" if "w < UTOP" "in_region (p_va ?h) (seg_pages ?h) w" for w
      using Suc.prems(9) [OF that(1)] that(2) ap(1) unfolding in_region_range by blast
    obtain t1 fl1 where t1: "load_segment (page2pa d) (page_kva d) binary ?h s = Inr t1" "kept d s fl t1 fl1"
      "length fl \<le> length fl1 + 2 * seg_pages ?h"
      "\<And>w. between (p_va ?h) (unat (p_memsz ?h)) w \<Longrightarrow> user_byte t1 d w = Some (seg_byte (kmem s) binary ?h w)"
      "\<And>w. w < UTOP \<Longrightarrow> if in_region (p_va ?h) (seg_pages ?h) w then user_byte t1 d w \<noteq> None else user_byte t1 d w = user_byte s d w"
      by (rule load_segment_ok [OF Suc.prems(1) True fit(1) mem un fit(2)], assumption, assumption, rule that)
    have l1: "loading t1 d fl1" using t1(2) by (simp add: kept_def)
    have rest: "rest = loads (headers (kmem t1) (ph + 32) n)" unfolding rest_def headers_kept [OF hn t1(2)] ..
    have ok1: "\<forall>p \<in> set rest. seg_fits p \<and> held t1 d fl1 (binary + p_offset p) (unat (p_filesz p))"
      using Suc.prems(6) phs held_kept(1) [OF _ t1(2)] by auto
    have mem1: "2 * sum_list (map seg_pages rest) \<le> length fl1" using Suc.prems(8) phs t1(3) by simp
    have dom: "unat (PGNUM w) \<in> P \<union> seg_range ?h" if "w < UTOP" "user_byte t1 d w \<noteq> None" for w
      using t1(5) [OF that(1)] that Suc.prems(9) [OF that(1)] unfolding in_region_range by (auto split: if_splits)
    obtain t fl' where t: "load_segments n (page2pa d) (page_kva d) binary (ph + 32) eph t1 = Inr t" "kept d t1 fl1 t fl'"
      "length fl1 \<le> length fl' + 2 * sum_list (map seg_pages rest)" "loaded t1 t d binary rest"
      using Suc.IH [OF l1 nx held_kept(1) [OF hn t1(2)] rest ok1 ap(2) mem1 dom] by blast
    have disj: "unat (PGNUM w) \<notin> (\<Union>p \<in> set rest. seg_range p)" if "unat (PGNUM w) \<in> seg_range ?h" for w
      using apart_disjoint [OF ap(2)] that by blast
    note ld = t(4) [unfolded loaded_def, THEN conjunct1, rule_format] and dm = t(4) [unfolded loaded_def, THEN conjunct2, rule_format]
    have "loaded s t d binary phs"
      unfolding loaded_def
    proof (intro conjI ballI allI impI)
      fix p w assume p: "p \<in> set phs" and b: "between (p_va p) (unat (p_memsz p)) w"
      have fp: "seg_fits p" "held s d fl (binary + p_offset p) (unat (p_filesz p))" using Suc.prems(6) p by simp_all
      have w: "w < UTOP" using b seg_fits_region(2) [OF fp(1)] by (simp add: between_def word_less_nat_alt)
      show "user_byte t d w = Some (seg_byte (kmem s) binary p w)"
      proof (cases "p \<in> set rest")
        case True
        thus ?thesis using ld [OF True b] seg_byte_kept [OF fp(2) t1(2)] by simp
      next
        case False
        hence h: "p = ?h" using p phs by simp
        have "unat (PGNUM w) \<in> seg_range ?h" using seg_fits_region(1) [OF fp(1) b] unfolding in_region_range h .
        hence "user_byte t d w = user_byte t1 d w" using dm [OF w] disj by simp
        thus ?thesis using t1(4) b h by simp
      qed
    next
      fix w assume w: "w < UTOP"
      show "if unat (PGNUM w) \<in> (\<Union>p \<in> set phs. seg_range p) then user_byte t d w \<noteq> None else user_byte t d w = user_byte s d w"
        using dm [OF w] t1(5) [OF w] unfolding in_region_range phs by (auto split: if_splits)
    qed
    moreover have "load_segments (Suc n) (page2pa d) (page_kva d) binary ph eph s = Inr t" using step t1(1) t(1) by simp
    moreover have "length fl \<le> length fl' + 2 * sum_list (map seg_pages phs)" using t1(3) t(3) phs by simp
    ultimately show ?thesis using kept_trans [OF t1(2) t(2)] by blast
  qed
qed

section \<open>load_icode\<close>

definition program :: "mem \<Rightarrow> u32 \<Rightarrow> Proghdr list" where
  "program m binary = loads (headers m (binary + e_phoff (read_Elf m binary)) (unat (e_phnum (read_Elf m binary))))"

definition stack_page :: nat where
  "stack_page = unat (PGNUM (USTACKTOP - PGSIZE))"

text \<open>An executable at \<open>binary\<close>: the header, the program headers and the contents of the segments are in pages that satisfy
  \<open>Q\<close>, the segments fit and touch neither the same page nor the stack, and \<open>k\<close> free pages are enough for them.\<close>

definition program_ok :: "mem \<Rightarrow> (nat \<Rightarrow> bool) \<Rightarrow> nat \<Rightarrow> u32 \<Rightarrow> bool" where
  "program_ok m Q k binary \<longleftrightarrow>
     (let elf = read_Elf m binary; ph = binary + e_phoff elf; n = unat (e_phnum elf); phs = program m binary in
      e_magic elf = ELF_MAGIC \<and> stored Q binary 52 \<and> unat ph + 32 * n < 2 ^ 32 \<and> stored Q ph (32 * n) \<and>
      (\<forall>p \<in> set phs. seg_fits p \<and> stored Q (binary + p_offset p) (unat (p_filesz p))) \<and>
      apart {stack_page} phs \<and> 2 * (sum_list (map seg_pages phs) + 1) \<le> k)"

text \<open>The memory of a program that has been loaded: its segments, a page of stack, and nothing else.\<close>

definition program_in :: "mem \<Rightarrow> u32 \<Rightarrow> kern \<Rightarrow> nat \<Rightarrow> bool" where
  "program_in m binary t d \<longleftrightarrow>
     (\<forall>ph \<in> set (program m binary). \<forall>w. between (p_va ph) (unat (p_memsz ph)) w \<longrightarrow> user_byte t d w = Some (seg_byte m binary ph w)) \<and>
     (\<forall>w < UTOP. user_byte t d w \<noteq> None \<longleftrightarrow>
        unat (PGNUM w) = stack_page \<or> unat (PGNUM w) \<in> (\<Union>ph \<in> set (program m binary). seg_range ph))"

lemma flush_kept:
  assumes ld: "loading s d fl"
  shows "kept d s fl (s\<lparr>tlb := x\<rparr>) fl" and "user_byte (s\<lparr>tlb := x\<rparr>) d w = user_byte s d w"
proof -
  let ?t = "s\<lparr>tlb := x\<rparr>"
  have k: "kmem ?t = kmem s" by simp
  note kc = kmem_cong [OF k]
  have m: "mapping ?t d w = mapping s d w" for w by (simp add: mapping_def kc)
  have a: "aspace ?t d = aspace s d" by (simp add: aspace_def kc ref_of_def)
  have i: "is_table ?t d q = is_table s d q" "upage ?t d q = upage s d q" for q by (simp_all add: is_table_def upage_def kc(1) m)
  have f: "frees ?t fl = frees s fl" by simp
  have "loading ?t d fl" using ld unfolding loading_def m a i kc(1) f .
  thus "kept d s fl ?t fl" by (simp add: kept_def away_def i ref_of_def globals_of_def)
  show "user_byte ?t d w = user_byte s d w" by (simp add: user_byte_def m split: option.split)
qed

lemma held_word:
  assumes "held s d fl a n" and "kept d s fl t fl'" and "i + 4 \<le> n"
  shows "ld32 (kmem t) (a + of_nat i) = ld32 (kmem s) (a + of_nat i)"
proof (rule ld32_cong)
  fix j :: nat assume "j < 4"
  hence "kmem t (a + of_nat (i + j)) = kmem s (a + of_nat (i + j))" using assms(3) by (intro held_kept(2) [OF assms(1,2)]) simp
  moreover have "a + of_nat i + of_nat j = a + of_nat (i + j)" by simp
  ultimately show "kmem t (a + of_nat i + of_nat j) = kmem s (a + of_nat i + of_nat j)" by metis
qed

lemma load_icode_ok:
  assumes ld: "loading (krn s) d fl" and empty: "\<And>w. w < UTOP \<Longrightarrow> user_byte (krn s) d w = None"
    and e: "e < length (envs s)" "env_pgdir (envs s ! e) = page_kva d" and kd: "kern_pgdir (krn s) = page_kva kd" "kd < 0x10000"
    and ok: "program_ok (kmem (krn s)) (away (krn s) d fl) (length fl) binary"
  obtains s' fl' where "load_icode e binary s = Inr s'" "kept d (krn s) fl (krn s') fl'" "program_in (kmem (krn s)) binary (krn s') d"
    "envs s' = (envs s)[e := (envs s ! e)\<lparr>env_tf := (env_tf (envs s ! e))\<lparr>tf_eip := e_entry (read_Elf (kmem (krn s)) binary)\<rparr>\<rparr>]"
    "curenv s' = curenv s" "env_free_list s' = env_free_list s" "gdt s' = gdt s" "hw s' = (hw s)\<lparr>cr3 := page2pa kd\<rparr>"
proof -
  define k where "k = krn s"
  define elf where "elf = read_Elf (kmem k) binary"
  define ph where "ph = binary + e_phoff elf"
  define n where "n = unat (e_phnum elf)"
  define phs where "phs = program (kmem k) binary"
  have phs: "phs = loads (headers (kmem k) ph n)" by (simp add: phs_def program_def elf_def ph_def n_def)
  have o: "e_magic elf = ELF_MAGIC" "held k d fl binary 52" "unat ph + 32 * n < 2 ^ 32" "held k d fl ph (32 * n)"
    "\<forall>p \<in> set phs. seg_fits p \<and> held k d fl (binary + p_offset p) (unat (p_filesz p))" "apart {stack_page} phs"
    "2 * (sum_list (map seg_pages phs) + 1) \<le> length fl"
    using ok unfolding program_ok_def Let_def k_def [symmetric] elf_def [symmetric] ph_def [symmetric] n_def [symmetric] phs_def [symmetric]
    by blast+
  have lk: "loading k d fl" using ld by (simp add: k_def)
  define k0 where "k0 = k\<lparr>tlb := (\<lambda>_. False)\<rparr>"
  note f0 = flush_kept [OF lk, of "\<lambda>_. False", folded k0_def]
  have l0: "loading k0 d fl" using f0(1) by (simp add: kept_def)
  have d16: "d < 0x10000" using is_table_bounds(1) [OF lk, of d] by (simp add: is_table_def)
  have m0: "kmem k0 = kmem k" by (simp add: k0_def)
  have none: "user_byte k0 d w \<noteq> None \<Longrightarrow> w < UTOP \<Longrightarrow> unat (PGNUM w) \<in> {stack_page}" for w using f0(2) empty by (simp add: k_def)
  have o5: "\<forall>p \<in> set phs. seg_fits p \<and> held k0 d fl (binary + p_offset p) (unat (p_filesz p))" using o(5) held_kept(1) [OF _ f0(1)] by blast
  have mem: "2 * sum_list (map seg_pages phs) \<le> length fl" using o(7) by simp
  obtain k1 fl1 where k1: "load_segments n (page2pa d) (page_kva d) binary ph (ph + of_nat (32 * n)) k0 = Inr k1" "kept d k0 fl k1 fl1"
    "length fl \<le> length fl1 + 2 * sum_list (map seg_pages phs)" "loaded k0 k1 d binary phs"
    using load_segments_ok [OF l0 o(3) refl held_kept(1) [OF o(4) f0(1)] phs [folded m0] o5 o(6) mem none] by blast
  have l1: "loading k1 d fl1" using k1(2) by (simp add: kept_def)
  have kp1: "kept d k fl k1 fl1" by (rule kept_trans [OF f0(1) k1(2)])
  have entry: "ld32 (kmem k1) (binary + 24) = e_entry elf"
    using held_word [OF o(2) kp1, of 24] by (simp add: elf_def read_Elf_def)
  have dom1: "user_byte k1 d w \<noteq> None \<longleftrightarrow> unat (PGNUM w) \<in> (\<Union>ph \<in> set phs. seg_range ph)" if "w < UTOP" for w
    using k1(4) that f0(2) empty [OF that] unfolding loaded_def k_def by (metis (no_types, lifting))
  have np: "npages_of PGSIZE = 1" "npages_of 4096 = 1" by (simp_all add: npages_of_def)
  have us: "(unat (PGNUM (USTACKTOP - PGSIZE)) + npages_of PGSIZE) * 4096 \<le> unat UTOP" by (simp add: np unat_PGNUM)
  have st: "in_region (USTACKTOP - PGSIZE) (npages_of PGSIZE) w \<longleftrightarrow> unat (PGNUM w) = stack_page" for w
    unfolding in_region_def np stack_page_def by auto
  have un: "user_byte k1 d w = None" if w: "w < UTOP" "in_region (USTACKTOP - PGSIZE) (npages_of PGSIZE) w" for w
    using dom1 [OF w(1)] w(2) apart_disjoint [OF o(6)] unfolding st by blast
  have mem1: "2 * npages_of PGSIZE \<le> length fl1" using o(7) k1(3) np by simp
  obtain k2 fl2 where k2: "region_alloc (page_kva d) (USTACKTOP - PGSIZE) PGSIZE k1 = Inr k2" "kept d k1 fl1 k2 fl2"
    "\<And>w. w < UTOP \<Longrightarrow> if in_region (USTACKTOP - PGSIZE) (npages_of PGSIZE) w then user_byte k2 d w \<noteq> None else user_byte k2 d w = user_byte k1 d w"
    by (rule load_region [OF l1 _ us mem1 un]) (simp_all add: that)
  have l2: "loading k2 d fl2" using k2(2) by (simp add: kept_def)
  define k3 where "k3 = k2\<lparr>tlb := (\<lambda>_. False)\<rparr>"
  note f3 = flush_kept [OF l2, of "\<lambda>_. False", folded k3_def]
  have kp: "kept d k fl k3 fl2" by (rule kept_trans [OF kept_trans [OF kp1 k2(2)] f3(1)])
  have "globals_of k2 = globals_of k" using kept_trans [OF kp1 k2(2)] by (simp add: kept_def)
  hence kd2: "kern_pgdir k2 = page_kva kd" using kd(1) by (simp add: k_def globals_of_def)
  define s' where "s' = s\<lparr>envs := (envs s)[e := (envs s ! e)\<lparr>env_tf := (env_tf (envs s ! e))\<lparr>tf_eip := e_entry elf\<rparr>\<rparr>],
    hw := (hw s)\<lparr>cr3 := page2pa kd\<rparr>, krn := k3\<rparr>"
  have eph: "ph + ucast (e_phnum elf) * 32 = ph + of_nat (32 * n)" by (simp add: n_def)
  show thesis
  proof (rule that [of s' fl2])
    show "load_icode e binary s = Inr s'"
      using o(1) e k1(1) [folded eph] k2(1) kd2 entry PADDR_page_kva [OF d16] PADDR_page_kva [OF kd(2)]
      by (simp add: load_icode_def Let_def elf_def [symmetric] k_def [symmetric] ph_def [symmetric] n_def [symmetric] lcr3_def k0_def [symmetric]
            upd_env_def s'_def k3_def mult.commute)
    show "program_in (kmem (krn s)) binary (krn s') d"
      unfolding program_in_def
    proof (intro conjI ballI allI impI)
      fix p w assume p: "p \<in> set (program (kmem (krn s)) binary)" and b: "between (p_va p) (unat (p_memsz p)) w"
      have p': "p \<in> set phs" using p by (simp add: phs_def k_def)
      have fp: "seg_fits p" using o(5) p' by blast
      have w: "w < UTOP" using b seg_fits_region(2) [OF fp] by (simp add: between_def word_less_nat_alt)
      have r: "unat (PGNUM w) \<in> seg_range p" using seg_fits_region(1) [OF fp b] unfolding in_region_range .
      have "user_byte k1 d w = Some (seg_byte (kmem k0) binary p w)" using k1(4) p' b unfolding loaded_def by blast
      moreover have "unat (PGNUM w) \<noteq> stack_page" using apart_disjoint [OF o(6) p'] r by auto
      ultimately show "user_byte (krn s') d w = Some (seg_byte (kmem (krn s)) binary p w)"
        using k2(3) [OF w] f3(2) m0 unfolding st by (simp add: s'_def k_def)
    next
      fix w assume w: "w < UTOP"
      show "(user_byte (krn s') d w \<noteq> None) = (unat (PGNUM w) = stack_page \<or> unat (PGNUM w) \<in> (\<Union>p \<in> set (program (kmem (krn s)) binary). seg_range p))"
        using k2(3) [OF w] f3(2) dom1 [OF w] unfolding st phs_def k_def by (auto simp: s'_def split: if_splits)
    qed
  qed (use kp in \<open>simp_all add: s'_def k_def elf_def\<close>)
qed

end
