(* ===== verification/Jos_EnvCreate.thy ===== *)
theory Jos_EnvCreate
  imports Jos_Load
begin

text \<open>
  \<open>env_create\<close> of \<open>kern/env.c\<close> as a whole: a fresh environment whose memory is the program, and a kernel in which nothing else has changed.
\<close>

section \<open>Programs that do not move\<close>

definition agree :: "(nat \<Rightarrow> bool) \<Rightarrow> mem \<Rightarrow> mem \<Rightarrow> bool" where
  "agree Q m m' \<longleftrightarrow> (\<forall>q a. Q q \<longrightarrow> in_page q a \<longrightarrow> m' a = m a)"

lemma stored_agree: "stored Q a n \<Longrightarrow> agree Q m m' \<Longrightarrow> i < n \<Longrightarrow> m' (a + of_nat i) = m (a + of_nat i)"
  unfolding stored_def agree_def by blast

lemma stored_mono: "stored Q a n \<Longrightarrow> (\<And>q. Q q \<Longrightarrow> Q' q) \<Longrightarrow> stored Q' a n"
  unfolding stored_def by blast

lemma stored_tail: "stored Q a (i + n) \<Longrightarrow> unat a + i < 2 ^ 32 \<Longrightarrow> stored Q (a + of_nat i) n"
proof -
  assume st: "stored Q a (i + n)" and i: "unat a + i < 2 ^ 32"
  have "unat (of_nat i :: u32) = i" using i by (intro unat_of_nat_small) simp
  hence "unat (a + of_nat i) = unat a + i" using i by (subst unat_add_no_carry) simp_all
  moreover have "\<exists>q. Q q \<and> in_page q (a + of_nat i + of_nat j)" if "j < n" for j
    using st that unfolding stored_def by (metis add.assoc nat_add_left_cancel_less of_nat_add)
  ultimately show ?thesis using st unfolding stored_def by simp
qed

lemma headers_agree:
  "stored Q ph (32 * n) \<Longrightarrow> agree Q m m' \<Longrightarrow> unat ph + 32 * n < 2 ^ 32 \<Longrightarrow> headers m' ph n = headers m ph n"
proof (induction n arbitrary: ph)
  case (Suc n)
  have "read_Proghdr m' ph = read_Proghdr m ph"
    by (rule read_Proghdr_cong) (use stored_agree [OF Suc.prems(1,2)] in simp)
  moreover have "stored Q (ph + 32) (32 * n)" using stored_tail [of Q ph 32 "32 * n"] Suc.prems(1,3) by simp
  moreover have "unat (ph + 32) + 32 * n < 2 ^ 32" using Suc.prems(3) by (simp add: unat_add_no_carry)
  ultimately show ?case using Suc.IH [OF _ Suc.prems(2)] by simp
qed simp

lemma seg_byte_agree:
  assumes "stored Q (binary + p_offset ph) (unat (p_filesz ph))" and "agree Q m m'"
  shows "seg_byte m' binary ph w = seg_byte m binary ph w"
proof -
  have "w - p_va ph = of_nat (unat w - unat (p_va ph)) \<and> unat w - unat (p_va ph) < unat (p_filesz ph)"
    if "between (p_va ph) (unat (p_filesz ph)) w" using that by (auto simp: between_def of_nat_diff)
  thus ?thesis using stored_agree [OF assms] by (auto simp: seg_byte_def)
qed

lemma read_Elf_agree:
  assumes "stored Q binary 52" and "agree Q m m'"
  shows "read_Elf m' binary = read_Elf m binary"
proof -
  have b: "m' (binary + of_nat i) = m (binary + of_nat i)" if "i < 52" for i using stored_agree [OF assms that] .
  have w: "ld32 m' (binary + of_nat i) = ld32 m (binary + of_nat i)" if "i < 48" for i
  proof (rule ld32_cong)
    fix j :: nat assume "j < 4"
    thus "m' (binary + of_nat i + of_nat j) = m (binary + of_nat i + of_nat j)" using b [of "i + j"] that by (simp add: add.assoc)
  qed
  show ?thesis using w [of 0] w [of 24] w [of 28] b [of 44] b [of 45] by (simp add: read_Elf_def ld16_def add.assoc)
qed

lemma program_agree:
  assumes ok: "program_ok m Q k binary" and ag: "agree Q m m'"
  shows "read_Elf m' binary = read_Elf m binary" and "program m' binary = program m binary"
    and "(\<And>q. Q q \<Longrightarrow> Q' q) \<Longrightarrow> k \<le> k' \<Longrightarrow> program_ok m' Q' k' binary"
    and "ph \<in> set (program m binary) \<Longrightarrow> seg_byte m' binary ph w = seg_byte m binary ph w"
proof -
  have st: "stored Q binary 52" using ok unfolding program_ok_def Let_def by blast
  show e: "read_Elf m' binary = read_Elf m binary" by (rule read_Elf_agree [OF st ag])
  have hs: "stored Q (binary + e_phoff (read_Elf m binary)) (32 * unat (e_phnum (read_Elf m binary)))"
    "unat (binary + e_phoff (read_Elf m binary)) + 32 * unat (e_phnum (read_Elf m binary)) < 2 ^ 32"
    using ok unfolding program_ok_def Let_def by blast+
  show p: "program m' binary = program m binary" unfolding program_def e headers_agree [OF hs(1) ag hs(2)] ..
  show "program_ok m' Q' k' binary" if "\<And>q. Q q \<Longrightarrow> Q' q" "k \<le> k'"
    using ok stored_mono [OF _ that(1)] that(2) unfolding program_ok_def Let_def e p by (meson le_trans)
  show "seg_byte m' binary ph w = seg_byte m binary ph w" if "ph \<in> set (program m binary)"
    by (rule seg_byte_agree [OF _ ag]) (use ok that in \<open>simp add: program_ok_def Let_def\<close>)
qed

lemma program_in_agree:
  assumes "program_ok m Q k binary" and "agree Q m m'" and "program_in m' binary t d"
  shows "program_in m binary t d"
  using assms(3) program_agree(4) [OF assms(1,2)] unfolding program_in_def program_agree(2) [OF assms(1,2)] by simp

section \<open>The fresh environment\<close>

lemma with_dir_byte:
  assumes fr: "frees k (x # fl)" and kd: "kd < length (pages k)" "kd \<noteq> x" and low: "\<And>i. i < 955 \<Longrightarrow> \<not> present (pde k kd i)"
    and q: "q < 0x10000" "q \<noteq> x" "in_page q a"
  shows "kmem (with_dir k x kd) a = kmem k a"
proof (rule outside_byte [of "{x}"])
  show "outside {x} k (with_dir k x kd)"
    unfolding outside_def using with_dir(6) [OF fr kd low] by (simp add: pde_def)
qed (use q in simp_all)

lemma with_dir_loading:
  assumes fr: "frees k (x # fl)" and kd: "kd < length (pages k)" "kd \<noteq> x" and low: "\<And>i. i < 955 \<Longrightarrow> \<not> present (pde k kd i)"
  shows "loading (with_dir k x kd) x fl" and "\<And>w. w < UTOP \<Longrightarrow> user_byte (with_dir k x kd) x w = None"
    and "away (with_dir k x kd) x fl q \<longleftrightarrow> q < 0x10000 \<and> q \<notin> set (x # fl)"
proof -
  note wd = with_dir [OF fr kd low]
  have np: "\<not> present (pde (with_dir k x kd) x i)" if "i < 955" for i
    using wd(5) [of i] less_955_1024 [OF that] low [OF that] that by auto
  show "loading (with_dir k x kd) x fl" using wd(1,7,8) np unfolding loading_def by (auto simp del: not_None_eq)
  show "\<And>w. w < UTOP \<Longrightarrow> user_byte (with_dir k x kd) x w = None" by (simp add: user_byte_def wd(8))
  show "away (with_dir k x kd) x fl q \<longleftrightarrow> q < 0x10000 \<and> q \<notin> set (x # fl)"
    using np wd(8) by (auto simp: away_def is_table_def upage_def)
qed

section \<open>env_create\<close>

text \<open>The pages that are in use at the start: their contents and their reference counts stay, and they do not become free.\<close>

definition untouched :: "nat list \<Rightarrow> kern \<Rightarrow> nat list \<Rightarrow> kern \<Rightarrow> bool" where
  "untouched fl k fl' t \<longleftrightarrow>
     (\<forall>q < 0x10000. q \<notin> set fl \<longrightarrow> q \<notin> set fl' \<and> ref_of t q = ref_of k q \<and> (\<forall>a. in_page q a \<longrightarrow> kmem t a = kmem k a))"

lemma env_wf_upd:
  assumes "env_wf s efl" and "length (envs t) = length (envs s)" and "env_free_list t = env_free_list s" and "curenv t = curenv s"
    and "\<And>j. j < 1024 \<Longrightarrow> env_link (envs t ! j) = env_link (envs s ! j) \<and> env_status (envs t ! j) = env_status (envs s ! j) \<and>
      env_id (envs t ! j) = env_id (envs s ! j)"
  shows "env_wf t efl"
proof (rule env_wfI)
  have "linked (\<lambda>i. env_link (envs t ! i)) (env_free_list t) efl = linked (\<lambda>i. env_link (envs s ! i)) (env_free_list t) efl"
    by (rule linked_cong) (use assms(5) env_wfD(3) [OF assms(1)] in auto)
  thus "linked (\<lambda>i. env_link (envs t ! i)) (env_free_list t) efl" using env_wfD(4) [OF assms(1)] assms(3) by simp
next
  fix i :: nat assume i: "i < 1024"
  note w = env_wfD [OF assms(1)] and a = assms(5) [OF i]
  show "env_status (envs t ! i) = ENV_FREE \<longleftrightarrow> i \<in> set efl" using w(5) [OF i] a by simp
  show "(env_id (envs t ! i) = 0 \<and> i \<in> set efl) \<or> env_id_ok i (env_id (envs t ! i))" using w(6) [OF i] a by simp
  show "curenv t = Some i" if "env_status (envs t ! i) = ENV_RUNNING" using w(7) [OF i] a that assms(4) by simp
qed (use assms(2,4) env_wfD(1,2,3,8) [OF assms(1)] in simp_all)

lemma env_create_ok:
  assumes wf: "env_wf s (e # efl)" and fr: "frees (krn s) (x # fl)"
    and kd: "kern_pgdir (krn s) = page_kva kd" "kd < length (pages (krn s))" "kd \<notin> set (x # fl)"
    and low: "\<forall>i < 955. \<not> present (pde (krn s) kd i)"
    and ok: "program_ok (kmem (krn s)) (\<lambda>q. q < 0x10000 \<and> q \<notin> set (x # fl)) (length fl) binary"
  obtains s' fl' where "env_create binary type s = Inr s'" "env_wf s' efl" "loading (krn s') x fl'"
    "untouched (x # fl) (krn s) fl' (krn s')" "program_in (kmem (krn s)) binary (krn s') x"
    "envs s' ! e = (envs s ! e)\<lparr>env_pgdir := page_kva x, env_id := next_generation (env_id (envs s ! e)) OR of_nat e,
       env_parent_id := 0, env_type := type, env_status := ENV_RUNNABLE, env_runs := 0,
       env_tf := user_tf\<lparr>tf_eip := e_entry (read_Elf (kmem (krn s)) binary)\<rparr>\<rparr>"
    "\<And>j. j < 1024 \<Longrightarrow> j \<noteq> e \<Longrightarrow> envs s' ! j = envs s ! j"
    "curenv s' = curenv s" "hw s' = (hw s)\<lparr>cr3 := page2pa kd\<rparr>" "globals_of (krn s') = globals_of (krn s)"
    "\<And>q. q < 0x10000 \<Longrightarrow> q \<notin> set (x # fl) \<Longrightarrow> away (krn s') x fl' q"
proof -
  let ?m = "kmem (krn s)" and ?Q = "\<lambda>q. q < 0x10000 \<and> q \<notin> set (x # fl)"
  have kx: "kd \<noteq> x" and low': "\<And>i. i < 955 \<Longrightarrow> \<not> present (pde (krn s) kd i)" using kd(3) low by simp_all
  have e: "e < 1024" using env_wfD(3) [OF wf, of e] by simp
  have kd16: "kd < 0x10000" using frees_bounds(5) [OF fr kd(2)] .
  obtain s1 where s1: "env_alloc 0 s = Inr (0, Some e, s1)" "krn s1 = with_dir (krn s) x kd" "env_wf s1 efl"
    "\<And>j. j < 1024 \<Longrightarrow> j \<noteq> e \<Longrightarrow> envs s1 ! j = envs s ! j"
    "envs s1 ! e = (envs s ! e)\<lparr>env_pgdir := page_kva x, env_id := next_generation (env_id (envs s ! e)) OR of_nat e,
       env_parent_id := 0, env_type := ENV_TYPE_USER, env_status := ENV_RUNNABLE, env_runs := 0, env_tf := user_tf\<rparr>"
    "curenv s1 = curenv s" "hw s1 = hw s"
    by (rule env_alloc_ok [OF wf fr kd(1,2) kx, of 0], rule that)
  note wd = with_dir [OF fr kd(2) kx low'] and wl = with_dir_loading [OF fr kd(2) kx low', folded s1(2)]
  have ag: "agree ?Q ?m (kmem (krn s1))"
    unfolding agree_def s1(2) using with_dir_byte [OF fr kd(2) kx low'] by auto
  have ok1: "program_ok (kmem (krn s1)) (away (krn s1) x fl) (length fl) binary"
    by (rule program_agree(3) [OF ok ag]) (simp_all add: wl(3))
  note elf = program_agree(1) [OF ok ag]
  have len: "length (envs s1) = 1024" using env_wfD(1) [OF s1(3)] .
  have k1: "e < length (envs s1)" "env_pgdir (envs s1 ! e) = page_kva x" "kern_pgdir (krn s1) = page_kva kd"
    using e len wd(3) kd(1) by (simp_all add: s1(2,5))
  have em: "w < UTOP \<Longrightarrow> user_byte (krn s1) x w = None" for w by (rule wl(2))
  obtain s2 fl' where s2: "load_icode e binary s1 = Inr s2" "kept x (krn s1) fl (krn s2) fl'"
    "program_in (kmem (krn s1)) binary (krn s2) x"
    "envs s2 = (envs s1)[e := (envs s1 ! e)\<lparr>env_tf := (env_tf (envs s1 ! e))\<lparr>tf_eip := e_entry (read_Elf (kmem (krn s1)) binary)\<rparr>\<rparr>]"
    "curenv s2 = curenv s1" "env_free_list s2 = env_free_list s1" "gdt s2 = gdt s1" "hw s2 = (hw s1)\<lparr>cr3 := page2pa kd\<rparr>"
    by (rule load_icode_ok [OF wl(1) em k1(1,2) k1(3) kd16 ok1], assumption, assumption, rule that)
  define s' where "s' = upd_env e (\<lambda>v. v\<lparr>env_type := type\<rparr>) s2"
  have nth: "envs s' ! j = (if j = e then (envs s1 ! e)\<lparr>env_type := type,
      env_tf := user_tf\<lparr>tf_eip := e_entry (read_Elf ?m binary)\<rparr>\<rparr> else envs s1 ! j)" if "j < 1024" for j
    using that e len by (simp add: s'_def s2(4) s1(5) elf nth_list_update)
  have l2: "loading (krn s2) x fl'" using s2(2) by (simp add: kept_def)
  show thesis
  proof (rule that [of s' fl'])
    show "env_create binary type s = Inr s'" using s1(1) s2(1) by (simp add: env_create_def s'_def)
    show "env_wf s' efl"
      by (rule env_wf_upd [OF s1(3)]) (use nth s2 s1(5) len in \<open>auto simp: s'_def\<close>)
    show "loading (krn s') x fl'" using l2 by (simp add: s'_def)
    show "untouched (x # fl) (krn s) fl' (krn s')"
      unfolding untouched_def
    proof (intro allI impI)
      fix q :: nat assume q: "q < 0x10000" "q \<notin> set (x # fl)"
      have a: "away (krn s1) x fl q" using q by (simp add: wl(3))
      hence b: "away (krn s2) x fl' q" "ref_of (krn s2) q = ref_of (krn s1) q" "\<forall>a. in_page q a \<longrightarrow> kmem (krn s2) a = kmem (krn s1) a"
        using s2(2) unfolding kept_def by blast+
      show "q \<notin> set fl' \<and> ref_of (krn s') q = ref_of (krn s) q \<and> (\<forall>a. in_page q a \<longrightarrow> kmem (krn s') a = kmem (krn s) a)"
        using b q ag wd(4) [of q] by (simp add: s'_def away_def agree_def s1(2))
    qed
    show "program_in ?m binary (krn s') x" using program_in_agree [OF ok ag s2(3)] by (simp add: s'_def)
    show "envs s' ! e = (envs s ! e)\<lparr>env_pgdir := page_kva x, env_id := next_generation (env_id (envs s ! e)) OR of_nat e,
       env_parent_id := 0, env_type := type, env_status := ENV_RUNNABLE, env_runs := 0,
       env_tf := user_tf\<lparr>tf_eip := e_entry (read_Elf ?m binary)\<rparr>\<rparr>"
      by (simp add: nth [OF e] s1(5))
    show "envs s' ! j = envs s ! j" if "j < 1024" "j \<noteq> e" for j using nth [OF that(1)] s1(4) [OF that] that(2) by simp
    have "globals_of (krn s2) = globals_of (krn s1)" using s2(2) by (simp add: kept_def)
    thus "globals_of (krn s') = globals_of (krn s)" 
      by (simp add: s'_def s1(2) with_dir_def Let_def page_alloc_globals [OF page_alloc_Cons(1) [OF fr]])
    show "away (krn s') x fl' q" if "q < 0x10000" "q \<notin> set (x # fl)" for q
      using s2(2) that unfolding kept_def by (simp add: s'_def wl(3))
  qed (use s1 s2 in \<open>simp_all add: s'_def\<close>)
qed

lemma env_run_krn: "env_run e s = Inr (tf, t) \<Longrightarrow> krn t = (krn s)\<lparr>tlb := (\<lambda>_. False)\<rparr>"
  by (auto simp: env_run_def Let_def res_simps split: if_splits option.splits)

text \<open>C3: \<open>env_create\<close> on an executable in the kernel's memory whose segments fit, followed by \<open>env_run\<close>: every byte of
  every segment, the zero-filled ones included, is in the new address space at its virtual address; besides the segments
  only the page of stack is mapped; the processor resumes at the entry point, on the new page
  directory, at user privilege; and no page that was in use before is written, changes its reference count or becomes free.\<close>

theorem env_create_spec:
  assumes "env_wf s (e # efl)" and "frees (krn s) (x # fl)"
    and "kern_pgdir (krn s) = page_kva kd" and "kd < length (pages (krn s))" and "kd \<notin> set (x # fl)"
    and "\<forall>i < PDX UTOP. \<not> present (pde (krn s) kd i)"
    and "program_ok (kmem (krn s)) (\<lambda>q. q < 0x10000 \<and> q \<notin> set (x # fl)) (length fl) binary"
  shows "\<exists>s' fl' tf s''. env_create binary type s = Inr s' \<and> env_wf s' efl \<and> frees (krn s') fl' \<and> aspace (krn s') x \<and>
     program_in (kmem (krn s)) binary (krn s') x \<and> untouched (x # fl) (krn s) fl' (krn s') \<and>
     env_type (envs s' ! e) = type \<and> env_status (envs s' ! e) = ENV_RUNNABLE \<and> env_pgdir (envs s' ! e) = page_kva x \<and>
     (\<forall>j < NENV. j \<noteq> e \<longrightarrow> envs s' ! j = envs s ! j) \<and>
     env_run e s' = Inr (tf, s'') \<and> tf_eip tf = e_entry (read_Elf (kmem (krn s)) binary) \<and> tf_esp tf = USTACKTOP \<and>
     tf_cs tf = ucast (GD_UT OR 3) \<and> curenv s'' = Some e \<and> cr3 (hw s'') = page2pa x \<and> kmem (krn s'') = kmem (krn s')"
proof -
  have low: "\<forall>i < 955. \<not> present (pde (krn s) kd i)" using assms(6) by simp
  have e: "e < 1024" "e \<notin> set efl" using env_wfD(2) [OF assms(1)] env_wfD(3) [OF assms(1), of e] by simp_all
  have x: "x < 0x10000" using frees_bounds(4) [OF assms(2), of x] by simp
  show ?thesis
  proof (rule env_create_ok [OF assms(1-5) low assms(7), of type])
    fix s' fl' assume c: "env_create binary type s = Inr s'" "env_wf s' efl" "loading (krn s') x fl'"
      "untouched (x # fl) (krn s) fl' (krn s')" "program_in (kmem (krn s)) binary (krn s') x"
      "envs s' ! e = (envs s ! e)\<lparr>env_pgdir := page_kva x, env_id := next_generation (env_id (envs s ! e)) OR of_nat e,
       env_parent_id := 0, env_type := type, env_status := ENV_RUNNABLE, env_runs := 0,
       env_tf := user_tf\<lparr>tf_eip := e_entry (read_Elf (kmem (krn s)) binary)\<rparr>\<rparr>"
      "\<And>j. j < 1024 \<Longrightarrow> j \<noteq> e \<Longrightarrow> envs s' ! j = envs s ! j"
    have pa: "PADDR (env_pgdir (envs s' ! e)) = Inr (page2pa x)" using PADDR_page_kva [OF x] by (simp add: c(6))
    obtain s'' where r: "env_run e s' = Inr (env_tf (envs s' ! e), s'')" "curenv s'' = Some e" "cr3 (hw s'') = page2pa x"
      by (rule env_run_wf [OF c(2) e pa], rule that)
    have m: "kmem (krn s'') = kmem (krn s')" using env_run_krn [OF r(1)] by simp
    show ?thesis
      using c r m loadingD(1,2) [OF c(3)]
      by (intro exI [of _ s'] exI [of _ fl'] exI [of _ "env_tf (envs s' ! e)"] exI [of _ s'']) (simp add: user_tf_def del: Let_def)
  qed
qed

text \<open>A kernel of eight pages that holds in page 1 an executable with one segment: four bytes of code
  for \<open>0x800020\<close> and four bytes of zeroes.\<close>

definition demo_image :: "u8 list" where
  "demo_image = [0x7F, 0x45, 0x4C, 0x46] @ replicate 20 0 @ [0x20, 0, 0x80, 0, 0x34, 0, 0, 0] @ replicate 12 0 @ [1, 0] @ replicate 6 0 @
     [1, 0, 0, 0, 0x54, 0, 0, 0, 0x20, 0, 0x80, 0, 0x20, 0, 0x80, 0, 4, 0, 0, 0, 8, 0, 0, 0, 5, 0, 0, 0, 0, 0x10, 0, 0] @
     [0x90, 0x90, 0xEB, 0xFC]"

definition demo_loader :: kern where
  "demo_loader = \<lparr>npages = 8, npages_basemem = 8, kern_pgdir = 0xF0000000, pages_kva = 0, pages =
     [\<lparr>pp_link = None, pp_ref = 1\<rparr>, \<lparr>pp_link = None, pp_ref = 1\<rparr>, \<lparr>pp_link = None, pp_ref = 0\<rparr>,
      \<lparr>pp_link = Some 2, pp_ref = 0\<rparr>, \<lparr>pp_link = Some 3, pp_ref = 0\<rparr>, \<lparr>pp_link = Some 4, pp_ref = 0\<rparr>, \<lparr>pp_link = Some 5, pp_ref = 0\<rparr>,
      \<lparr>pp_link = Some 6, pp_ref = 0\<rparr>],
     page_free_list = Some 7, nextfree = 0xF0002000,
     kmem = (\<lambda>a. if 0xF0001000 \<le> a \<and> a < 0xF0001058 then demo_image ! unat (a - 0xF0001000) else 0), tlb = (\<lambda>_. True)\<rparr>"

lemma less_8_cases: "(i :: nat) < 8 \<longleftrightarrow> i = 0 \<or> i = 1 \<or> i = 2 \<or> i = 3 \<or> i = 4 \<or> i = 5 \<or> i = 6 \<or> i = 7"
  by arith

lemma demo_loader_frees: "frees demo_loader [7, 6, 5, 4, 3, 2]"
  by (rule freesI) (auto simp: demo_loader_def link_of_def ref_of_def less_8_cases)

lemma demo_loader_elf: "read_Elf (kmem demo_loader) 0xF0001000 = \<lparr>e_magic = ELF_MAGIC, e_entry = 0x800020, e_phoff = 52, e_phnum = 1\<rparr>"
  by (simp add: read_Elf_def ld32_def ld16_def demo_loader_def demo_image_def nth_append)

lemma demo_loader_program: "program (kmem demo_loader) 0xF0001000 =
    [\<lparr>p_type = ELF_PROG_LOAD, p_offset = 0x54, p_va = 0x800020, p_pa = 0x800020, p_filesz = 4, p_memsz = 8\<rparr>]"
proof -
  have "read_Proghdr (kmem demo_loader) 0xF0001034 =
      \<lparr>p_type = ELF_PROG_LOAD, p_offset = 0x54, p_va = 0x800020, p_pa = 0x800020, p_filesz = 4, p_memsz = 8\<rparr>"
    by (simp add: read_Proghdr_def ld32_def demo_loader_def demo_image_def nth_append)
  thus ?thesis by (simp add: program_def demo_loader_elf)
qed

lemma stored_page:
  assumes "Q q" and "q < 0x10000" and "unat a div 4096 = 0xF0000 + q" and "unat a mod 4096 + n \<le> 4096"
  shows "stored Q a n"
proof -
  have ua: "unat a = (0xF0000 + q) * 4096 + unat a mod 4096" using assms(3) by (metis div_mult_mod_eq)
  hence le: "unat a + n \<le> 2 ^ 32" using assms(2,4) by simp
  have "in_page q (a + of_nat i)" if i: "i < n" for i
  proof -
    have s: "unat a + i < 2 ^ 32" using le i by linarith
    hence "unat (of_nat i :: u32) = i" by (intro unat_of_nat_small) simp
    hence u: "unat (a + of_nat i) = unat a + i" using s by (subst unat_add_no_carry) simp_all
    have "unat a + i = (unat a mod 4096 + i) + (0xF0000 + q) * 4096" using ua by linarith
    moreover have "unat a mod 4096 + i < 4096" using assms(4) i by linarith
    ultimately have "(unat a + i) div 4096 = 0xF0000 + q" by (simp only: div_mult_self1 [of 4096, simplified] div_less add_0_right)
    thus ?thesis unfolding in_page_iff [OF assms(2)] u .
  qed
  thus ?thesis using le assms(1) unfolding stored_def by blast
qed

lemma demo_loader_ok:
  assumes "4 \<le> k"
  shows "program_ok (kmem demo_loader) (\<lambda>q. q < 0x10000 \<and> q \<notin> set [7, 6, 5, 4, 3, 2]) k 0xF0001000"
proof -
  have st: "stored (\<lambda>q. q < 0x10000 \<and> q \<noteq> 7 \<and> q \<noteq> 6 \<and> q \<noteq> 5 \<and> q \<noteq> 4 \<and> q \<noteq> 3 \<and> q \<noteq> 2) a n" if "unat a div 4096 = 0xF0001" "unat a mod 4096 + n \<le> 4096" for a n
    by (rule stored_page [of _ 1]) (use that in simp_all)
  show ?thesis
    unfolding program_ok_def Let_def demo_loader_elf demo_loader_program
    by (simp add: assms st seg_fits_def seg_pages_def npages_of_def seg_range_def stack_page_def unat_PGNUM)
qed

definition demo_loading :: ekern where
  "demo_loading = demo_ekern\<lparr>krn := demo_loader\<rparr>"

lemma demo_loading:
  "env_wf (env_init demo_loading) (0 # [1..<1024])" "krn (env_init demo_loading) = demo_loader"
proof -
  have s: "length (envs demo_loading) = NENV" "env_free_list demo_loading = None" "curenv demo_loading = None" "krn demo_loading = demo_loader"
    using demo_ekern_simps by (simp_all add: demo_loading_def del: NENV_def)
  show "env_wf (env_init demo_loading) (0 # [1..<1024])" "krn (env_init demo_loading) = demo_loader"
    using env_init_wf [OF s(1-3)] unfolding upt_1024 s(4) by blast+
qed

lemma demo_loader_low: "i < 1024 \<Longrightarrow> pde demo_loader 0 i = 0"
proof -
  assume i: "i < 1024"
  have z: "kmem demo_loader a = 0" if "in_page 0 a" for a
  proof -
    have "unat a div 4096 = 0xF0000" using in_page_iff [of 0 a] that by simp
    hence "unat a < 0xF0001000" by linarith
    thus ?thesis by (simp add: demo_loader_def word_le_nat_alt)
  qed
  have "kmem demo_loader (page_kva 0 + 4 * i + k) = 0" if "k < 4" for k
    by (rule z, rule slot_bytes_in_page [OF _ i that]) simp
  from this [of 0] this [of 1] this [of 2] this [of 3] show ?thesis by (simp add: pde_def ld32_def)
qed

lemma demo_loader_byte: "program_in (kmem demo_loader) 0xF0001000 k d \<Longrightarrow> user_byte k d 0x800022 = Some 0xEB"
proof -
  assume pi: "program_in (kmem demo_loader) 0xF0001000 k d"
  have "user_byte k d w = Some (kmem demo_loader (0xF0001054 + (w - 0x800020)))" if "0x800020 \<le> w" "w < 0x800024" for w
    using pi that unfolding program_in_def demo_loader_program
    by (auto simp: between_def seg_byte_def word_le_nat_alt word_less_nat_alt)
  from this [of "0x800022"] show ?thesis by (simp add: demo_loader_def demo_image_def nth_append)
qed

text \<open>The environment runs the code at \<open>0x800020\<close>, with zeroes behind it and a stack.\<close>

theorem env_create_spec_witness:
  "\<exists>s' fl' tf s''. env_create 0xF0001000 ENV_TYPE_USER (env_init demo_loading) = Inr s' \<and> frees (krn s') fl' \<and>
     env_run 0 s' = Inr (tf, s'') \<and> tf_eip tf = 0x800020 \<and> cr3 (hw s'') = 0x7000 \<and>
     user_byte (krn s') 7 0x800022 = Some 0xEB \<and> user_byte (krn s') 7 0x800024 = Some 0 \<and> user_byte (krn s') 7 0x801000 = None"
proof -
  have kd: "kern_pgdir (krn (env_init demo_loading)) = page_kva 0" "0 < length (pages (krn (env_init demo_loading)))" "0 \<notin> set [7, 6, 5, 4, 3, 2 :: nat]"
    "\<forall>i < PDX UTOP. \<not> present (pde (krn (env_init demo_loading)) 0 i)"
    using demo_loader_low less_955_1024 by (simp_all add: demo_loading(2)) (simp_all add: demo_loader_def page_kva_def page2pa_def)
  have ok: "program_ok (kmem (krn (env_init demo_loading))) (\<lambda>q. q < 0x10000 \<and> q \<notin> set [7, 6, 5, 4, 3, 2]) (length [6, 5, 4, 3, 2 :: nat]) 0xF0001000"
    unfolding demo_loading(2) by (rule demo_loader_ok) simp
  obtain s' fl' tf s'' where r: "env_create 0xF0001000 ENV_TYPE_USER (env_init demo_loading) = Inr s'" "frees (krn s') fl'"
    "program_in (kmem demo_loader) 0xF0001000 (krn s') 7" "env_run 0 s' = Inr (tf, s'')" "tf_eip tf = 0x800020" "cr3 (hw s'') = 0x7000"
    using env_create_spec [OF demo_loading(1) _ kd ok, of ENV_TYPE_USER] demo_loader_frees
    unfolding demo_loading(2) demo_loader_elf by (auto simp: page2pa_def)
  note pi = r(3) [unfolded program_in_def demo_loader_program]
  have "user_byte (krn s') 7 0x800024 = Some 0" using pi by (simp add: between_def seg_byte_def)
  moreover have "user_byte (krn s') 7 0x801000 = None"
  proof (rule ccontr)
    assume "user_byte (krn s') 7 0x801000 \<noteq> None"
    moreover have "(0x801000 :: u32) < UTOP" by simp
    ultimately have "unat (PGNUM 0x801000) = stack_page \<or> unat (PGNUM 0x801000) \<in> (\<Union>ph \<in> set (program (kmem demo_loader) 0xF0001000). seg_range ph)"
      using r(3) unfolding program_in_def by blast
    thus False unfolding demo_loader_program by (simp add: seg_range_def stack_page_def unat_PGNUM seg_pages_def npages_of_def)
  qed
  moreover have "user_byte (krn s') 7 0x800022 = Some 0xEB" by (rule demo_loader_byte [OF r(3)])
  ultimately show ?thesis using r by blast
qed

end
