(* ===== verification/Jos_Lifecycle.thy ===== *)
theory Jos_Lifecycle
  imports Jos_EnvCreate
begin

text \<open>
  The life of environments (\<open>kern/env.c\<close>) as a step relation: creating, allocating, running and freeing environments, and the stores of
  a program into its own memory. The invariant: live environments own disjoint sets of pages, none of them free. Hence no step on
  one environment reads differently or writes in another. The locale \<open>isolated\<close> says what single steps have to keep for this to
  hold in every run.
\<close>

section \<open>Runs\<close>

text \<open>The list holds who acted, the last one first.\<close>

inductive runs :: "('s \<Rightarrow> 'a \<Rightarrow> 's \<Rightarrow> bool) \<Rightarrow> 's \<Rightarrow> 'a list \<Rightarrow> 's \<Rightarrow> bool" for step :: "'s \<Rightarrow> 'a \<Rightarrow> 's \<Rightarrow> bool" where
  none: "runs step s [] s"
| more: "runs step s as t \<Longrightarrow> step t a u \<Longrightarrow> runs step s (a # as) u"

inductive_simps runs_Nil [simp]: "runs step s [] t"
inductive_simps runs_Cons: "runs step s (a # as) u"

lemma runs_append: "runs step s as t \<Longrightarrow> runs step t bs u \<Longrightarrow> runs step s (bs @ as) u"
  by (induction bs arbitrary: u) (auto simp: runs_Cons)

text \<open>Systems of parts that only change by their own steps: \<open>live\<close> says which parts there are, \<open>view\<close> what a part sees.\<close>

locale isolated =
  fixes step :: "'s \<Rightarrow> 'e option \<Rightarrow> 's \<Rightarrow> bool" and ok :: "'s \<Rightarrow> bool" and live :: "'s \<Rightarrow> 'e \<Rightarrow> bool" and view :: "'s \<Rightarrow> 'e \<Rightarrow> 'v"
  assumes step_ok: "step s a t \<Longrightarrow> ok s \<Longrightarrow> ok t"
    and step_live: "step s a t \<Longrightarrow> ok s \<Longrightarrow> a \<noteq> Some e \<Longrightarrow> live t e = live s e"
    and step_view: "step s a t \<Longrightarrow> ok s \<Longrightarrow> a \<noteq> Some e \<Longrightarrow> live t e \<Longrightarrow> view t e = view s e"
begin

lemma runs_ok: "runs step s as t \<Longrightarrow> ok s \<Longrightarrow> ok t"
  by (induction rule: runs.induct) (auto intro: step_ok)

lemma runs_live: "runs step s as t \<Longrightarrow> ok s \<Longrightarrow> Some e \<notin> set as \<Longrightarrow> live t e = live s e"
  by (induction rule: runs.induct) (auto simp: step_live dest: runs_ok)

lemma runs_view: "runs step s as t \<Longrightarrow> ok s \<Longrightarrow> Some e \<notin> set as \<Longrightarrow> live t e \<Longrightarrow> view t e = view s e"
proof (induction rule: runs.induct)
  case (more s as t a u)
  hence ok: "ok t" using runs_ok by blast
  have "a \<noteq> Some e" using more.prems(2) by auto
  hence "live t e" "view u e = view t e" using step_live [OF more.hyps(2) ok] step_view [OF more.hyps(2) ok] more.prems(3) by simp_all
  thus ?case using more by simp
qed simp

end

section \<open>The pages of an address space\<close>

definition owns :: "kern \<Rightarrow> nat \<Rightarrow> nat \<Rightarrow> bool" where
  "owns k d q \<longleftrightarrow> is_table k d q \<or> upage k d q"

lemma away_owns: "away k d fl q \<longleftrightarrow> q < 0x10000 \<and> q \<notin> set fl \<and> \<not> owns k d q"
  by (auto simp: away_def owns_def)

lemma unowned:
  assumes "\<not> owns k d q"
  shows "nmaps k d q = 0" and "ntabs k d q = 0" and "q \<noteq> d"
proof -
  have "pt_page e \<noteq> q" if "i < 955" "j < 1024" "entry k d i j = Some e" for i j e
  proof
    assume "pt_page e = q"
    moreover have "mapping k d (PGADDR i j 0) = Some e" using that PGADDR_user [OF that(1,2)] by (simp add: mapping_def)
    ultimately show False using assms PGADDR_user(3) [OF that(1,2)] by (auto simp: owns_def upage_def)
  qed
  thus "nmaps k d q = 0" by (auto simp: nmaps_def)
  show "ntabs k d q = 0" "q \<noteq> d" using assms by (auto simp: owns_def is_table_def ntabs_def)
qed

text \<open>The pages of \<open>d\<close> keep their contents and their reference counts.\<close>

definition same_pages :: "kern \<Rightarrow> nat \<Rightarrow> kern \<Rightarrow> bool" where
  "same_pages k d t \<longleftrightarrow> (\<forall>q. owns k d q \<longrightarrow> ref_of t q = ref_of k q \<and> (\<forall>a. in_page q a \<longrightarrow> kmem t a = kmem k a))"

lemma space_frame:
  assumes ld: "loading k d fl" and fr: "frees t fl'" and len: "length (pages t) = length (pages k)" and sp: "same_pages k d t"
  shows "w < UTOP \<Longrightarrow> mapping t d w = mapping k d w" and "w < UTOP \<Longrightarrow> user_byte t d w = user_byte k d w"
    and "owns t d q = owns k d q" and "loading t d fl'"
proof -
  note l = loadingD [OF ld]
  have l16: "length (pages k) \<le> 0x10000" using frees_bounds(2) [OF l(1)] .
  let ?X = "{q. q < 0x10000 \<and> \<not> owns k d q}"
  have o: "outside ?X k t"
    unfolding outside_def
  proof (intro allI impI)
    fix p :: nat and j :: u32 assume p: "p < 0x10000" "p \<notin> ?X" "j < 1024"
    have "owns k d p" using p by simp
    hence "kmem t (page_kva p + 4 * j + i) = kmem k (page_kva p + 4 * j + i)" if "i < 4" for i
      using sp slot_bytes_in_page [OF p(1,3) that] unfolding same_pages_def by blast
    from this [of 0] this [of 1] this [of 2] this [of 3]
    show "ld32 (kmem t) (page_kva p + 4 * j) = ld32 (kmem k) (page_kva p + 4 * j)" by (simp add: ld32_def)
  qed
  have X: "\<not> is_table k d x" if "x \<in> ?X" for x using that by (simp add: owns_def)
  note op = other_page [OF l(2) l16 X o]
  have pd: "pde t d i = pde k d i" if "i < 1024" for i using op(1) that by simp
  have en: "entry t d i j = entry k d i j" if "i < 955" "j < 1024" for i j using op(2) that by simp
  show mp: "mapping t d w = mapping k d w" if "w < UTOP" for w using en that user_va_iff [of w] by (simp add: mapping_def)
  have it: "is_table t d x = is_table k d x" for x
    unfolding is_table_def using pd less_955_1024 by (metis (no_types, lifting))
  have up: "upage t d x = upage k d x" for x unfolding upage_def using mp by (metis (no_types, lifting))
  show "owns t d q = owns k d q" for q by (simp add: owns_def it up)
  show "user_byte t d w = user_byte k d w" if w: "w < UTOP"
  proof (cases "mapping k d w")
    case (Some e)
    hence "owns k d (pt_page e)" using w by (auto simp: owns_def upage_def)
    hence "kmem t (page_kva (pt_page e) + PGOFF w) = kmem k (page_kva (pt_page e) + PGOFF w)"
      using sp PGOFF_in_page unfolding same_pages_def by blast
    thus ?thesis using Some mp [OF w] by (simp add: user_byte_def)
  qed (use mp [OF w] in \<open>simp add: user_byte_def\<close>)
  have nt: "ntabs t d q = ntabs k d q" for q by (rule ntabs_cong) (use pd less_955_1024 in blast)
  have nm: "nmaps t d q = nmaps k d q" for q unfolding nmaps_def PDX_UTOP using en by (simp cong: conj_cong)
  have "aspace t d"
  proof (rule aspaceI)
    fix q assume q: "q < length (pages t)"
    show "nmaps t d q + ntabs t d q + (if q = d then 1 else 0) \<le> unat (ref_of t q)"
    proof (cases "owns k d q")
      case True
      hence "ref_of t q = ref_of k q" using sp by (simp add: same_pages_def)
      thus ?thesis using aspaceD(6) [OF l(2), of q] q len nt nm by simp
    next
      case False
      show ?thesis using unowned [OF False] by (simp add: nt nm)
    qed
  qed (use aspaceD [OF l(2)] pd en less_955_1024 len in auto)
  thus "loading t d fl'"
    unfolding loading_def using fr ld mp it pd less_955_1024 unfolding loading_def by (metis (no_types, lifting))
qed

section \<open>Freeing writes only into the page tables\<close>

lemma free_ptes_outside:
  "frees k fl \<Longrightarrow> aspace k d \<Longrightarrow> i < 955 \<Longrightarrow> present (pde k d i) \<Longrightarrow> \<forall>j \<in> set js. j < 1024 \<Longrightarrow>
   free_ptes (page_kva d) (page_kva (pt_page (pde k d i))) i js k = Inr k' \<Longrightarrow> outside {pt_page (pde k d i)} k k'"
proof (induction js arbitrary: k fl)
  case Nil
  thus ?case by (simp add: outside_same)
next
  case (Cons j js)
  have j: "j < 1024" using Cons.prems(5) by simp
  show ?case
  proof (cases "entry k d i j")
    case None
    hence "\<not> present (ld32 (kmem k) (page_kva (pt_page (pde k d i)) + 4 * j))"
      using Cons.prems(4) by (auto simp: entry_def slot_def split: if_splits)
    thus ?thesis using Cons.IH [OF Cons.prems(1-4)] Cons.prems(5,6) by simp
  next
    case (Some e)
    hence p: "present (ld32 (kmem k) (page_kva (pt_page (pde k d i)) + 4 * j))"
      by (auto simp: entry_def slot_def split: if_splits)
    obtain k1 fl1 where k1: "page_remove (page_kva d) (PGADDR i j 0) k = Inr k1" "released k fl k1 fl1 d"
      "\<And>i. i < 1024 \<Longrightarrow> pde k1 d i = pde k d i"
      by (rule page_remove_released [OF Cons.prems(1,2,3) j Some]) blast
    note va = PGADDR_user [OF Cons.prems(3) j]
    have en: "entry k d (PDX (PGADDR i j 0)) (PTX (PGADDR i j 0)) = Some e" using Some va by simp
    have o1: "outside {pt_page (pde k d i)} k k1" using page_remove_outside [OF Cons.prems(1,2) va(3) en k1(1)] va(1) by simp
    have pd: "pde k1 d i = pde k d i" using k1(3) Cons.prems(3) less_955_1024 by blast
    have fa: "frees k1 fl1" "aspace k1 d" using k1(2) by (auto simp: released_def)
    have "free_ptes (page_kva d) (page_kva (pt_page (pde k d i))) i js k1 = Inr k'" using Cons.prems(6) p k1(1) by simp
    hence "outside {pt_page (pde k d i)} k1 k'" using Cons.IH [OF fa Cons.prems(3)] Cons.prems(4,5) unfolding pd by simp
    thus ?thesis using outside_trans [OF o1] by blast
  qed
qed

lemma free_tables_outside:
  "frees k fl \<Longrightarrow> aspace k d \<Longrightarrow> \<forall>i \<in> set is. i < 955 \<Longrightarrow> (\<And>q. is_table k d q \<Longrightarrow> q \<in> X) \<Longrightarrow>
   free_tables (page_kva d) is k = Inr k' \<Longrightarrow> outside X k k'"
proof (induction "is" arbitrary: k fl)
  case Nil
  thus ?case by (simp add: outside_same)
next
  case (Cons i0 rest)
  have i0: "i0 < 955" and rest: "\<forall>i \<in> set rest. i < 955" using Cons.prems(3) by simp_all
  show ?case
  proof (cases "present (pde k d i0)")
    case False
    thus ?thesis using Cons.IH [OF Cons.prems(1,2) rest Cons.prems(4)] Cons.prems(5) by (simp add: ld32_pde)
  next
    case True
    let ?t = "pt_page (pde k d i0)" and ?js = "map of_nat [0..<unat (PTX (NOT 0)) + 1] :: u32 list"
    have js: "\<forall>j \<in> set ?js. j < 1024" unfolding pteno_list by simp
    have t: "?t < length (pages k)" using aspaceD(2) [OF Cons.prems(2) i0 True] .
    obtain k1 fl1 where k1: "free_ptes (page_kva d) (page_kva ?t) i0 ?js k = Inr k1" "released k fl k1 fl1 d"
      "\<forall>i < 1024. pde k1 d i = pde k d i"
      "\<forall>i < 955. \<forall>j < 1024. entry k1 d i j = (if i = i0 \<and> j \<in> set ?js then None else entry k d i j)"
      using free_ptes_released [OF Cons.prems(1,2) i0 True js] by blast
    have fa: "frees k1 fl1" "aspace k1 d" using k1(2) by (auto simp: released_def)
    have pd1: "pde k1 d i0 = pde k d i0" using k1(3) less_955_1024 [OF i0] by blast
    have none: "entry k1 d i0 j = None" if "j < 1024" for j
      using k1(4) i0 that pteno_list by (metis (mono_tags, lifting) mem_Collect_eq)
    let ?k = "k1\<lparr>kmem := st32 (kmem k1) (page_kva d + 4 * i0) 0\<rparr>"
    obtain k2 fl2 where k2: "page_decref ?t ?k = Inr k2" "released k1 fl1 k2 fl2 d"
      "\<And>i. i < 1024 \<Longrightarrow> pde k2 d i = (if i = i0 then 0 else pde k1 d i)"
      by (rule drop_table_released [OF fa(1,2) i0 _ none]) (use True pd1 in auto)
    have fa2: "frees k2 fl2" "aspace k2 d" using k2(2) by (auto simp: released_def)
    have "pa2page ?k (PTE_ADDR (pde k d i0)) = Inr ?t"
      using pa2page_entry [of ?k fl1 "pde k d i0"] fa t k1(2) by (simp add: released_def)
    hence run: "free_tables (page_kva d) rest k2 = Inr k'"
      using Cons.prems(5) True KADDR_table [OF Cons.prems(1) t] k1(1) k2(1) by (simp add: ld32_pde Let_def del: upt_Suc)
    have d: "d < 0x10000" using aspaceD(1) [OF Cons.prems(2)] frees_bounds(5) [OF Cons.prems(1)] by blast
    have tX: "d \<in> X" "?t \<in> X" using Cons.prems(4) i0 True by (auto simp: is_table_def)
    have o1: "outside X k k1"
      using outside_trans [OF free_ptes_outside [OF Cons.prems(1,2) i0 True js k1(1)] outside_same [OF refl]] tX by blast
    have o2: "outside X k1 k2"
      by (rule outside_st32 [OF d less_955_1024 [OF i0], where v = 0]) (use page_decref_kmem [OF k2(1)] tX in simp_all)
    have tab: "q \<in> X" if "is_table k2 d q" for q
    proof -
      have "is_table k d q"
        using that k2(3) k1(3) less_955_1024 present_def unfolding is_table_def by (auto split: if_splits)
      thus ?thesis by (rule Cons.prems(4))
    qed
    have "outside X k2 k'" by (rule Cons.IH [OF fa2 rest tab run])
    thus ?thesis using outside_trans [OF outside_trans [OF o1 o2]] by blast
  qed
qed

lemma free_ptes_globals: "free_ptes pd pt i js k = Inr k' \<Longrightarrow> globals_of k' = globals_of k"
proof (induction js arbitrary: k)
  case (Cons j js)
  thus ?case using page_remove_globals by (fastforce simp: res_simps split: if_splits)
qed simp

lemma free_tables_globals: "free_tables pd is k = Inr k' \<Longrightarrow> globals_of k' = globals_of k"
proof (induction "is" arbitrary: k)
  case (Cons i js)
  show ?case
  proof (cases "present (ld32 (kmem k) (pd + 4 * i))")
    case True
    then obtain pt k1 pp k2 where c: "free_ptes pd pt i (map of_nat [0..<unat (PTX (NOT 0)) + 1]) k = Inr k1"
      "page_decref pp (k1\<lparr>kmem := st32 (kmem k1) (pd + 4 * i) 0\<rparr>) = Inr k2" "free_tables pd js k2 = Inr k'"
      using Cons.prems by (auto simp: res_simps Let_def simp del: upt_Suc)
    thus ?thesis using Cons.IH [OF c(3)] page_decref_globals [OF c(2)] free_ptes_globals [OF c(1)] by simp
  next
    case False
    thus ?thesis using Cons by simp
  qed
qed simp

lemma env_free_frame:
  assumes e: "env_pgdir (envs s ! e) = page_kva d" and fr: "frees (krn s) fl" and as: "aspace (krn s) d" and run: "env_free e s = Inr s'"
  shows "outside {q. is_table (krn s) d q} (krn s) (krn s')" and "globals_of (krn s') = globals_of (krn s)"
    and "curenv s' = curenv s"
proof -
  obtain s0 :: ekern and k pp where c: "free_tables (page_kva d) (map of_nat [0..<unat (PDX UTOP)]) (krn s0) = Inr k"
    "page_decref pp k = Inr (krn s')" "krn s0 = krn s \<or> krn s0 = (krn s)\<lparr>tlb := (\<lambda>_. False)\<rparr>" "curenv s' = curenv s"
  proof (cases "Some e = curenv s")
    case True
    then obtain pa where "PADDR (kern_pgdir (krn s)) = Inr pa" using run by (auto simp: env_free_def res_simps)
    thus thesis using run True e that [of "lcr3 pa s"]
      by (auto simp: env_free_def res_simps Let_def simp del: PDX_UTOP upt_rec_numeral)
  next
    case False
    thus thesis using run e that [of s] by (auto simp: env_free_def res_simps Let_def simp del: PDX_UTOP upt_rec_numeral)
  qed
  have k: "kmem (krn s0) = kmem (krn s)" "globals_of (krn s0) = globals_of (krn s)" "frees (krn s0) fl" "pages (krn s0) = pages (krn s)"
    using c(3) fr by auto
  note kc = kmem_cong [OF k(1)]
  have as0: "aspace (krn s0) d" using as unfolding aspace_def kc ref_of_def k(4) .
  have it: "is_table (krn s0) d q = is_table (krn s) d q" for q by (simp add: is_table_def kc(1))
  have "outside {q. is_table (krn s) d q} (krn s0) k"
    by (rule free_tables_outside [OF k(3) as0 _ _ c(1)]) (use pdeno_list it in auto)
  thus "outside {q. is_table (krn s) d q} (krn s) (krn s')"
    using page_decref_kmem [OF c(2)] k(1) by (simp add: outside_def)
  show "globals_of (krn s') = globals_of (krn s)"
    using free_tables_globals [OF c(1)] page_decref_globals [OF c(2)] k(2) by simp
  show "curenv s' = curenv s" by (rule c(4))
qed

section \<open>The invariant\<close>

definition live :: "ekern \<Rightarrow> nat \<Rightarrow> bool" where
  "live s e \<longleftrightarrow> e < NENV \<and> env_status (envs s ! e) \<noteq> ENV_FREE"

text \<open>The page of the directory of an environment.\<close>

definition dir_of :: "ekern \<Rightarrow> nat \<Rightarrow> nat" where
  "dir_of s e = unat (drop_bit 12 (env_pgdir (envs s ! e) - KERNBASE))"

lemma dir_of: "env_pgdir (envs s ! e) = page_kva d \<Longrightarrow> d < 0x10000 \<Longrightarrow> dir_of s e = d"
  by (simp add: dir_of_def page_kva_def unat_page2pa drop_bit_eq_div unat_div)

lemma dir_of_cong: "env_pgdir (envs t ! e) = env_pgdir (envs s ! e) \<Longrightarrow> dir_of t e = dir_of s e"
  by (simp add: dir_of_def)

definition space_ok :: "ekern \<Rightarrow> nat list \<Rightarrow> nat \<Rightarrow> nat \<Rightarrow> bool" where
  "space_ok s fl kd e \<longleftrightarrow> env_pgdir (envs s ! e) = page_kva (dir_of s e) \<and> loading (krn s) (dir_of s e) fl \<and>
     \<not> owns (krn s) (dir_of s e) kd"

definition sys :: "ekern \<Rightarrow> nat list \<Rightarrow> nat list \<Rightarrow> nat \<Rightarrow> bool" where
  "sys s efl fl kd \<longleftrightarrow> env_wf s efl \<and> frees (krn s) fl \<and>
     kern_pgdir (krn s) = page_kva kd \<and> kd < length (pages (krn s)) \<and> kd \<notin> set fl \<and> (\<forall>i < 955. \<not> present (pde (krn s) kd i)) \<and>
     (\<forall>e. live s e \<longrightarrow> space_ok s fl kd e) \<and>
     (\<forall>e e' q. live s e \<longrightarrow> live s e' \<longrightarrow> owns (krn s) (dir_of s e) q \<longrightarrow> owns (krn s) (dir_of s e') q \<longrightarrow> e = e')"

definition sys_ok :: "ekern \<Rightarrow> bool" where
  "sys_ok s \<longleftrightarrow> (\<exists>efl fl kd. sys s efl fl kd)"

lemma sysD:
  assumes "sys s efl fl kd"
  shows "env_wf s efl" and "frees (krn s) fl" and "kern_pgdir (krn s) = page_kva kd" and "kd < length (pages (krn s))"
    and "kd \<notin> set fl" and "\<forall>i < 955. \<not> present (pde (krn s) kd i)" and "live s e \<Longrightarrow> space_ok s fl kd e"
    and "live s e \<Longrightarrow> live s e' \<Longrightarrow> owns (krn s) (dir_of s e) q \<Longrightarrow> owns (krn s) (dir_of s e') q \<Longrightarrow> e = e'"
  using assms unfolding sys_def by blast+

lemma live_iff: "env_wf s efl \<Longrightarrow> live s e \<longleftrightarrow> e < 1024 \<and> e \<notin> set efl"
  using env_wfD(5) [of s efl e] by (auto simp: live_def)

lemma owns_bounds:
  assumes "loading k d fl" and "owns k d q"
  shows "q < 0x10000" and "q \<notin> set fl"
  using assms is_table_bounds [OF assms(1)] mapped_page [OF assms(1)] by (auto simp: owns_def upage_def)

text \<open>What a step of environment \<open>a\<close> has to show: the others and the template keep their pages, and the new space of \<open>a\<close>, if
  it is live, takes pages that were free or its own.\<close>

lemma sys_step:
  assumes sy: "sys s efl fl kd" and wf: "env_wf t efl'" and fr: "frees (krn t) fl'" and gl: "globals_of (krn t) = globals_of (krn s)"
    and others: "\<And>e. live t e \<Longrightarrow> Some e \<noteq> a \<Longrightarrow> live s e \<and> env_pgdir (envs t ! e) = env_pgdir (envs s ! e) \<and> same_pages (krn s) (dir_of s e) (krn t)"
    and tmpl: "kd \<notin> set fl'" "\<And>b. in_page kd b \<Longrightarrow> kmem (krn t) b = kmem (krn s) b"
    and mine: "\<And>e. live t e \<Longrightarrow> a = Some e \<Longrightarrow> env_pgdir (envs t ! e) = page_kva (dir_of t e) \<and> loading (krn t) (dir_of t e) fl'"
    and new: "\<And>e q. live t e \<Longrightarrow> a = Some e \<Longrightarrow> owns (krn t) (dir_of t e) q \<Longrightarrow> q \<in> set fl \<or> live s e \<and> owns (krn s) (dir_of s e) q"
  shows "sys t efl' fl' kd" and "live t e \<Longrightarrow> Some e \<noteq> a \<Longrightarrow> w < UTOP \<Longrightarrow> user_byte (krn t) (dir_of t e) w = user_byte (krn s) (dir_of s e) w"
proof -
  note sd = sysD [OF sy]
  have len: "length (pages (krn t)) = length (pages (krn s))" "kern_pgdir (krn t) = kern_pgdir (krn s)" using gl by (simp_all add: globals_of_def)
  have kd16: "kd < 0x10000" using frees_bounds(5) [OF sd(2) sd(4)] .
  have oth: "dir_of t e = dir_of s e \<and> live s e \<and> space_ok s fl kd e \<and> (\<forall>q. owns (krn t) (dir_of t e) q = owns (krn s) (dir_of s e) q) \<and>
      loading (krn t) (dir_of t e) fl' \<and> (\<forall>w < UTOP. user_byte (krn t) (dir_of t e) w = user_byte (krn s) (dir_of s e) w)"
    if "live t e" "Some e \<noteq> a" for e
  proof -
    note o = others [OF that]
    have d: "dir_of t e = dir_of s e" using o dir_of_cong by blast
    have so: "space_ok s fl kd e" using o sd(7) by blast
    hence ld: "loading (krn s) (dir_of s e) fl" by (simp add: space_ok_def)
    have sp: "same_pages (krn s) (dir_of s e) (krn t)" using o by blast
    show ?thesis using d o so space_frame(2,3,4) [OF ld fr len(1) sp] by simp
  qed
  have kd0: "q \<noteq> kd \<and> (\<forall>e'. live s e' \<longrightarrow> e' \<noteq> e \<longrightarrow> \<not> owns (krn s) (dir_of s e') q)"
    if "live t e" "a = Some e" "owns (krn t) (dir_of t e) q" for e q
    using new [OF that]
  proof
    assume "q \<in> set fl"
    thus ?thesis using sd(5,7) owns_bounds(2) unfolding space_ok_def by blast
  next
    assume "live s e \<and> owns (krn s) (dir_of s e) q"
    thus ?thesis using sd(7,8) unfolding space_ok_def by blast
  qed
  show "sys t efl' fl' kd"
    unfolding sys_def
  proof (intro conjI allI impI)
    show "env_wf t efl'" "frees (krn t) fl'" "kern_pgdir (krn t) = page_kva kd" "kd < length (pages (krn t))" "kd \<notin> set fl'"
      using wf fr tmpl(1) sd(3,4) len by simp_all
    show "\<not> present (pde (krn t) kd i)" if "i < 955" for i
    proof -
      have "kmem (krn t) (page_kva kd + 4 * i + j) = kmem (krn s) (page_kva kd + 4 * i + j)" if "j < 4" for j
        by (rule tmpl(2), rule slot_bytes_in_page [OF kd16 less_955_1024 [OF \<open>i < 955\<close>] that])
      from this [of 0] this [of 1] this [of 2] this [of 3]
      have "pde (krn t) kd i = pde (krn s) kd i" by (simp add: pde_def ld32_def)
      thus ?thesis using sd(6) that by simp
    qed
    show "space_ok t fl' kd e" if e: "live t e" for e
    proof (cases "a = Some e")
      case True
      thus ?thesis using mine [OF e True] kd0 [OF e True] unfolding space_ok_def by blast
    next
      case False
      thus ?thesis using oth [OF e] others [OF e] unfolding space_ok_def by auto
    qed
    show "e = e'" if "live t e" "live t e'" "owns (krn t) (dir_of t e) q" "owns (krn t) (dir_of t e') q" for e e' q
    proof (cases "a = Some e \<or> a = Some e'")
      case True
      thus ?thesis using that kd0 oth by (metis option.inject)
    next
      case False
      thus ?thesis using that oth sd(8) by metis
    qed
  qed
  show "user_byte (krn t) (dir_of t e) w = user_byte (krn s) (dir_of s e) w" if "live t e" "Some e \<noteq> a" "w < UTOP"
    using oth [OF that(1,2)] that(3) by blast
qed

section \<open>The steps\<close>

lemma env_run_envs:
  "env_run e s = Inr (tf, t) \<Longrightarrow> env_pgdir (envs t ! j) = env_pgdir (envs s ! j)"
proof -
  have u: "env_pgdir (envs (upd_env c f r) ! j) = env_pgdir (envs r ! j)"
    if "\<And>v. env_pgdir (f v) = env_pgdir v" for c f and r :: ekern
    by (cases "c < length (envs r)") (simp_all add: that upd_env_def nth_list_update list_update_beyond)
  show "env_run e s = Inr (tf, t) \<Longrightarrow> ?thesis"
    by (auto simp: env_run_def Let_def res_simps u split: if_splits option.splits)
qed

lemma vaddr_unmapped:
  assumes "va < UTOP" and "mapping k d va = None"
  shows "vaddr (page2pa d) wr k va = Inl (Page_fault va)"
proof -
  have lo: "\<not> va \<ge> KERNBASE" using assms(1) by (simp add: word_le_nat_alt word_less_nat_alt)
  have d: "page2pa d + KERNBASE = page_kva d" by (simp add: page_kva_def)
  have sl: "PTE_ADDR (pde k d (PDX va)) + KERNBASE + 4 * PTX va = slot k d (PDX va) (PTX va)" by (simp only: PTE_ADDR_kva slot_def)
  show ?thesis
    using assms(2) lo unfolding vaddr_def Let_def d ld32_pde sl by (auto simp: mapping_def entry_def Let_def split: if_splits)
qed

text \<open>The steps, each with the environment it acts on: creating one from a program, allocating one without memory of its own, a
  failing allocation, running one, freeing one, and a store of a byte at a user address by the program.\<close>

inductive env_step :: "ekern \<Rightarrow> nat option \<Rightarrow> ekern \<Rightarrow> bool" where
  create: "env_create binary type s = Inr t \<Longrightarrow> env_free_list s = Some e \<Longrightarrow> frees (krn s) (x # fl) \<Longrightarrow>
     program_ok (kmem (krn s)) (\<lambda>q. q < 0x10000 \<and> q \<notin> set (x # fl)) (length fl) binary \<Longrightarrow> env_step s (Some e) t"
| alloc: "env_alloc parent s = Inr (0, Some e, t) \<Longrightarrow> env_step s (Some e) t"
| fail: "env_alloc parent s = Inr (r, None, t) \<Longrightarrow> env_step s None t"
| run: "live s e \<Longrightarrow> env_run e s = Inr (tf, t) \<Longrightarrow> env_step s None t"
| free: "live s e \<Longrightarrow> env_free e s = Inr t \<Longrightarrow> env_step s (Some e) t"
| store: "live s e \<Longrightarrow> va < UTOP \<Longrightarrow> vaddr (page2pa (dir_of s e)) True (krn s) va = Inr b \<Longrightarrow>
     env_step s (Some e) (s\<lparr>krn := (krn s)\<lparr>kmem := (kmem (krn s))(b := v)\<rparr>\<rparr>)"

text \<open>What every step keeps.\<close>

definition keeps :: "ekern \<Rightarrow> nat option \<Rightarrow> ekern \<Rightarrow> bool" where
  "keeps s a t \<longleftrightarrow> sys_ok t \<and> (\<forall>e. Some e \<noteq> a \<longrightarrow> live t e = live s e) \<and>
     (\<forall>e w. live t e \<longrightarrow> Some e \<noteq> a \<longrightarrow> w < UTOP \<longrightarrow> user_byte (krn t) (dir_of t e) w = user_byte (krn s) (dir_of s e) w)"

lemma live_cong: "env_status (envs t ! e) = env_status (envs s ! e) \<Longrightarrow> live t e = live s e"
  by (simp add: live_def)

lemma same_pages_untouched:
  assumes "loading (krn s) d fl" and "untouched fl (krn s) fl' k"
  shows "same_pages (krn s) d k"
  using assms(2) owns_bounds [OF assms(1)] unfolding same_pages_def untouched_def by blast

lemma keeps_fresh:
  assumes sy: "sys s (e # efl) (x # fl) kd" and wf: "env_wf t efl" and ld: "loading (krn t) x fl'" and pd: "env_pgdir (envs t ! e) = page_kva x"
    and st: "env_status (envs t ! e) = ENV_RUNNABLE"
    and oth: "\<And>j. j < 1024 \<Longrightarrow> j \<noteq> e \<Longrightarrow> envs t ! j = envs s ! j" and gl: "globals_of (krn t) = globals_of (krn s)"
    and un: "untouched (x # fl) (krn s) fl' (krn t)" and aw: "\<And>q. q < 0x10000 \<Longrightarrow> q \<notin> set (x # fl) \<Longrightarrow> away (krn t) x fl' q"
  shows "keeps s (Some e) t"
proof -
  note sd = sysD [OF sy]
  have x: "x < 0x10000" using frees_bounds(4) [OF sd(2), of x] by simp
  have dx: "dir_of t e = x" by (rule dir_of [OF pd x])
  have kd16: "kd < 0x10000" using frees_bounds(5) [OF sd(2,4)] .
  have lv: "live t j = live s j" if "j \<noteq> e" for j using oth that by (auto simp: live_def)
  have o: "live s j \<and> env_pgdir (envs t ! j) = env_pgdir (envs s ! j) \<and> same_pages (krn s) (dir_of s j) (krn t)"
    if "live t j" "Some j \<noteq> Some e" for j
  proof -
    have j: "live s j" "j < 1024" "j \<noteq> e" using that lv by (auto simp: live_def)
    have "loading (krn s) (dir_of s j) (x # fl)" using sd(7) [OF j(1)] by (simp add: space_ok_def)
    from same_pages_untouched [OF this un] show ?thesis using j oth [OF j(2,3)] by simp
  qed
  have kdf: "kd \<notin> set fl'" "in_page kd b \<Longrightarrow> kmem (krn t) b = kmem (krn s) b" for b
    using un kd16 sd(5) unfolding untouched_def by blast+
  have mine: "env_pgdir (envs t ! j) = page_kva (dir_of t j) \<and> loading (krn t) (dir_of t j) fl'" if "live t j" "Some e = Some j" for j
    using that pd dx ld by simp
  have new: "q \<in> set (x # fl) \<or> live s j \<and> owns (krn s) (dir_of s j) q"
    if "live t j" "Some e = Some j" "owns (krn t) (dir_of t j) q" for j q
  proof (rule ccontr)
    assume n: "\<not> ?thesis"
    have ow: "owns (krn t) x q" using that dx by simp
    have "q < 0x10000" by (rule owns_bounds(1) [OF ld ow])
    hence "away (krn t) x fl' q" using aw n by blast
    thus False using ow by (simp add: away_owns)
  qed
  have fr: "frees (krn t) fl'" using loadingD(1) [OF ld] .
  note ss = sys_step [where a = "Some e" and t = t, OF sy wf fr gl o kdf mine new]
  show ?thesis unfolding keeps_def sys_ok_def using ss lv by blast
qed

lemma keeps_refl: "sys_ok s \<Longrightarrow> keeps s a s"
  by (simp add: keeps_def)

lemma env_wf_first: "env_wf s efl \<Longrightarrow> env_free_list s = Some e \<Longrightarrow> \<exists>rest. efl = e # rest"
  using env_wfD(4) [of s efl] by (cases efl) auto

lemma alloc_keeps:
  assumes sy: "sys s efl fl kd" and al: "env_alloc parent s = Inr (r, eo, t)"
  shows "keeps s eo t"
proof (cases "efl = [] \<or> fl = []")
  case True
  note sd = sysD [OF sy]
  have "eo = None \<and> t = s"
  proof (cases efl)
    case Nil
    thus ?thesis using env_alloc_no_env sd(1) al by simp
  next
    case (Cons e rest)
    thus ?thesis using env_alloc_no_mem sd(1,2) True al by simp
  qed
  thus ?thesis using keeps_refl sy unfolding sys_ok_def by blast
next
  case False
  then obtain e er x fr where l: "efl = e # er" "fl = x # fr" by (meson neq_Nil_conv)
  note sd = sysD [OF sy [unfolded l]]
  have kx: "kd \<noteq> x" and low: "\<And>i. i < 955 \<Longrightarrow> \<not> present (pde (krn s) kd i)" using sd(5,6) by simp_all
  obtain t' where t': "env_alloc parent s = Inr (0, Some e, t')" "krn t' = with_dir (krn s) x kd" "env_wf t' er"
    "\<And>j. j < 1024 \<Longrightarrow> j \<noteq> e \<Longrightarrow> envs t' ! j = envs s ! j"
    "envs t' ! e = (envs s ! e)\<lparr>env_pgdir := page_kva x, env_id := next_generation (env_id (envs s ! e)) OR of_nat e,
       env_parent_id := parent, env_type := ENV_TYPE_USER, env_status := ENV_RUNNABLE, env_runs := 0, env_tf := user_tf\<rparr>"
    by (rule env_alloc_ok [OF sd(1-4) kx, of parent], rule that)
  have t: "t = t'" "eo = Some e" using t'(1) al by simp_all
  note wl = with_dir_loading [OF sd(2,4) kx low] and wd = with_dir [OF sd(2,4) kx low]
  have un: "untouched (x # fr) (krn s) fr (with_dir (krn s) x kd)"
    unfolding untouched_def using with_dir_byte [OF sd(2,4) kx low] wd(4) by simp
  have aw: "away (with_dir (krn s) x kd) x fr q" if "q < 0x10000" "q \<noteq> x \<and> q \<notin> set fr" for q
    using that wl(3) [of q] by simp
  have gl: "globals_of (with_dir (krn s) x kd) = globals_of (krn s)"
    by (simp add: with_dir_def Let_def page_alloc_globals [OF page_alloc_Cons(1) [OF sd(2)]])
  show ?thesis
    unfolding t(2) by (rule keeps_fresh [OF sy [unfolded l]]) (use t' t(1) wl(1) un gl aw in simp_all)
qed

lemma create_keeps:
  assumes sy: "sys s efl (x # fl) kd" and fl: "env_free_list s = Some e"
    and ok: "program_ok (kmem (krn s)) (\<lambda>q. q < 0x10000 \<and> q \<notin> set (x # fl)) (length fl) binary"
    and run: "env_create binary type s = Inr t"
  shows "keeps s (Some e) t"
proof -
  obtain er where l: "efl = e # er" using env_wf_first [OF sysD(1) [OF sy] fl] by blast
  note sd = sysD [OF sy [unfolded l]]
  show ?thesis
  proof (rule env_create_ok [OF sd(1-6) ok, of type])
    fix t' fl' assume c: "env_create binary type s = Inr t'" "env_wf t' er" "loading (krn t') x fl'"
      "untouched (x # fl) (krn s) fl' (krn t')"
      "envs t' ! e = (envs s ! e)\<lparr>env_pgdir := page_kva x, env_id := next_generation (env_id (envs s ! e)) OR of_nat e,
       env_parent_id := 0, env_type := type, env_status := ENV_RUNNABLE, env_runs := 0,
       env_tf := user_tf\<lparr>tf_eip := e_entry (read_Elf (kmem (krn s)) binary)\<rparr>\<rparr>"
      "\<And>j. j < 1024 \<Longrightarrow> j \<noteq> e \<Longrightarrow> envs t' ! j = envs s ! j" "globals_of (krn t') = globals_of (krn s)"
      "\<And>q. q < 0x10000 \<Longrightarrow> q \<notin> set (x # fl) \<Longrightarrow> away (krn t') x fl' q"
    have "keeps s (Some e) t'" by (rule keeps_fresh [OF sy [unfolded l] c(2,3) _ _ c(6,7,4,8)]) (use c(5) in simp_all)
    thus ?thesis using c(1) run by simp
  qed
qed

lemma run_keeps:
  assumes sy: "sys s efl fl kd" and lv: "live s e" and run: "env_run e s = Inr (tf, t)"
  shows "keeps s None t"
proof -
  note sd = sysD [OF sy]
  have e: "e < 1024" "e \<notin> set efl" using lv live_iff [OF sd(1)] by simp_all
  have so: "env_pgdir (envs s ! e) = page_kva (dir_of s e)" "loading (krn s) (dir_of s e) fl" using sd(7) [OF lv] by (simp_all add: space_ok_def)
  have "owns (krn s) (dir_of s e) (dir_of s e)" by (simp add: owns_def is_table_def)
  hence pa: "PADDR (env_pgdir (envs s ! e)) = Inr (page2pa (dir_of s e))" unfolding so(1) using owns_bounds(1) [OF so(2)] PADDR_page_kva by blast
  have wf: "env_wf t efl" by (rule env_run_wf [OF sd(1) e pa]) (use run in simp)
  have k: "krn t = (krn s)\<lparr>tlb := (\<lambda>_. False)\<rparr>" by (rule env_run_krn [OF run])
  have lvt: "live t j = live s j" for j using live_iff [OF wf] live_iff [OF sd(1)] by simp
  have fr: "frees (krn t) fl" and gl: "globals_of (krn t) = globals_of (krn s)" using sd(2) by (simp_all add: k)
  have o: "live s j \<and> env_pgdir (envs t ! j) = env_pgdir (envs s ! j) \<and> same_pages (krn s) (dir_of s j) (krn t)" if "live t j" for j
    using that lvt env_run_envs [OF run] by (simp add: same_pages_def k ref_of_def)
  note ss = sys_step [where a = None and t = t, OF sy wf fr gl o sd(5)]
  have "sys t efl fl kd" by (rule ss(1)) (simp_all add: k)
  moreover have "user_byte (krn t) (dir_of t j) w = user_byte (krn s) (dir_of s j) w" if "live t j" "w < UTOP" for j w
    by (rule ss(2)) (use that in \<open>simp_all add: k\<close>)
  ultimately show ?thesis using lvt unfolding keeps_def sys_ok_def by blast
qed

lemma free_keeps:
  assumes sy: "sys s efl fl kd" and lv: "live s e" and run: "env_free e s = Inr t"
  shows "keeps s (Some e) t"
proof -
  note sd = sysD [OF sy]
  let ?d = "dir_of s e"
  have e: "e < 1024" "e \<notin> set efl" using lv live_iff [OF sd(1)] by simp_all
  have so: "env_pgdir (envs s ! e) = page_kva ?d" "loading (krn s) ?d fl" "\<not> owns (krn s) ?d kd"
    using sd(7) [OF lv] by (simp_all add: space_ok_def)
  note as = loadingD(2) [OF so(2)]
  have kd16: "kd < 0x10000" using frees_bounds(5) [OF sd(2,4)] .
  note ff = env_free_frame [OF so(1) sd(2) as run]
  obtain t' fl' where t': "env_free e s = Inr t'" "env_wf t' (e # efl)" "frees (krn t') fl'"
    "\<And>q. unat (ref_of (krn t') q) + (nmaps (krn s) ?d q + ntabs (krn s) ?d q + (if q = ?d then 1 else 0)) = unat (ref_of (krn s) q)"
    "\<And>q. q \<in> set fl' \<longleftrightarrow> q \<in> set fl \<or> ref_of (krn s) q \<noteq> 0 \<and> ref_of (krn t') q = 0"
    "\<And>j. j < 1024 \<Longrightarrow> j \<noteq> e \<Longrightarrow> envs t' ! j = envs s ! j"
    by (rule env_free_ok [OF sd(1) e so(1) sd(2) as sd(3) kd16], rule that)
  have tt: "t' = t" using t'(1) run by simp
  note t' = t'(2-6) [unfolded tt]
  have ref: "ref_of (krn t) q = ref_of (krn s) q" if "\<not> owns (krn s) ?d q" for q
    using t'(3) [of q] unowned [OF that] by (simp add: word_unat_eq_iff)
  have byte: "kmem (krn t) b = kmem (krn s) b" if "\<not> owns (krn s) ?d q" "q < 0x10000" "in_page q b" for q b
    by (rule outside_byte [OF ff(1) that(2) _ that(3)]) (use that(1) in \<open>simp add: owns_def\<close>)
  have lvt: "live t j = live s j" if "j \<noteq> e" for j using live_iff [OF t'(1)] live_iff [OF sd(1)] that by simp
  have nl: "\<not> live t e" using live_iff [OF t'(1)] by simp
  have o: "live s j \<and> env_pgdir (envs t ! j) = env_pgdir (envs s ! j) \<and> same_pages (krn s) (dir_of s j) (krn t)"
    if "live t j" "Some j \<noteq> Some e" for j
  proof -
    have j: "live s j" "j \<noteq> e" "j < 1024" using that lvt by (auto simp: live_def)
    have ld: "loading (krn s) (dir_of s j) fl" using sd(7) [OF j(1)] by (simp add: space_ok_def)
    have "\<not> owns (krn s) ?d q" if "owns (krn s) (dir_of s j) q" for q using sd(8) [OF j(1) lv that] j(2) by blast
    thus ?thesis using j t'(5) ref byte owns_bounds(1) [OF ld] unfolding same_pages_def by metis
  qed
  have kf: "kd \<notin> set fl'" using t'(4) [of kd] ref [OF so(3)] sd(5) by simp
  have kb: "in_page kd b \<Longrightarrow> kmem (krn t) b = kmem (krn s) b" for b by (rule byte [OF so(3) kd16])
  note ss = sys_step [where a = "Some e" and t = t, OF sy t'(1,2) ff(2) o kf kb]
  have "sys t (e # efl) fl' kd" by (rule ss(1)) (use nl in auto)
  moreover have "user_byte (krn t) (dir_of t j) w = user_byte (krn s) (dir_of s j) w" if "live t j" "Some j \<noteq> Some e" "w < UTOP" for j w
    by (rule ss(2)) (use nl that in auto)
  ultimately show ?thesis using lvt unfolding keeps_def sys_ok_def by blast
qed

lemma store_keeps:
  assumes sy: "sys s efl fl kd" and lv: "live s e" and va: "va < UTOP" and b: "vaddr (page2pa (dir_of s e)) True (krn s) va = Inr b"
  shows "keeps s (Some e) (s\<lparr>krn := (krn s)\<lparr>kmem := (kmem (krn s))(b := v)\<rparr>\<rparr>)" (is "keeps s _ ?t")
proof -
  note sd = sysD [OF sy]
  let ?d = "dir_of s e"
  have so: "env_pgdir (envs s ! e) = page_kva ?d" "loading (krn s) ?d fl" "\<not> owns (krn s) ?d kd"
    using sd(7) [OF lv] by (simp_all add: space_ok_def)
  obtain pte where m: "mapping (krn s) ?d va = Some pte" using vaddr_unmapped [OF va] b by (cases "mapping (krn s) ?d va") auto
  have bb: "b = page_kva (pt_page pte) + PGOFF va" using vaddr_user [OF so(2) va m] b by simp
  note k = store_user(1) [OF so(2) va m, of v, folded bb]
  have kd16: "kd < 0x10000" using frees_bounds(5) [OF sd(2,4)] .
  have aw: "away (krn ?t) ?d fl q \<and> ref_of (krn ?t) q = ref_of (krn s) q \<and> (\<forall>a. in_page q a \<longrightarrow> kmem (krn ?t) a = kmem (krn s) a)"
    if "q < 0x10000" "q \<notin> set fl" "\<not> owns (krn s) ?d q" for q
    using k that unfolding kept_def away_owns by simp
  have wf: "env_wf ?t efl" using sd(1) env_wf_cong [of ?t s] by simp
  have fr: "frees (krn ?t) fl" and gl: "globals_of (krn ?t) = globals_of (krn s)" using sd(2) by simp_all
  have lt: "live ?t j = live s j" and dt: "dir_of ?t j = dir_of s j" for j by (simp_all add: live_def dir_of_def)
  have o: "live s j \<and> env_pgdir (envs ?t ! j) = env_pgdir (envs s ! j) \<and> same_pages (krn s) (dir_of s j) (krn ?t)"
    if "live ?t j" "Some j \<noteq> Some e" for j
  proof -
    have j: "live s j" "j \<noteq> e" using that lt by auto
    have ld: "loading (krn s) (dir_of s j) fl" using sd(7) [OF j(1)] by (simp add: space_ok_def)
    have "\<not> owns (krn s) ?d q" if "owns (krn s) (dir_of s j) q" for q using sd(8) [OF j(1) lv that] j(2) by blast
    hence "same_pages (krn s) (dir_of s j) (krn ?t)" using aw owns_bounds [OF ld] unfolding same_pages_def by blast
    thus ?thesis using j by simp
  qed
  have kb: "in_page kd c \<Longrightarrow> kmem (krn ?t) c = kmem (krn s) c" for c using aw [OF kd16 sd(5) so(3)] by blast
  have ld': "loading (krn ?t) ?d fl" using k by (simp add: kept_def)
  have mine: "env_pgdir (envs ?t ! j) = page_kva (dir_of ?t j) \<and> loading (krn ?t) (dir_of ?t j) fl" if "live ?t j" "Some e = Some j" for j
    using that so(1) ld' dt by simp
  have new: "q \<in> set fl \<or> live s j \<and> owns (krn s) (dir_of s j) q" if "live ?t j" "Some e = Some j" "owns (krn ?t) (dir_of ?t j) q" for j q
  proof (rule ccontr)
    assume n: "\<not> ?thesis"
    have j: "j = e" "owns (krn ?t) ?d q" using that dt by simp_all
    have "away (krn ?t) ?d fl q" using aw [OF owns_bounds(1) [OF ld' j(2)]] n j(1) lv by blast
    thus False using j(2) by (simp add: away_owns)
  qed
  note ss = sys_step [where a = "Some e" and t = ?t, OF sy wf fr gl o sd(5) kb mine new]
  show ?thesis unfolding keeps_def sys_ok_def using ss lt by blast
qed

lemma env_step_keeps: "env_step s a t \<Longrightarrow> sys_ok s \<Longrightarrow> keeps s a t"
proof (induction rule: env_step.induct)
  case (create binary type s t e x fl)
  then obtain efl fl' kd where sy: "sys s efl fl' kd" unfolding sys_ok_def by blast
  have "fl' = x # fl" using frees_unique [OF sysD(2) [OF sy] create(3)] .
  thus ?case using create_keeps [OF _ create(2,4,1)] sy by blast
next
  case (alloc parent s e t)
  thus ?case using alloc_keeps unfolding sys_ok_def by blast
next
  case (fail parent s r t)
  thus ?case using alloc_keeps unfolding sys_ok_def by blast
next
  case (run s e tf t)
  thus ?case using run_keeps unfolding sys_ok_def by blast
next
  case (free s e t)
  thus ?case using free_keeps unfolding sys_ok_def by blast
next
  case (store s e va b v)
  thus ?case using store_keeps unfolding sys_ok_def by blast
qed

section \<open>Any number of steps\<close>

abbreviation env_steps :: "ekern \<Rightarrow> nat option list \<Rightarrow> ekern \<Rightarrow> bool" where
  "env_steps \<equiv> runs env_step"

definition memory_of :: "ekern \<Rightarrow> nat \<Rightarrow> u32 \<Rightarrow> u8 option" where
  "memory_of s e w = (if w < UTOP then user_byte (krn s) (dir_of s e) w else None)"

lemma memory_of_eq: "memory_of t e = memory_of s e' \<longleftrightarrow> (\<forall>w < UTOP. user_byte (krn t) (dir_of t e) w = user_byte (krn s) (dir_of s e') w)"
  by (auto simp: memory_of_def fun_eq_iff)

interpretation environments: isolated env_step sys_ok live memory_of
  by unfold_locales (use env_step_keeps in \<open>auto simp: keeps_def memory_of_eq\<close>)

lemma env_init_sys_ok:
  assumes "length (envs s) = NENV" and "env_free_list s = None" and "curenv s = None" and "frees (krn s) fl"
    and "kern_pgdir (krn s) = page_kva kd" and "kd < length (pages (krn s))" and "kd \<notin> set fl"
    and "\<forall>i < PDX UTOP. \<not> present (pde (krn s) kd i)"
  shows "sys_ok (env_init s)"
proof -
  note w = env_init_wf [OF assms(1-3)]
  have "\<not> live (env_init s) e" for e using live_iff [OF w(1)] unfolding NENV_1024 by auto
  thus ?thesis using w assms(4-8) unfolding sys_ok_def sys_def by (auto simp del: NENV_def)
qed

lemma sys_ok_cong:
  "krn t = krn s \<Longrightarrow> envs t = envs s \<Longrightarrow> curenv t = curenv s \<Longrightarrow> env_free_list t = env_free_list s \<Longrightarrow> sys_ok t = sys_ok s"
  by (simp add: sys_ok_def sys_def space_ok_def live_def dir_of_def env_wf_def)

lemma sys_ok_pages:
  assumes "sys_ok s" and "live s e" and "owns (krn s) (dir_of s e) q"
  shows "live s e' \<Longrightarrow> owns (krn s) (dir_of s e') q \<Longrightarrow> e' = e" and "frees (krn s) fl \<Longrightarrow> q \<notin> set fl"
proof -
  obtain efl fl' kd where sy: "sys s efl fl' kd" using assms(1) unfolding sys_ok_def by blast
  show "e' = e" if "live s e'" "owns (krn s) (dir_of s e') q" using sysD(8) [OF sy assms(2) that(1) assms(3) that(2)] by simp
  have "loading (krn s) (dir_of s e) fl'" using sysD(7) [OF sy assms(2)] by (simp add: space_ok_def)
  thus "q \<notin> set fl" if "frees (krn s) fl" using owns_bounds(2) assms(3) frees_unique [OF that sysD(2) [OF sy]] by blast
qed



end
