(* ===== verification/Jos_BootMap.thy ===== *)
theory Jos_BootMap
  imports Jos_CheckInstalled
begin

text \<open>
  The part of \<open>mem_init\<close> that maps the kernel: \<open>boot_map_region\<close> region by region, and \<open>check_kern_pgdir\<close>, the test that
  reads the mapping back. The invariant \<open>kspace\<close> extends the address space to the directory entries above \<open>UTOP\<close>.
\<close>

section \<open>The kernel part of the directory\<close>

text \<open>
  All tables of the directory, except that slot \<open>PDX UVPT\<close> names the directory itself: they exist, are referenced and are not
  shared.
\<close>

definition kspace :: "kern \<Rightarrow> nat \<Rightarrow> bool" where
  "kspace s d \<longleftrightarrow> pde s d (PDX UVPT) = page2pa d OR PTE_U OR PTE_P \<and>
     (\<forall>i < 1024. i \<noteq> PDX UVPT \<longrightarrow> present (pde s d i) \<longrightarrow>
        pt_page (pde s d i) < length (pages s) \<and> pt_page (pde s d i) \<noteq> d \<and> ref_of s (pt_page (pde s d i)) \<noteq> 0) \<and>
     (\<forall>i < 1024. \<forall>k < 1024. i \<noteq> PDX UVPT \<longrightarrow> k \<noteq> PDX UVPT \<longrightarrow> present (pde s d i) \<longrightarrow> present (pde s d k) \<longrightarrow>
        pt_page (pde s d i) = pt_page (pde s d k) \<longrightarrow> i = k)"

lemma kspaceD:
  assumes "kspace s d"
  shows "pde s d 957 = page2pa d OR 5"
    and "i < 1024 \<Longrightarrow> i \<noteq> 957 \<Longrightarrow> present (pde s d i) \<Longrightarrow>
      pt_page (pde s d i) < length (pages s) \<and> pt_page (pde s d i) \<noteq> d \<and> ref_of s (pt_page (pde s d i)) \<noteq> 0"
    and "i < 1024 \<Longrightarrow> k < 1024 \<Longrightarrow> i \<noteq> 957 \<Longrightarrow> k \<noteq> 957 \<Longrightarrow> present (pde s d i) \<Longrightarrow> present (pde s d k) \<Longrightarrow>
      pt_page (pde s d i) = pt_page (pde s d k) \<Longrightarrow> i = k"
  using assms unfolding kspace_def by (simp_all add: or.assoc)

lemma kspaceI:
  assumes "pde s d 957 = page2pa d OR 5"
    and "\<And>i. i < 1024 \<Longrightarrow> i \<noteq> 957 \<Longrightarrow> present (pde s d i) \<Longrightarrow>
      pt_page (pde s d i) < length (pages s) \<and> pt_page (pde s d i) \<noteq> d \<and> ref_of s (pt_page (pde s d i)) \<noteq> 0"
    and "\<And>i k. i < 1024 \<Longrightarrow> k < 1024 \<Longrightarrow> i \<noteq> 957 \<Longrightarrow> k \<noteq> 957 \<Longrightarrow> present (pde s d i) \<Longrightarrow> present (pde s d k) \<Longrightarrow>
      pt_page (pde s d i) = pt_page (pde s d k) \<Longrightarrow> i = k"
  shows "kspace s d"
  using assms unfolding kspace_def by (simp add: or.assoc)

lemma kspace_same:
  assumes "kspace s d" and "length (pages t) = length (pages s)" and "\<And>i. i < 1024 \<Longrightarrow> pde t d i = pde s d i"
    and "\<And>q. q < length (pages s) \<Longrightarrow> ref_of s q \<noteq> 0 \<Longrightarrow> ref_of t q \<noteq> 0"
  shows "kspace t d"
proof (rule kspaceI)
  show "pde t d 957 = page2pa d OR 5" using kspaceD(1) [OF assms(1)] assms(3) [of 957] by simp
  fix i :: u32 assume i: "i < 1024" "i \<noteq> 957" "present (pde t d i)"
  hence p: "present (pde s d i)" "pde t d i = pde s d i" using assms(3) by simp_all
  show "pt_page (pde t d i) < length (pages t) \<and> pt_page (pde t d i) \<noteq> d \<and> ref_of t (pt_page (pde t d i)) \<noteq> 0"
    using kspaceD(2) [OF assms(1) i(1,2) p(1)] assms(2,4) unfolding p(2) by simp
next
  fix i k :: u32
  assume a: "i < 1024" "k < 1024" "i \<noteq> 957" "k \<noteq> 957" "present (pde t d i)" "present (pde t d k)" "pt_page (pde t d i) = pt_page (pde t d k)"
  show "i = k" by (rule kspaceD(3) [OF assms(1) a(1-4)]) (use a assms(3) in simp_all)
qed

lemma k_with_table:
  assumes fr: "frees s (x # fl)" and as: "aspace s d" and ks: "kspace s d" and i0: "i0 < 1024" "i0 \<noteq> 957" "955 \<le> i0" "\<not> present (pde s d i0)"
  defines "t \<equiv> with_table s d i0 x"
  shows "i < 1024 \<Longrightarrow> pde t d i = (if i = i0 then page2pa x OR 7 else pde s d i)"
    and "i < 1024 \<Longrightarrow> j < 1024 \<Longrightarrow> i \<noteq> 957 \<Longrightarrow> entry t d i j = entry s d i j"
    and "kspace t d" and "aspace t d" and "globals_of t = globals_of s"
proof -
  let ?z = "\<lambda>a. if in_page x a then 0 else kmem s a"
  have m: "kmem t = st32 ?z (page_kva d + 4 * i0) (page2pa x OR 7)"
    by (simp add: t_def with_table_def Let_def or.assoc)
  have x: "x < length (pages s)" "x < 0x10000" "ref_of s x = 0"
    using frees_bounds(3,4) [OF fr, of x] fr by (simp_all add: frees_def)
  have d: "d < 0x10000" using aspaceD(1) [OF as] frees_bounds(5) [OF fr] by blast
  have len: "length (pages s) \<le> 0x10000" using frees_bounds(2) [OF fr] .
  have xd: "x \<noteq> d" using aspace_referenced(1) [OF as] x(3) by auto
  have ld: "ld32 (kmem t) (page_kva p + 4 * k) = (if p = d \<and> k = i0 then page2pa x OR 7
      else if p = x then 0 else ld32 (kmem s) (page_kva p + 4 * k))" if "p < 0x10000" "k < 1024" for p k
    using that d x i0(1) xd by (auto simp: m ld32_st32_slot ld32_zero_page)
  show pd: "pde t d i = (if i = i0 then page2pa x OR 7 else pde s d i)" if "i < 1024" for i
    using ld [OF d that] xd by (auto simp: pde_def)
  have pg: "pt_page (page2pa x OR 7) = x" using pt_page_make [of x 7] x by simp
  have tx: "pt_page (pde s d i) \<noteq> x" if "i < 1024" "i \<noteq> 957" "present (pde s d i)" for i
    using kspaceD(2) [OF ks that] x(3) by auto
  show en: "entry t d i j = entry s d i j" if ij: "i < 1024" "j < 1024" "i \<noteq> 957" for i j
  proof (cases "i = i0")
    case True
    hence "slot t d i j = page_kva x + 4 * j" using pd [OF i0(1)] pg by (simp add: slot_def)
    hence "ld32 (kmem t) (slot t d i j) = 0" using ld [OF x(2) ij(2)] xd by simp
    thus ?thesis using True i0 by (simp add: entry_def present_def)
  next
    case False
    hence eq: "pde t d i = pde s d i" "slot t d i j = slot s d i j" using pd [OF ij(1)] by (simp_all add: slot_def)
    show ?thesis
    proof (cases "present (pde s d i)")
      case True
      note k = kspaceD(2) [OF ks ij(1,3) True]
      hence "pt_page (pde s d i) < 0x10000" using len by simp
      hence "ld32 (kmem t) (slot s d i j) = ld32 (kmem s) (slot s d i j)"
        using ld ij tx [OF ij(1,3) True] k by (simp add: slot_def)
      thus ?thesis by (simp add: entry_def eq)
    qed (simp add: entry_def eq)
  qed
  have rf: "ref_of t q = (if q = x then 1 else ref_of s q)" for q using x(1) by (simp add: t_def)
  show "kspace t d"
  proof (rule kspaceI)
    show "pde t d 957 = page2pa d OR 5" using pd [of 957] kspaceD(1) [OF ks] i0(2) by simp
    fix i :: u32 assume i: "i < 1024" "i \<noteq> 957" "present (pde t d i)"
    show "pt_page (pde t d i) < length (pages t) \<and> pt_page (pde t d i) \<noteq> d \<and> ref_of t (pt_page (pde t d i)) \<noteq> 0"
      using kspaceD(2) [OF ks i(1,2)] pd [OF i(1)] i(3) pg x xd rf by (auto simp: t_def split: if_splits)
  next
    fix i k :: u32
    assume a: "i < 1024" "k < 1024" "i \<noteq> 957" "k \<noteq> 957" "present (pde t d i)" "present (pde t d k)" "pt_page (pde t d i) = pt_page (pde t d k)"
    show "i = k"
      using kspaceD(3) [OF ks a(1-4)] pd [OF a(1)] pd [OF a(2)] a(5-7) pg tx [OF a(1,3)] tx [OF a(2,4)] by (auto split: if_splits)
  qed
  have lo: "i < 955 \<Longrightarrow> i \<noteq> i0 \<and> i \<noteq> 957" for i :: u32 using i0(3) by auto
  show "aspace t d"
  proof (rule aspace_same [OF as])
    show "entry t d i j = entry s d i j" if "i < 955" "j < 1024" for i j
      using en less_955_1024 [OF that(1)] that(2) lo [OF that(1)] by blast
  qed (use pd less_955_1024 lo rf x(3) in \<open>auto simp: t_def\<close>)
  show "globals_of t = globals_of s" by (simp add: t_def globals_of_def with_table_def Let_def)
qed

lemma k_store:
  assumes fr: "frees s fl" and as: "aspace s d" and ks: "kspace s d" and i0: "i0 < 1024" "i0 \<noteq> 957" "955 \<le> i0" "present (pde s d i0)"
    and j0: "j0 < 1024" and v: "present v"
  defines "t \<equiv> s\<lparr>kmem := st32 (kmem s) (slot s d i0 j0) v\<rparr>"
  shows "i < 1024 \<Longrightarrow> pde t d i = pde s d i"
    and "i < 1024 \<Longrightarrow> j < 1024 \<Longrightarrow> i \<noteq> 957 \<Longrightarrow> entry t d i j = (if i = i0 \<and> j = j0 then Some v else entry s d i j)"
    and "kspace t d" and "aspace t d"
proof -
  let ?T = "pt_page (pde s d i0)"
  have len: "length (pages s) \<le> 0x10000" using frees_bounds(2) [OF fr] .
  have d: "d < 0x10000" using aspaceD(1) [OF as] frees_bounds(5) [OF fr] by blast
  note T = kspaceD(2) [OF ks i0(1,2,4)]
  have T16: "?T < 0x10000" using T len by simp
  have ld: "ld32 (kmem t) (page_kva p + 4 * k) = (if p = ?T \<and> k = j0 then v else ld32 (kmem s) (page_kva p + 4 * k))"
    if "p < 0x10000" "k < 1024" for p k
    using ld32_st32_slot [OF T16 that(1) j0 that(2)] by (auto simp: t_def slot_def)
  show pd: "pde t d i = pde s d i" if "i < 1024" for i using ld [OF d that] T by (auto simp: pde_def)
  show en: "entry t d i j = (if i = i0 \<and> j = j0 then Some v else entry s d i j)" if ij: "i < 1024" "j < 1024" "i \<noteq> 957" for i j
  proof (cases "present (pde s d i)")
    case True
    note k = kspaceD(2) [OF ks ij(1,3) True]
    have "pt_page (pde s d i) = ?T \<longleftrightarrow> i = i0" using kspaceD(3) [OF ks ij(1) i0(1) ij(3) i0(2) True i0(4)] by auto
    moreover have "pt_page (pde s d i) < 0x10000" using k len by simp
    ultimately have "ld32 (kmem t) (slot s d i j) = (if i = i0 \<and> j = j0 then v else ld32 (kmem s) (slot s d i j))"
      using ld ij(2) by (auto simp: slot_def)
    moreover have "slot t d i j = slot s d i j" using pd [OF ij(1)] by (simp add: slot_def)
    ultimately show ?thesis using True v pd [OF ij(1)] by (auto simp: entry_def)
  next
    case False
    hence "\<not> (i = i0 \<and> j = j0)" using i0(4) by auto
    thus ?thesis using False pd [OF ij(1)] by (simp add: entry_def)
  qed
  have rf: "ref_of t q = ref_of s q" for q by (simp add: t_def ref_of_def)
  show "kspace t d" by (rule kspace_same [OF ks]) (use pd rf in \<open>auto simp: t_def\<close>)
  have lo: "i < 955 \<Longrightarrow> i \<noteq> i0 \<and> i \<noteq> 957" for i :: u32 using i0(3) by auto
  show "aspace t d"
  proof (rule aspace_same [OF as])
    show "entry t d i j = entry s d i j" if "i < 955" "j < 1024" for i j
      using en [OF less_955_1024 [OF that(1)] that(2)] lo [OF that(1)] by auto
  qed (use pd less_955_1024 rf in \<open>auto simp: t_def\<close>)
qed


section \<open>boot_map_region\<close>

text \<open>The address of page \<open>k\<close> of a region.\<close>

definition nth_page :: "u32 \<Rightarrow> nat \<Rightarrow> u32" where
  "nth_page va k = va + of_nat k * PGSIZE"

lemma nth_page_0 [simp]: "nth_page va 0 = va" and nth_page_Suc: "nth_page va (Suc k) = nth_page (va + PGSIZE) k"
  by (simp_all add: nth_page_def algebra_simps)

lemma nth_page_other:
  assumes "0 < k" and "k < 0x100000"
  shows "PGNUM (nth_page va k) \<noteq> PGNUM va"
proof
  assume "PGNUM (nth_page va k) = PGNUM va"
  hence e: "unat (nth_page va k) div 4096 = unat va div 4096" by (metis unat_PGNUM)
  have "unat (nth_page va k) = (unat va + k * 4096) mod (4096 * 0x100000)"
    by (simp add: nth_page_def unat_word_ariths unat_of_nat mod_simps)
  also have "\<dots> div 4096 = (unat va + k * 4096) div 4096 mod 0x100000" unfolding mod_mult2_eq by simp
  also have "\<dots> = (unat va div 4096 + k) mod 0x100000" by (simp add: add.commute)
  finally have f: "(unat va div 4096 + k) mod 0x100000 = unat va div 4096" using e by simp
  have lt: "unat va div 4096 < 0x100000" using unat_lt_2p32 [of va] by (simp add: div_less_iff_less_mult del: unat_lt_2p32)
  have "unat va div 4096 + k < 0x100000 \<or> (unat va div 4096 + k) mod 0x100000 = unat va div 4096 + k - 0x100000"
    using assms(2) lt by (simp add: mod_if)
  thus False using f assms lt by auto
qed

text \<open>What a region maps to, and the tables it needs that are not there yet.\<close>

definition tables_needed :: "kern \<Rightarrow> nat \<Rightarrow> u32 \<Rightarrow> nat \<Rightarrow> u32 set" where
  "tables_needed s d va n = {i. \<not> present (pde s d i) \<and> (\<exists>k < n. PDX (nth_page va k) = i)}"

text \<open>Pages that are neither free nor the directory nor tables stay as they are, and so do their contents.\<close>

definition idle :: "kern \<Rightarrow> nat \<Rightarrow> nat list \<Rightarrow> nat \<Rightarrow> bool" where
  "idle s d fl q \<longleftrightarrow> q < 0x10000 \<and> q \<noteq> d \<and> q \<notin> set fl \<and>
     (\<forall>i < 1024. i \<noteq> 957 \<longrightarrow> present (pde s d i) \<longrightarrow> pt_page (pde s d i) \<noteq> q)"

definition stays :: "nat \<Rightarrow> kern \<Rightarrow> nat list \<Rightarrow> kern \<Rightarrow> nat list \<Rightarrow> bool" where
  "stays d s fl t fl' \<longleftrightarrow> (\<forall>q. idle s d fl q \<longrightarrow> idle t d fl' q \<and> (\<forall>a. in_page q a \<longrightarrow> kmem t a = kmem s a))"

lemma stays_refl: "stays d s fl s fl"
  by (simp add: stays_def)

lemma stays_trans: "stays d s fl t fl' \<Longrightarrow> stays d t fl' u fl'' \<Longrightarrow> stays d s fl u fl''"
  unfolding stays_def by metis

lemma stays_outside:
  assumes "outside X s t" and "\<And>q. idle s d fl q \<Longrightarrow> q \<notin> X \<and> q \<notin> set fl'"
    and "\<And>i. i < 1024 \<Longrightarrow> i \<noteq> 957 \<Longrightarrow> pde t d i = pde s d i \<or> pt_page (pde t d i) \<in> set fl"
  shows "stays d s fl t fl'"
  unfolding stays_def
proof (intro allI impI conjI)
  fix q assume q: "idle s d fl q"
  show "kmem t a = kmem s a" if "in_page q a" for a
    by (rule outside_byte [OF assms(1) _ _ that]) (use q assms(2) in \<open>simp_all add: idle_def\<close>)
  show "idle t d fl' q" using q assms(2) [OF q] assms(3) unfolding idle_def by metis
qed

lemma boot_map_step:
  assumes fr: "frees s fl" and as: "aspace s d" and ks: "kspace s d" and va: "955 \<le> PDX va" "PDX va \<noteq> 957"
    and mem: "present (pde s d (PDX va)) \<or> fl \<noteq> []" and v: "v = pa OR perm OR PTE_P"
  obtains u sl where "pgdir_walk (page_kva d) va True s = Inr (Some sl, u)"
    "frees (u\<lparr>kmem := st32 (kmem u) sl v\<rparr>) (if present (pde s d (PDX va)) then fl else tl fl)"
    "aspace (u\<lparr>kmem := st32 (kmem u) sl v\<rparr>) d" "kspace (u\<lparr>kmem := st32 (kmem u) sl v\<rparr>) d" "globals_of u = globals_of s"
    "\<And>i. i < 1024 \<Longrightarrow> pde (u\<lparr>kmem := st32 (kmem u) sl v\<rparr>) d i =
       (if i = PDX va \<and> \<not> present (pde s d i) then page2pa (hd fl) OR 7 else pde s d i)"
    "\<And>i j. i < 1024 \<Longrightarrow> j < 1024 \<Longrightarrow> i \<noteq> 957 \<Longrightarrow> entry (u\<lparr>kmem := st32 (kmem u) sl v\<rparr>) d i j =
       (if i = PDX va \<and> j = PTX va then Some v else entry s d i j)"
    "stays d s fl (u\<lparr>kmem := st32 (kmem u) sl v\<rparr>) (if present (pde s d (PDX va)) then fl else tl fl)"
proof -
  have pv: "present v" using present_or_P [of "pa OR perm"] by (simp add: v or.assoc)
  obtain u where u: "pgdir_walk (page_kva d) va True s = Inr (Some (slot u d (PDX va) (PTX va)), u)"
    "frees u (if present (pde s d (PDX va)) then fl else tl fl)" "aspace u d" "kspace u d" "globals_of u = globals_of s"
    "\<And>i. i < 1024 \<Longrightarrow> pde u d i = (if i = PDX va \<and> \<not> present (pde s d i) then page2pa (hd fl) OR 7 else pde s d i)"
    "\<And>i j. i < 1024 \<Longrightarrow> j < 1024 \<Longrightarrow> i \<noteq> 957 \<Longrightarrow> entry u d i j = entry s d i j" "present (pde u d (PDX va))"
    "outside (insert d (set fl)) s u"
  proof (cases "present (pde s d (PDX va))")
    case True
    have "pt_page (pde s d (PDX va)) < length (pages s)" using kspaceD(2) [OF ks _ va(2) True] by simp
    hence "pgdir_walk (page_kva d) va True s = Inr (Some (slot s d (PDX va) (PTX va)), s)"
      using KADDR_table [OF fr] True by (simp add: pgdir_walk_def Let_def ld32_pde slot_def)
    thus thesis by (intro that [of s]) (use fr as ks True outside_same in auto)
  next
    case False
    then obtain x fl' where fl: "fl = x # fl'" using mem by (cases fl) auto
    have fr': "frees s (x # fl')" using fr fl by simp
    note kt = k_with_table [OF fr' as ks _ va(2,1) False]
    have x: "x < 0x10000" using frees_bounds(4) [OF fr', of x] by simp
    have pd: "pde (with_table s d (PDX va) x) d (PDX va) = page2pa x OR 7" using kt(1) [of "PDX va"] by simp
    have "pt_page (page2pa x OR 7) = x" using pt_page_make [of x 7] x by simp
    moreover have "outside (insert d (set fl)) s (with_table s d (PDX va) x)"
    proof -
      have "d < 0x10000" using aspaceD(1) [OF as] frees_bounds(5) [OF fr] by simp
      thus ?thesis unfolding outside_def fl using x by (auto simp: with_table_def Let_def ld32_st32_slot ld32_zero_page)
    qed
    ultimately show thesis
      using that [of "with_table s d (PDX va) x"] pgdir_walk_create [OF fr' False] with_table_frees [OF fr'] kt pd present_or_7 False fl
      by (simp add: slot_def)
  qed
  note st = k_store [OF u(2-4) _ va(2,1) u(8) _ pv, of "PTX va"]
  show thesis
  proof (rule that [OF u(1)])
    let ?t = "u\<lparr>kmem := st32 (kmem u) (slot u d (PDX va) (PTX va)) v\<rparr>"
    show "frees ?t (if present (pde s d (PDX va)) then fl else tl fl)" using u(2) by simp
    show "aspace ?t d" "kspace ?t d" using st(3,4) by simp_all
    show "globals_of u = globals_of s" by (rule u(5))
    show "pde ?t d i = (if i = PDX va \<and> \<not> present (pde s d i) then page2pa (hd fl) OR 7 else pde s d i)" if "i < 1024" for i
      using st(1) [OF _ _ that] u(6) [OF that] by simp
    show "entry ?t d i j = (if i = PDX va \<and> j = PTX va then Some v else entry s d i j)" if "i < 1024" "j < 1024" "i \<noteq> 957" for i j
      using st(2) [OF _ _ that] u(7) [OF that] by simp
    let ?T = "pt_page (pde u d (PDX va))"
    have T: "?T < 0x10000" using kspaceD(2) [OF u(4) _ va(2) u(8)] frees_bounds(5) [OF u(2)] by simp
    have o: "outside (insert ?T (insert d (set fl))) s ?t"
      by (rule outside_trans [OF u(9) outside_st32 [OF T PTX_less, where v = v and X = "{?T}"]]) (auto simp: slot_def)
    have h: "hd fl \<in> set fl \<and> pt_page (page2pa (hd fl) OR 7) = hd fl" if "\<not> present (pde s d (PDX va))"
    proof -
      have "hd fl \<in> set fl" using mem that by simp
      thus ?thesis using frees_bounds(4) [OF fr] pt_page_make [of "hd fl" 7] by simp
    qed
    have tl: "set (tl fl) \<subseteq> set fl" by (cases fl) auto
    show "stays d s fl ?t (if present (pde s d (PDX va)) then fl else tl fl)"
    proof (rule stays_outside [OF o])
      fix q assume q: "idle s d fl q"
      have "?T \<noteq> q"
      proof (cases "present (pde s d (PDX va))")
        case True
        thus ?thesis using q u(6) [of "PDX va"] va(2) by (simp add: idle_def)
      next
        case False
        thus ?thesis using q u(6) [of "PDX va"] h by (auto simp: idle_def)
      qed
      thus "q \<notin> insert ?T (insert d (set fl)) \<and> q \<notin> set (if present (pde s d (PDX va)) then fl else tl fl)"
        using q tl by (auto simp: idle_def)
    next
      fix i :: u32 assume i: "i < 1024"
      show "pde ?t d i = pde s d i \<or> pt_page (pde ?t d i) \<in> set fl" using st(1) [OF _ _ i] u(6) [OF i] h by auto
    qed
  qed
qed


lemma tables_needed_finite [simp]: "finite (tables_needed s d va n)"
  by (rule finite_subset [of _ "(\<lambda>k. PDX (nth_page va k)) ` {..<n}"]) (auto simp: tables_needed_def)

lemma boot_map_loop_ok:
  assumes "frees s fl" and "aspace s d" and "kspace s d" and "n \<le> 0x100000"
    and "\<forall>k < n. 955 \<le> PDX (nth_page va k) \<and> PDX (nth_page va k) \<noteq> 957"
    and "card (tables_needed s d va n) \<le> length fl"
  shows "\<exists>t. boot_map_loop n (page_kva d) va pa perm s = Inr t \<and> frees t (drop (card (tables_needed s d va n)) fl) \<and>
    aspace t d \<and> kspace t d \<and> globals_of t = globals_of s \<and>
    (\<forall>i < 1024. present (pde s d i) \<or> (\<forall>k < n. PDX (nth_page va k) \<noteq> i) \<longrightarrow> pde t d i = pde s d i) \<and>
    (\<forall>i < 1024. \<not> present (pde s d i) \<longrightarrow> (\<exists>k < n. PDX (nth_page va k) = i) \<longrightarrow> (\<exists>x. pde t d i = page2pa x OR 7)) \<and>
    (\<forall>k < n. entry t d (PDX (nth_page va k)) (PTX (nth_page va k)) = Some ((pa + of_nat k * PGSIZE) OR perm OR PTE_P)) \<and>
    (\<forall>w. PDX w \<noteq> 957 \<longrightarrow> (\<forall>k < n. PGNUM (nth_page va k) \<noteq> PGNUM w) \<longrightarrow> entry t d (PDX w) (PTX w) = entry s d (PDX w) (PTX w)) \<and>
    stays d s fl t (drop (card (tables_needed s d va n)) fl)"
  using assms
proof (induction n arbitrary: s fl va pa)
  case 0
  thus ?case by (auto simp: tables_needed_def stays_refl)
next
  case (Suc n)
  let ?v = "pa OR perm OR PTE_P" and ?T = "tables_needed s d va (Suc n)"
  have va: "955 \<le> PDX va" "PDX va \<noteq> 957" using Suc.prems(5) by (force dest: spec [of _ 0])+
  have in0: "PDX va \<in> ?T" if "\<not> present (pde s d (PDX va))" using that by (force simp: tables_needed_def)
  have mem: "present (pde s d (PDX va)) \<or> fl \<noteq> []"
  proof (rule ccontr)
    assume a: "\<not> (present (pde s d (PDX va)) \<or> fl \<noteq> [])"
    hence "?T = {}" using Suc.prems(6) by simp
    thus False using in0 a by blast
  qed
  obtain u sl where u: "pgdir_walk (page_kva d) va True s = Inr (Some sl, u)"
    "frees (u\<lparr>kmem := st32 (kmem u) sl ?v\<rparr>) (if present (pde s d (PDX va)) then fl else tl fl)"
    "aspace (u\<lparr>kmem := st32 (kmem u) sl ?v\<rparr>) d" "kspace (u\<lparr>kmem := st32 (kmem u) sl ?v\<rparr>) d" "globals_of u = globals_of s"
    "\<And>i. i < 1024 \<Longrightarrow> pde (u\<lparr>kmem := st32 (kmem u) sl ?v\<rparr>) d i =
       (if i = PDX va \<and> \<not> present (pde s d i) then page2pa (hd fl) OR 7 else pde s d i)"
    "\<And>i j. i < 1024 \<Longrightarrow> j < 1024 \<Longrightarrow> i \<noteq> 957 \<Longrightarrow> entry (u\<lparr>kmem := st32 (kmem u) sl ?v\<rparr>) d i j =
       (if i = PDX va \<and> j = PTX va then Some ?v else entry s d i j)"
    "stays d s fl (u\<lparr>kmem := st32 (kmem u) sl ?v\<rparr>) (if present (pde s d (PDX va)) then fl else tl fl)"
    by (rule boot_map_step [OF Suc.prems(1-3) va mem refl, of pa perm]) blast
  let ?s = "u\<lparr>kmem := st32 (kmem u) sl ?v\<rparr>" and ?fl = "if present (pde s d (PDX va)) then fl else tl fl"
  have p0: "present (pde ?s d (PDX va))" using u(6) [of "PDX va"] present_or_7 by auto
  have tn: "tables_needed ?s d (va + PGSIZE) n = ?T - {PDX va}"
    unfolding tables_needed_def nth_page_Suc [symmetric]
  proof (intro set_eqI iffI)
    fix i assume "i \<in> {i. \<not> present (pde ?s d i) \<and> (\<exists>k<n. PDX (nth_page va (Suc k)) = i)}"
    then obtain k where k: "\<not> present (pde ?s d i)" "k < n" "PDX (nth_page va (Suc k)) = i" by blast
    have i: "i < 1024" using PDX_less [of "nth_page va (Suc k)"] k(3) by simp
    have "i \<noteq> PDX va" using k(1) p0 by auto
    moreover have "\<not> present (pde s d i)" using k(1) u(6) [OF i] \<open>i \<noteq> PDX va\<close> by simp
    ultimately show "i \<in> {i. \<not> present (pde s d i) \<and> (\<exists>k<Suc n. PDX (nth_page va k) = i)} - {PDX va}" using k(2,3) by blast
  next
    fix i assume a: "i \<in> {i. \<not> present (pde s d i) \<and> (\<exists>k<Suc n. PDX (nth_page va k) = i)} - {PDX va}"
    then obtain k where k: "\<not> present (pde s d i)" "k < Suc n" "PDX (nth_page va k) = i" "i \<noteq> PDX va" by blast
    then obtain k' where k': "k = Suc k'" by (cases k) auto
    have i: "i < 1024" using PDX_less [of "nth_page va k"] k(3) by simp
    have "\<not> present (pde ?s d i)" using u(6) [OF i] k(1,4) by simp
    thus "i \<in> {i. \<not> present (pde ?s d i) \<and> (\<exists>k<n. PDX (nth_page va (Suc k)) = i)}" using k(2,3) k' by auto
  qed
  have cd: "card ?T = card (?T - {PDX va}) + (if present (pde s d (PDX va)) then 0 else 1)"
  proof (cases "present (pde s d (PDX va))")
    case True
    hence "PDX va \<notin> ?T" by (simp add: tables_needed_def)
    thus ?thesis using True by simp
  next
    case False
    thus ?thesis using in0 card_Suc_Diff1 [of ?T "PDX va"] by simp
  qed
  have le: "card (?T - {PDX va}) \<le> length ?fl" using Suc.prems(6) cd by (cases fl) auto
  have rng: "\<forall>k < n. 955 \<le> PDX (nth_page (va + PGSIZE) k) \<and> PDX (nth_page (va + PGSIZE) k) \<noteq> 957"
    using Suc.prems(5) unfolding nth_page_Suc [symmetric] by blast
  have n: "n \<le> 0x100000" using Suc.prems(4) by simp
  obtain t where t: "boot_map_loop n (page_kva d) (va + PGSIZE) (pa + PGSIZE) perm ?s = Inr t" "frees t (drop (card (?T - {PDX va})) ?fl)"
    "aspace t d" "kspace t d" "globals_of t = globals_of ?s"
    "\<forall>i < 1024. present (pde ?s d i) \<or> (\<forall>k < n. PDX (nth_page va (Suc k)) \<noteq> i) \<longrightarrow> pde t d i = pde ?s d i"
    "\<forall>i < 1024. \<not> present (pde ?s d i) \<longrightarrow> (\<exists>k < n. PDX (nth_page va (Suc k)) = i) \<longrightarrow> (\<exists>x. pde t d i = page2pa x OR 7)"
    "\<forall>k < n. entry t d (PDX (nth_page va (Suc k))) (PTX (nth_page va (Suc k))) = Some ((pa + PGSIZE + of_nat k * PGSIZE) OR perm OR PTE_P)"
    "\<forall>w. PDX w \<noteq> 957 \<longrightarrow> (\<forall>k < n. PGNUM (nth_page va (Suc k)) \<noteq> PGNUM w) \<longrightarrow> entry t d (PDX w) (PTX w) = entry ?s d (PDX w) (PTX w)"
    "stays d ?s ?fl t (drop (card (?T - {PDX va})) ?fl)"
    using Suc.IH [OF u(2-4) n rng, of "pa + PGSIZE"] le unfolding tn nth_page_Suc [symmetric] by blast
  have "boot_map_loop (Suc n) (page_kva d) va pa perm s = Inr t" using u(1) t(1) by simp
  moreover have "drop (card (?T - {PDX va})) ?fl = drop (card ?T) fl" using cd by (simp add: drop_Suc)
  moreover have "pde t d i = pde s d i" if "i < 1024" "present (pde s d i) \<or> (\<forall>k < Suc n. PDX (nth_page va k) \<noteq> i)" for i
  proof -
    have e: "pde ?s d i = pde s d i" using u(6) [OF that(1)] that(2) by (auto dest: spec [of _ 0])
    hence "present (pde ?s d i) \<or> (\<forall>k < n. PDX (nth_page va (Suc k)) \<noteq> i)" using that(2) by auto
    thus ?thesis using t(6) that(1) e by metis
  qed
  moreover have "\<exists>x. pde t d i = page2pa x OR 7" if i: "i < 1024" "\<not> present (pde s d i)" and k: "k < Suc n" "PDX (nth_page va k) = i" for i k
  proof (cases "i = PDX va")
    case True
    hence "pde ?s d i = page2pa (hd fl) OR 7" using u(6) [OF i(1)] i(2) by simp
    thus ?thesis using t(6) i(1) p0 True by auto
  next
    case False
    then obtain k' where "k = Suc k'" using k(2) by (cases k) auto
    moreover have "\<not> present (pde ?s d i)" using u(6) [OF i(1)] False i(2) by simp
    ultimately show ?thesis using t(7) i(1) k by auto
  qed
  moreover have "entry t d (PDX (nth_page va k)) (PTX (nth_page va k)) = Some ((pa + of_nat k * PGSIZE) OR perm OR PTE_P)" if "k < Suc n" for k
  proof (cases k)
    case 0
    have "PGNUM (nth_page va (Suc k)) \<noteq> PGNUM va" if "k < n" for k using nth_page_other [of "Suc k" va] that Suc.prems(4) by simp
    hence "entry t d (PDX va) (PTX va) = entry ?s d (PDX va) (PTX va)" using t(9) va(2) by blast
    thus ?thesis using 0 u(7) [of "PDX va" "PTX va"] va(2) by simp
  next
    case (Suc k')
    thus ?thesis using t(8) that by (auto simp: algebra_simps)
  qed
  moreover have "entry t d (PDX w) (PTX w) = entry s d (PDX w) (PTX w)" if w: "PDX w \<noteq> 957" "\<forall>k < Suc n. PGNUM (nth_page va k) \<noteq> PGNUM w" for w
  proof -
    have "PGNUM va \<noteq> PGNUM w" using w(2) by (auto dest: spec [of _ 0])
    hence "\<not> (PDX w = PDX va \<and> PTX w = PTX va)" using page_eq_iff [of va w] by auto
    hence "entry ?s d (PDX w) (PTX w) = entry s d (PDX w) (PTX w)" using u(7) [of "PDX w" "PTX w"] w(1) by auto
    moreover have "\<forall>k < n. PGNUM (nth_page va (Suc k)) \<noteq> PGNUM w" using w(2) by blast
    ultimately show ?thesis using t(9) w(1) by simp
  qed
  moreover have "stays d s fl t (drop (card ?T) fl)" using stays_trans [OF u(8) t(10)] calculation(2) by simp
  ultimately show ?case using t(2-5) u(5) by (intro exI [of _ t]) (auto simp: less_Suc_eq)
qed


section \<open>check_kern_pgdir\<close>

definition sizeof_PageInfo :: u32 where [simp]: "sizeof_PageInfo = 8"
definition sizeof_Env :: u32 where [simp]: "sizeof_Env = 96"

text \<open>How many steps of a page the loop \<open>for (i = 0; i < n; i += PGSIZE)\<close> takes, and the assertion of its body.\<close>

definition page_steps :: "u32 \<Rightarrow> nat" where
  "page_steps n = (unat n + unat PGSIZE - 1) div unat PGSIZE"

fun maps_pages :: "nat \<Rightarrow> u32 \<Rightarrow> u32 \<Rightarrow> kern \<Rightarrow> kerr + kern" where
  "maps_pages 0 va pa s = Inr s"
| "maps_pages (Suc n) va pa s = res_bind (translates va pa s) (maps_pages n (va + PGSIZE) (pa + PGSIZE))"

definition maps_object :: "u32 \<Rightarrow> u32 \<Rightarrow> u32 \<Rightarrow> kern \<Rightarrow> kerr + kern" where
  "maps_object n va kva s = res_bind (PADDR kva) (\<lambda>pa. maps_pages (page_steps n) va pa s)"

definition pde_permitted :: "kern \<Rightarrow> u32 \<Rightarrow> bool" where
  "pde_permitted s i =
     (if i \<in> {PDX UVPT, PDX (KSTACKTOP - 1), PDX UPAGES, PDX UENVS} then present (pgdir_entry i s)
      else if i \<ge> PDX KERNBASE then present (pgdir_entry i s) \<and> pgdir_entry i s AND PTE_W \<noteq> 0
      else pgdir_entry i s = 0)"

definition check_kern_pgdir :: "u32 \<Rightarrow> u32 \<Rightarrow> kern \<Rightarrow> kerr + kern" where
  "check_kern_pgdir envs_kva bootstack = steps [
     (\<lambda>s. maps_object (ROUNDUP (npages s * sizeof_PageInfo) PGSIZE) UPAGES (pages_kva s) s),
     maps_object (ROUNDUP (of_nat NENV * sizeof_Env) PGSIZE) UENVS envs_kva,
     (\<lambda>s. maps_pages (page_steps (npages s * PGSIZE)) KERNBASE 0 s),
     maps_object KSTKSIZE (KSTACKTOP - KSTKSIZE) bootstack,
     translates (KSTACKTOP - PTSIZE) (NOT 0),
     ensure (\<lambda>s. list_all (pde_permitted s) (map of_nat [0..<unat NPDENTRIES]))]"

lemma kspace_check_va2pa:
  assumes fr: "frees s fl" and ks: "kspace s d" and va: "PDX va \<noteq> 957"
  shows "check_va2pa (page_kva d) va s = Inr (case entry s d (PDX va) (PTX va) of None \<Rightarrow> NOT 0 | Some e \<Rightarrow> PTE_ADDR e)"
proof (cases "present (pde s d (PDX va))")
  case True
  have "pt_page (pde s d (PDX va)) < length (pages s)" using kspaceD(2) [OF ks _ va True] by simp
  thus ?thesis using KADDR_table [OF fr] True
    by (auto simp: check_va2pa_def Let_def ld32_pde entry_def slot_def)
qed (simp add: check_va2pa_def Let_def ld32_pde entry_def)

lemma maps_pages_ok:
  assumes fr: "frees s fl" and ks: "kspace s d" and kd: "kern_pgdir s = page_kva d" and pa: "4096 dvd unat pa" and perm: "perm < 4096"
    and m: "\<forall>k < n. PDX (nth_page va k) \<noteq> 957 \<and>
      entry s d (PDX (nth_page va k)) (PTX (nth_page va k)) = Some ((pa + of_nat k * PGSIZE) OR perm OR PTE_P)"
  shows "maps_pages n va pa s = Inr s"
  using pa m
proof (induction n arbitrary: va pa)
  case (Suc n)
  have a0: "PDX va \<noteq> 957" "entry s d (PDX va) (PTX va) = Some (pa OR perm OR PTE_P)"
    using Suc.prems(2) by (auto dest: spec [of _ 0])
  have "PTE_ADDR (pa OR (perm OR 1)) = pa" by (rule PTE_ADDR_or_flags [OF Suc.prems(1) or_1_less_4096 [OF perm]])
  hence "translates va pa s = Inr s"
    using kspace_check_va2pa [OF fr ks a0(1)] a0(2) kd by (simp add: translates_def ensure_that_def or.assoc)
  moreover have "maps_pages n (va + PGSIZE) (pa + PGSIZE) s = Inr s"
  proof (rule Suc.IH)
    have "(unat pa + 4096) mod 4294967296 mod 4096 = (unat pa + 4096) mod 4096" by (rule mod_mod_cancel) simp
    thus "4096 dvd unat (pa + PGSIZE)" using Suc.prems(1) by (simp add: unat_word_ariths mod_eq_0_iff_dvd [symmetric] del: mod_mod_trivial)
    show "\<forall>k < n. PDX (nth_page (va + PGSIZE) k) \<noteq> 957 \<and> entry s d (PDX (nth_page (va + PGSIZE) k)) (PTX (nth_page (va + PGSIZE) k)) =
        Some ((pa + PGSIZE + of_nat k * PGSIZE) OR perm OR PTE_P)"
    proof (intro allI impI)
      fix k assume "k < n"
      hence "Suc k < Suc n" by simp
      from Suc.prems(2) [rule_format, OF this] show "PDX (nth_page (va + PGSIZE) k) \<noteq> 957 \<and>
          entry s d (PDX (nth_page (va + PGSIZE) k)) (PTX (nth_page (va + PGSIZE) k)) = Some ((pa + PGSIZE + of_nat k * PGSIZE) OR perm OR PTE_P)"
        unfolding nth_page_Suc by (simp add: algebra_simps)
    qed
  qed
  ultimately show ?case by simp
qed simp

section \<open>The regions of the kernel\<close>

lemma PDX_nth_page:
  assumes "unat va + k * 4096 < 2 ^ 32"
  shows "unat (PDX (nth_page va k)) = (unat va + k * 4096) div 4194304"
proof -
  have "unat (nth_page va k) = (unat va + k * 4096) mod 2 ^ 32"
    by (simp add: nth_page_def unat_word_ariths unat_of_nat mod_simps)
  thus ?thesis using assms by (simp add: unat_PDX)
qed

lemma PDX_nth_page_eq:
  assumes "unat va + k * 4096 < 2 ^ 32" and "(unat va + k * 4096) div 4194304 = unat i"
  shows "PDX (nth_page va k) = i"
  using PDX_nth_page [OF assms(1)] assms(2) by (simp add: word_unat_eq_iff)

lemma region_dirs:
  shows "k < 1024 \<Longrightarrow> PDX (nth_page UPAGES k) = 956" and "k < 24 \<Longrightarrow> PDX (nth_page UENVS k) = 955"
    and "k < 8 \<Longrightarrow> PDX (nth_page (KSTACKTOP - KSTKSIZE) k) = 959"
    and "k < 0x10000 \<Longrightarrow> unat (PDX (nth_page KERNBASE k)) = 960 + k div 1024"
proof -
  show "k < 1024 \<Longrightarrow> PDX (nth_page UPAGES k) = 956" by (rule PDX_nth_page_eq) auto
  show "k < 24 \<Longrightarrow> PDX (nth_page UENVS k) = 955" by (rule PDX_nth_page_eq) auto
  show "k < 8 \<Longrightarrow> PDX (nth_page (KSTACKTOP - KSTKSIZE) k) = 959" by (rule PDX_nth_page_eq) auto
  assume k: "k < 0x10000"
  have "(4026531840 + k * 4096) div 4194304 = 960 + k div 1024"
  proof -
    have "4026531840 + k * 4096 = 4096 * (983040 + k)" by simp
    hence "(4026531840 + k * 4096) div 4194304 = (983040 + k) div 1024" using div_mult_mult1 [of 4096 "983040 + k" 1024] by simp
    thus ?thesis by simp
  qed
  thus "unat (PDX (nth_page KERNBASE k)) = 960 + k div 1024" using PDX_nth_page [of KERNBASE k] k by simp
qed


definition region :: "kern \<Rightarrow> nat \<Rightarrow> u32 \<Rightarrow> nat \<Rightarrow> u32 \<Rightarrow> u32 \<Rightarrow> bool" where
  "region s d va n pa perm \<longleftrightarrow> (\<forall>k < n. entry s d (PDX (nth_page va k)) (PTX (nth_page va k)) = Some ((pa + of_nat k * PGSIZE) OR perm OR PTE_P))"

text \<open>From \<open>s\<close> to \<open>t\<close> a region has been mapped with tables in the slots \<open>D\<close>; \<open>fl\<close> is free then.\<close>

definition mapped_region :: "kern \<Rightarrow> kern \<Rightarrow> nat \<Rightarrow> u32 \<Rightarrow> nat \<Rightarrow> u32 \<Rightarrow> u32 \<Rightarrow> u32 set \<Rightarrow> nat list \<Rightarrow> bool" where
  "mapped_region s t d va n pa perm D fl \<longleftrightarrow> frees t fl \<and> aspace t d \<and> kspace t d \<and> globals_of t = globals_of s \<and>
     region t d va n pa perm \<and> (\<forall>i < 1024. i \<notin> D \<or> present (pde s d i) \<longrightarrow> pde t d i = pde s d i) \<and>
     (\<forall>k < n. \<not> present (pde s d (PDX (nth_page va k))) \<longrightarrow> (\<exists>x. pde t d (PDX (nth_page va k)) = page2pa x OR 7)) \<and>
     (\<forall>w. PDX w \<noteq> 957 \<longrightarrow> (\<forall>k < n. PGNUM (nth_page va k) \<noteq> PGNUM w) \<longrightarrow> entry t d (PDX w) (PTX w) = entry s d (PDX w) (PTX w))"

lemma mapped_regionD:
  assumes "mapped_region s t d va n pa perm D fl"
  shows "frees t fl" and "aspace t d" and "kspace t d" and "globals_of t = globals_of s" and "region t d va n pa perm"
    and "i < 1024 \<Longrightarrow> i \<notin> D \<or> present (pde s d i) \<Longrightarrow> pde t d i = pde s d i"
    and "k < n \<Longrightarrow> \<not> present (pde s d (PDX (nth_page va k))) \<Longrightarrow> \<exists>x. pde t d (PDX (nth_page va k)) = page2pa x OR 7"
    and "PDX w \<noteq> 957 \<Longrightarrow> (\<And>k. k < n \<Longrightarrow> PGNUM (nth_page va k) \<noteq> PGNUM w) \<Longrightarrow> entry t d (PDX w) (PTX w) = entry s d (PDX w) (PTX w)"
  using assms unfolding mapped_region_def by blast+

lemma boot_map_region_ok:
  assumes fr: "frees s fl" and as: "aspace s d" and ks: "kspace s d" and kd: "kern_pgdir s = page_kva d"
    and n: "n = unat (PGNUM sz)" and D: "\<And>k. k < n \<Longrightarrow> PDX (nth_page va k) \<in> D" "\<And>i. i \<in> D \<Longrightarrow> 955 \<le> i \<and> i \<noteq> 957"
    and c: "card D \<le> c" "c \<le> length fl"
  shows "\<exists>t m. boot_map_region (kern_pgdir s) va sz pa perm s = Inr t \<and> m \<le> c \<and> mapped_region s t d va n pa perm D (drop m fl) \<and>
    stays d s fl t (drop m fl)"
proof -
  have "tables_needed s d va n \<subseteq> D" using D(1) by (auto simp: tables_needed_def)
  hence cd: "card (tables_needed s d va n) \<le> c" using c(1) card_mono [of D "tables_needed s d va n"] by simp
  have "unat sz div 4096 < 0x100000" using unat_lt_2p32 [of sz] by (simp add: div_less_iff_less_mult del: unat_lt_2p32)
  hence n20: "n \<le> 0x100000" unfolding n unat_PGNUM by simp
  have rng: "\<forall>k < n. 955 \<le> PDX (nth_page va k) \<and> PDX (nth_page va k) \<noteq> 957" using D by blast
  have "card (tables_needed s d va n) \<le> length fl" using cd c(2) by simp
  from boot_map_loop_ok [OF fr as ks n20 rng this, of pa perm] obtain t where
    "boot_map_loop n (page_kva d) va pa perm s = Inr t" "frees t (drop (card (tables_needed s d va n)) fl)"
    "aspace t d" "kspace t d" "globals_of t = globals_of s"
    and a: "\<forall>i < 1024. present (pde s d i) \<or> (\<forall>k < n. PDX (nth_page va k) \<noteq> i) \<longrightarrow> pde t d i = pde s d i"
    and b: "\<forall>i < 1024. \<not> present (pde s d i) \<longrightarrow> (\<exists>k < n. PDX (nth_page va k) = i) \<longrightarrow> (\<exists>x. pde t d i = page2pa x OR 7)"
    and r: "\<forall>k < n. entry t d (PDX (nth_page va k)) (PTX (nth_page va k)) = Some ((pa + of_nat k * PGSIZE) OR perm OR PTE_P)"
    and e: "\<forall>w. PDX w \<noteq> 957 \<longrightarrow> (\<forall>k < n. PGNUM (nth_page va k) \<noteq> PGNUM w) \<longrightarrow> entry t d (PDX w) (PTX w) = entry s d (PDX w) (PTX w)"
    and sta: "stays d s fl t (drop (card (tables_needed s d va n)) fl)"
    by blast
  note t = this
  have "mapped_region s t d va n pa perm D (drop (card (tables_needed s d va n)) fl)"
    unfolding mapped_region_def
  proof (intro conjI)
    show "region t d va n pa perm" using r by (simp add: region_def)
    show "\<forall>i < 1024. i \<notin> D \<or> present (pde s d i) \<longrightarrow> pde t d i = pde s d i" using a D(1) by blast
    show "\<forall>k < n. \<not> present (pde s d (PDX (nth_page va k))) \<longrightarrow> (\<exists>x. pde t d (PDX (nth_page va k)) = page2pa x OR 7)"
      using b PDX_less by blast
  qed (use t e in blast)+
  moreover have "boot_map_region (kern_pgdir s) va sz pa perm s = Inr t" using t(1) kd n by (simp add: boot_map_region_def)
  ultimately show ?thesis using cd sta by blast
qed

text \<open>A region stays when nothing is written into its tables.\<close>

lemma region_kept:
  assumes "region s d va n pa perm" and "\<And>k. k < n \<Longrightarrow> entry t d (PDX (nth_page va k)) (PTX (nth_page va k)) = entry s d (PDX (nth_page va k)) (PTX (nth_page va k))"
  shows "region t d va n pa perm"
  using assms by (simp add: region_def)

section \<open>The mappings of mem_init\<close>

definition map_object :: "u32 \<Rightarrow> u32 \<Rightarrow> u32 \<Rightarrow> u32 \<Rightarrow> kern \<Rightarrow> kerr + kern" where
  "map_object va sz kva perm s = res_bind (PADDR kva) (\<lambda>pa. boot_map_region (kern_pgdir s) va sz pa perm s)"

definition map_kernel :: "u32 \<Rightarrow> u32 \<Rightarrow> kern \<Rightarrow> kerr + kern" where
  "map_kernel envs_kva bootstack = steps [
     (\<lambda>s. map_object UPAGES (npages s * sizeof_PageInfo) (pages_kva s) (PTE_U OR PTE_P) s),
     map_object UENVS (ROUNDUP (of_nat NENV * sizeof_Env) PGSIZE) envs_kva (PTE_U OR PTE_P),
     map_object (KSTACKTOP - KSTKSIZE) KSTKSIZE bootstack (PTE_W OR PTE_P),
     (\<lambda>s. boot_map_region (kern_pgdir s) KERNBASE (ROUNDUP (0xffffffff - KERNBASE) PGSIZE) 0 (PTE_W OR PTE_P) s)]"

definition kernel_maps :: "kern \<Rightarrow> nat \<Rightarrow> nat \<Rightarrow> nat \<Rightarrow> nat \<Rightarrow> bool" where
  "kernel_maps s d p e b \<longleftrightarrow>
     region s d UPAGES (unat (npages s) div 512) (page2pa p) (PTE_U OR PTE_P) \<and>
     region s d UENVS 24 (page2pa e) (PTE_U OR PTE_P) \<and>
     region s d (KSTACKTOP - KSTKSIZE) 8 (page2pa b) (PTE_W OR PTE_P) \<and>
     region s d KERNBASE 0x10000 0 (PTE_W OR PTE_P)"

lemma PGNUM_PDX: "PGNUM va = PGNUM w \<Longrightarrow> PDX va = PDX w"
  using page_eq_iff by blast

lemma map_kernel_ok:
  assumes fr: "frees s fl" and as: "aspace s d" and ks: "kspace s d" and kd: "kern_pgdir s = page_kva d"
    and fl: "67 \<le> length fl" and p: "pages_kva s = page_kva p" "p < 0x10000" and e: "e < 0x10000" and b: "b < 0x10000"
    and empty: "\<And>i. i < 1024 \<Longrightarrow> 955 \<le> i \<Longrightarrow> i \<noteq> 957 \<Longrightarrow> pde s d i = 0"
  shows "\<exists>t m. map_kernel (page_kva e) (page_kva b) s = Inr t \<and> m \<le> 67 \<and> frees t (drop m fl) \<and> aspace t d \<and> kspace t d \<and>
    globals_of t = globals_of s \<and> kernel_maps t d p e b \<and> entry t d 959 0 = None \<and>
    (\<forall>i < 1024. i < 955 \<or> i = 957 \<or> i = 958 \<longrightarrow> pde t d i = pde s d i) \<and> (512 \<le> npages s \<longrightarrow> present (pde t d 956)) \<and>
    (\<forall>i < 1024. i = 955 \<or> i = 959 \<or> 960 \<le> i \<longrightarrow> (\<exists>x. pde t d i = page2pa x OR 7)) \<and>
    (\<forall>w. PDX w = 956 \<longrightarrow> (\<forall>k < unat (npages s) div 512. PGNUM (nth_page UPAGES k) \<noteq> PGNUM w) \<longrightarrow> entry t d (PDX w) (PTX w) = None) \<and>
    stays d s fl t (drop m fl)"
proof -
  have dk: "PDX (nth_page UPAGES k) = 956" if "k < 1024" for k using region_dirs(1) that by blast
  have de: "PDX (nth_page UENVS k) = 955" if "k < 24" for k using region_dirs(2) that by blast
  have ds: "PDX (nth_page (KSTACKTOP - KSTKSIZE) k) = 959" if "k < 8" for k using region_dirs(3) that by blast
  let ?K = "{i :: u32. 960 \<le> i \<and> i < 1024}"
  have db: "PDX (nth_page KERNBASE k) \<in> ?K" if "k < 0x10000" for k
    using region_dirs(4) [OF that] PDX_less [of "nth_page KERNBASE k"] by (simp add: word_le_nat_alt)
  have K955: "955 \<le> i" if "960 \<le> i" for i :: u32 by (rule order_trans [OF _ that]) simp
  have cK: "card ?K \<le> 64"
  proof -
    have "?K \<subseteq> of_nat ` {960..<1024}"
    proof
      fix i assume "i \<in> ?K"
      hence "unat i \<in> {960..<1024}" by (simp add: word_le_nat_alt word_less_nat_alt)
      moreover have "i = of_nat (unat i)" by simp
      ultimately show "i \<in> of_nat ` {960..<1024}" by blast
    qed
    hence "card ?K \<le> card (of_nat ` {960..<1024} :: u32 set)" by (intro card_mono) simp_all
    also have "\<dots> \<le> card {960..<(1024 :: nat)}" by (rule card_image_le) simp
    finally show ?thesis by simp
  qed
  have np: "unat (npages s) \<le> 0x10000" using frees_bounds(1,2) [OF fr] by simp
  have "unat (npages s * 8) = unat (npages s) * 8" using np by (subst unat_mult_no_carry) simp_all
  hence n1: "unat (npages s) div 512 = unat (PGNUM (npages s * 8))"
    using div_mult2_eq [of "unat (npages s) * 8" 8 512] by (simp add: unat_PGNUM)
  have nb: "unat (npages s) div 512 \<le> 128" using np by simp
  obtain t1 m1 where t1: "boot_map_region (kern_pgdir s) UPAGES (npages s * 8) (page2pa p) (PTE_U OR PTE_P) s = Inr t1" "m1 \<le> 1"
    "mapped_region s t1 d UPAGES (unat (npages s) div 512) (page2pa p) (PTE_U OR PTE_P) {956} (drop m1 fl)"
    "stays d s fl t1 (drop m1 fl)"
  proof -
    have "\<exists>t m. boot_map_region (kern_pgdir s) (UPAGES) (npages s * 8) (page2pa p) (PTE_U OR PTE_P) s = Inr t \<and> m \<le> 1 \<and>
        mapped_region s t d (UPAGES) (unat (npages s) div 512) (page2pa p) (PTE_U OR PTE_P) {956} (drop m fl) \<and> stays d s fl t (drop m fl)"
      by (rule boot_map_region_ok [OF fr as ks kd n1]) (use dk nb fl in auto)
    thus thesis using that by blast
  qed
  note r1 = mapped_regionD [OF t1(3)]
  note g1 = globals_ofD [OF r1(4)]
  have kd1: "kern_pgdir t1 = page_kva d" using g1(3) kd by simp
  have n2: "24 = unat (PGNUM 0x18000)" "8 = unat (PGNUM 0x8000)" "0x10000 = unat (PGNUM 0x10000000)" by (simp_all add: PGNUM_def)
  obtain t2 m2 where t2: "boot_map_region (kern_pgdir t1) UENVS 0x18000 (page2pa e) (PTE_U OR PTE_P) t1 = Inr t2" "m2 \<le> 1"
    "mapped_region t1 t2 d UENVS 24 (page2pa e) (PTE_U OR PTE_P) {955} (drop m2 (drop m1 fl))"
    "stays d t1 (drop m1 fl) t2 (drop m2 (drop m1 fl))"
  proof -
    have "\<exists>t m. boot_map_region (kern_pgdir t1) (UENVS) 0x18000 (page2pa e) (PTE_U OR PTE_P) t1 = Inr t \<and> m \<le> 1 \<and>
        mapped_region t1 t d (UENVS) 24 (page2pa e) (PTE_U OR PTE_P) {955} (drop m (drop m1 fl)) \<and> stays d t1 (drop m1 fl) t (drop m (drop m1 fl))"
      by (rule boot_map_region_ok [OF r1(1-3) kd1 n2(1)]) (use de t1(2) fl in auto)
    thus thesis using that by blast
  qed
  note r2 = mapped_regionD [OF t2(3)]
  note g2 = globals_ofD [OF r2(4)]
  have kd2: "kern_pgdir t2 = page_kva d" using g2(3) kd1 by simp
  obtain t3 m3 where t3: "boot_map_region (kern_pgdir t2) (KSTACKTOP - KSTKSIZE) 0x8000 (page2pa b) (PTE_W OR PTE_P) t2 = Inr t3" "m3 \<le> 1"
    "mapped_region t2 t3 d (KSTACKTOP - KSTKSIZE) 8 (page2pa b) (PTE_W OR PTE_P) {959} (drop m3 (drop m2 (drop m1 fl)))"
    "stays d t2 (drop m2 (drop m1 fl)) t3 (drop m3 (drop m2 (drop m1 fl)))"
  proof -
    have "\<exists>t m. boot_map_region (kern_pgdir t2) (KSTACKTOP - KSTKSIZE) 0x8000 (page2pa b) (PTE_W OR PTE_P) t2 = Inr t \<and> m \<le> 1 \<and>
        mapped_region t2 t d (KSTACKTOP - KSTKSIZE) 8 (page2pa b) (PTE_W OR PTE_P) {959} (drop m (drop m2 (drop m1 fl))) \<and> stays d t2 (drop m2 (drop m1 fl)) t (drop m (drop m2 (drop m1 fl)))"
      by (rule boot_map_region_ok [OF r2(1-3) kd2 n2(2)]) (use ds t1(2) t2(2) fl in auto)
    thus thesis using that by blast
  qed
  note r3 = mapped_regionD [OF t3(3)]
  note g3 = globals_ofD [OF r3(4)]
  have kd3: "kern_pgdir t3 = page_kva d" using g3(3) kd2 by simp
  obtain t m4 where t4: "boot_map_region (kern_pgdir t3) KERNBASE 0x10000000 0 (PTE_W OR PTE_P) t3 = Inr t" "m4 \<le> 64"
    "mapped_region t3 t d KERNBASE 0x10000 0 (PTE_W OR PTE_P) ?K (drop m4 (drop m3 (drop m2 (drop m1 fl))))"
    "stays d t3 (drop m3 (drop m2 (drop m1 fl))) t (drop m4 (drop m3 (drop m2 (drop m1 fl))))"
  proof -
    have "\<exists>t m. boot_map_region (kern_pgdir t3) (KERNBASE) 0x10000000 0 (PTE_W OR PTE_P) t3 = Inr t \<and> m \<le> 64 \<and>
        mapped_region t3 t d (KERNBASE) 0x10000 0 (PTE_W OR PTE_P) ?K (drop m (drop m3 (drop m2 (drop m1 fl)))) \<and> stays d t3 (drop m3 (drop m2 (drop m1 fl))) t (drop m (drop m3 (drop m2 (drop m1 fl))))"
      by (rule boot_map_region_ok [OF r3(1-3) kd3 n2(3)]) (use db cK K955 t1(2) t2(2) t3(2) fl in auto)
    thus thesis using that by blast
  qed
  note r4 = mapped_regionD [OF t4(3)]
  have far: "PGNUM va \<noteq> PGNUM w" if "PDX va \<noteq> PDX w" for va w using PGNUM_PDX that by blast
  have k2: "entry t2 d (PDX w) (PTX w) = entry t1 d (PDX w) (PTX w)" if "PDX w \<noteq> 957" "PDX w \<noteq> 955" for w
    by (rule r2(8) [OF that(1)]) (use de that far in metis)
  have k3: "entry t3 d (PDX w) (PTX w) = entry t2 d (PDX w) (PTX w)" if "PDX w \<noteq> 957" "PDX w \<noteq> 959" for w
    by (rule r3(8) [OF that(1)]) (use ds that far in metis)
  have k4: "entry t d (PDX w) (PTX w) = entry t3 d (PDX w) (PTX w)" if "PDX w \<noteq> 957" "PDX w < 960" for w
    by (rule r4(8) [OF that(1)]) (use db that(2) far in \<open>metis (mono_tags, lifting) mem_Collect_eq leD\<close>)
  have R1: "region t d UPAGES (unat (npages s) div 512) (page2pa p) (PTE_U OR PTE_P)"
  proof (rule region_kept [OF r1(5)])
    fix k assume "k < unat (npages s) div 512"
    hence w: "PDX (nth_page UPAGES k) = 956" using dk nb by simp
    show "entry t d (PDX (nth_page UPAGES k)) (PTX (nth_page UPAGES k)) = entry t1 d (PDX (nth_page UPAGES k)) (PTX (nth_page UPAGES k))"
      using k2 [of "nth_page UPAGES k"] k3 [of "nth_page UPAGES k"] k4 [of "nth_page UPAGES k"] unfolding w by simp
  qed
  have R2: "region t d UENVS 24 (page2pa e) (PTE_U OR PTE_P)"
  proof (rule region_kept [OF r2(5)])
    fix k :: nat assume "k < 24"
    hence w: "PDX (nth_page UENVS k) = 955" by (rule de)
    show "entry t d (PDX (nth_page UENVS k)) (PTX (nth_page UENVS k)) = entry t2 d (PDX (nth_page UENVS k)) (PTX (nth_page UENVS k))"
      using k3 [of "nth_page UENVS k"] k4 [of "nth_page UENVS k"] unfolding w by simp
  qed
  have R3: "region t d (KSTACKTOP - KSTKSIZE) 8 (page2pa b) (PTE_W OR PTE_P)"
  proof (rule region_kept [OF r3(5)])
    fix k :: nat assume "k < 8"
    hence w: "PDX (nth_page (KSTACKTOP - KSTKSIZE) k) = 959" by (rule ds)
    show "entry t d (PDX (nth_page (KSTACKTOP - KSTKSIZE) k)) (PTX (nth_page (KSTACKTOP - KSTKSIZE) k)) =
        entry t3 d (PDX (nth_page (KSTACKTOP - KSTKSIZE) k)) (PTX (nth_page (KSTACKTOP - KSTKSIZE) k))"
      using k4 [of "nth_page (KSTACKTOP - KSTKSIZE) k"] unfolding w by simp
  qed
  have P4: "pde t d i = pde t3 d i" if "i < 1024" "i < 960" for i by (rule r4(6)) (use that in auto)
  have P3: "pde t3 d i = pde t2 d i" if "i < 1024" "i \<noteq> 959" for i by (rule r3(6)) (use that in auto)
  have P2: "pde t2 d i = pde t1 d i" if "i < 1024" "i \<noteq> 955" for i by (rule r2(6)) (use that in auto)
  have P1: "pde t1 d i = pde s d i" if "i < 1024" "i \<noteq> 956" for i by (rule r1(6)) (use that in auto)
  have np0: "\<not> present 0" by (simp add: present_def)
  show ?thesis
  proof (intro exI [of _ t] exI [of _ "m1 + m2 + m3 + m4"] conjI)
    have "PADDR (page_kva p) = Inr (page2pa p)" "PADDR (page_kva e) = Inr (page2pa e)" "PADDR (page_kva b) = Inr (page2pa b)"
      using PADDR_page_kva p(2) e b by blast+
    note pa = this
    have ru: "ROUNDUP (of_nat NENV * sizeof_Env) PGSIZE = 0x18000" "ROUNDUP (0xffffffff - KERNBASE) PGSIZE = 0x10000000"
      by (simp_all add: ROUNDUP_def ROUNDDOWN_def)
    show "map_kernel (page_kva e) (page_kva b) s = Inr t"
      using t1(1) t2(1) t3(1) t4(1) pa p(1) ru by (simp add: map_kernel_def map_object_def)
    show "m1 + m2 + m3 + m4 \<le> 67" using t1(2) t2(2) t3(2) t4(2) by simp
    show "frees t (drop (m1 + m2 + m3 + m4) fl)" using r4(1) by (simp add: add.commute add.left_commute)
    show "globals_of t = globals_of s" using r1(4) r2(4) r3(4) r4(4) by simp
    show "stays d s fl t (drop (m1 + m2 + m3 + m4) fl)"
      using stays_trans [OF stays_trans [OF stays_trans [OF t1(4) t2(4)] t3(4)] t4(4)] by (simp add: add.commute add.left_commute)
    show "\<forall>i < 1024. i < 955 \<or> i = 957 \<or> i = 958 \<longrightarrow> pde t d i = pde s d i"
    proof (intro allI impI)
      fix i :: u32 assume that: "i < 1024" "i < 955 \<or> i = 957 \<or> i = 958"
      have "i < 960" "i \<noteq> 955" "i \<noteq> 956" "i \<noteq> 959" using that(2) order_less_trans [of i 955 960] by auto
      thus "pde t d i = pde s d i" using P1 P2 P3 P4 that(1) by simp
    qed
    show "512 \<le> npages s \<longrightarrow> present (pde t d 956)"
    proof
      assume that: "512 \<le> npages s"
      have "0 < unat (npages s) div 512" using that by (simp add: word_le_nat_alt div_greater_zero_iff)
      moreover have "\<not> present (pde s d (PDX (nth_page UPAGES 0)))" using empty [of 956] dk [of 0] np0 by simp
      ultimately obtain x where "pde t1 d (PDX (nth_page UPAGES 0)) = page2pa x OR 7" using r1(7) by blast
      hence "pde t1 d 956 = page2pa x OR 7" using dk [of 0] by simp
      thus "present (pde t d 956)" using P2 [of 956] P3 [of 956] P4 [of 956] present_or_7 by simp
    qed
    have x955: "\<exists>x. pde t d 955 = page2pa x OR 7"
    proof -
      have "\<not> present (pde t1 d (PDX (nth_page UENVS 0)))" using P1 [of 955] empty [of 955] de [of 0] np0 by simp
      from r2(7) [OF _ this] show ?thesis using de [of 0] P3 [of 955] P4 [of 955] by simp
    qed
    have x959: "\<exists>x. pde t d 959 = page2pa x OR 7"
    proof -
      have "\<not> present (pde t2 d (PDX (nth_page (KSTACKTOP - KSTKSIZE) 0)))"
        using P1 [of 959] P2 [of 959] empty [of 959] ds [of 0] np0 by simp
      from r3(7) [OF _ this] show ?thesis using ds [of 0] P4 [of 959] by simp
    qed
    have xK: "\<exists>x. pde t d i = page2pa x OR 7" if i: "i < 1024" "960 \<le> i" for i
    proof -
      let ?k = "(unat i - 960) * 1024"
      have u: "960 \<le> unat i" "unat i < 1024" using i by (simp_all add: word_le_nat_alt word_less_nat_alt)
      have "unat (PDX (nth_page KERNBASE ?k)) = unat i" using region_dirs(4) [of ?k] u by simp
      hence k: "PDX (nth_page KERNBASE ?k) = i" by (simp add: word_unat_eq_iff)
      have n: "i \<noteq> 959" "i \<noteq> 955" "i \<noteq> 956" "i \<noteq> 957" "955 \<le> i" using i(2) K955 by auto
      have "\<not> present (pde t3 d (PDX (nth_page KERNBASE ?k)))" using n P1 P2 P3 empty [of i] i(1) np0 unfolding k by simp
      from r4(7) [OF _ this] show ?thesis unfolding k using u by simp
    qed
    show "\<forall>i < 1024. i = 955 \<or> i = 959 \<or> 960 \<le> i \<longrightarrow> (\<exists>x. pde t d i = page2pa x OR 7)" using x955 x959 xK by blast
    show "kernel_maps t d p e b" using R1 R2 R3 r4(5) globals_ofD(1) [OF r4(4)] g1(1) g2(1) g3(1) by (simp add: kernel_maps_def)
    show "\<forall>w. PDX w = 956 \<longrightarrow> (\<forall>k < unat (npages s) div 512. PGNUM (nth_page UPAGES k) \<noteq> PGNUM w) \<longrightarrow>
        entry t d (PDX w) (PTX w) = None"
    proof (intro allI impI)
      fix w assume that: "PDX w = 956" "\<forall>k < unat (npages s) div 512. PGNUM (nth_page UPAGES k) \<noteq> PGNUM w"
      have "entry t1 d (PDX w) (PTX w) = entry s d (PDX w) (PTX w)" by (rule r1(8)) (use that in auto)
      moreover have "entry s d (PDX w) (PTX w) = None" using empty [of 956] np0 that(1) by (simp add: entry_def)
      ultimately show "entry t d (PDX w) (PTX w) = None" using k2 [of w] k3 [of w] k4 [of w] that(1) by simp
    qed
    show "entry t d 959 0 = None"
    proof -
      have w: "PDX 0xEFC00000 = 959" "PTX 0xEFC00000 = 0" by (simp_all add: PDX_def PTX_def)
      have "PGNUM (nth_page (KSTACKTOP - KSTKSIZE) k) \<noteq> PGNUM 0xEFC00000" if "k < 8" for k
      proof
        assume "PGNUM (nth_page (KSTACKTOP - KSTKSIZE) k) = PGNUM 0xEFC00000"
        from arg_cong [OF this, of unat] have e: "unat (nth_page (KSTACKTOP - KSTKSIZE) k) div 4096 = 0xEFC00"
          by (simp add: unat_PGNUM)
        have "unat (nth_page (KSTACKTOP - KSTKSIZE) k) = 0xEFFF8000 + k * 4096"
          using that by (simp add: nth_page_def unat_word_ariths unat_of_nat)
        thus False using e by simp
      qed
      hence "entry t3 d (PDX 0xEFC00000) (PTX 0xEFC00000) = entry t2 d (PDX 0xEFC00000) (PTX 0xEFC00000)" by (intro r3(8)) (simp_all add: w)
      moreover have "entry t1 d (PDX 0xEFC00000) (PTX 0xEFC00000) = entry s d (PDX 0xEFC00000) (PTX 0xEFC00000)"
        by (rule r1(8)) (use dk nb far w in auto)
      moreover have "entry s d 959 0 = None" using empty [of 959] np0 by (simp add: entry_def)
      ultimately show ?thesis using k2 [of "0xEFC00000"] k4 [of "0xEFC00000"] by (simp add: w)
    qed
  qed (use r4(2,3) in simp_all)
qed

end
