(* ===== verification/Jos_MemInit.thy ===== *)
theory Jos_MemInit
  imports Jos_BootMap
begin

text \<open>
  \<open>mem_init\<close> of \<open>kern/pmap.c\<close> as a whole: from the contents of the CMOS and an empty kernel to page tables that are
  installed, with every test on the way. With a number of pages that is not a multiple of 512 the array \<open>pages\<close> does not fill its
  last page, \<open>boot_map_region\<close> leaves that page out, and \<open>check_kern_pgdir\<close> panics.
\<close>

section \<open>check_kern_pgdir passes, or finds the pages that are missing\<close>

lemma region_maps_object:
  assumes fr: "frees s fl" and ks: "kspace s d" and kd: "kern_pgdir s = page_kva d"
    and x: "x < 0x10000" "kva = page_kva x" and perm: "perm < 4096" and n: "page_steps sz = n"
    and r: "region s d va n (page2pa x) perm" and v: "\<And>k. k < n \<Longrightarrow> PDX (nth_page va k) \<noteq> 957"
  shows "maps_object sz va kva s = Inr s"
proof -
  have a: "4096 dvd unat (page2pa x)" using page2pa_aligned [of x] x(1) by simp
  have "\<forall>k < n. PDX (nth_page va k) \<noteq> 957 \<and>
      entry s d (PDX (nth_page va k)) (PTX (nth_page va k)) = Some ((page2pa x + of_nat k * PGSIZE) OR perm OR PTE_P)"
    using r v by (simp add: region_def)
  hence "maps_pages n va (page2pa x) s = Inr s" by (rule maps_pages_ok [OF fr ks kd a perm])
  thus ?thesis using PADDR_page_kva [OF x(1)] x(2) n by (simp add: maps_object_def)
qed

lemma unat_page_array: "n \<le> 0x10000 \<Longrightarrow> unat (n * 8 :: u32) = unat n * 8"
  by (simp add: word_le_nat_alt) (subst unat_mult_no_carry; simp)

lemma page_steps_array:
  assumes "n \<le> 0x10000" and "512 dvd unat n"
  shows "page_steps (ROUNDUP (n * 8) PGSIZE) = unat n div 512"
proof -
  have n: "unat n \<le> 0x10000" using assms(1) by (simp add: word_le_nat_alt)
  obtain m where m: "unat n = 512 * m" using assms(2) by (auto simp: dvd_def)
  have "unat (ROUNDUP (n * 8) PGSIZE) = 4096 * m"
    using n by (subst ROUNDUP_unat) (simp_all add: unat_page_array [OF assms(1)] m)
  thus ?thesis by (simp add: page_steps_def m)
qed

definition kernel_dirs :: "kern \<Rightarrow> nat \<Rightarrow> bool" where
  "kernel_dirs s d \<longleftrightarrow> present (pde s d 955) \<and> present (pde s d 956) \<and> present (pde s d 957) \<and> present (pde s d 959) \<and>
     (\<forall>i < 1024. 960 \<le> i \<longrightarrow> present (pde s d i) \<and> pde s d i AND PTE_W \<noteq> 0) \<and>
     (\<forall>i < 1024. i < 955 \<or> i = 958 \<longrightarrow> pde s d i = 0)"

lemma check_kern_pgdir_ok:
  assumes fr: "frees s fl" and ks: "kspace s d" and kd: "kern_pgdir s = page_kva d"
    and p: "pages_kva s = page_kva p" "p < 0x10000" and e: "e < 0x10000" and b: "b < 0x10000"
    and km: "kernel_maps s d p e b" and dirs: "kernel_dirs s d" and st: "entry s d 959 0 = None" and n: "512 dvd unat (npages s)"
  shows "check_kern_pgdir (page_kva e) (page_kva b) s = Inr s"
proof -
  have np: "npages s \<le> 0x10000" "unat (npages s) \<le> 0x10000" using frees_bounds(1,2) [OF fr] by (simp_all add: word_le_nat_alt)
  have pos: "(957 :: u32) \<noteq> 956" "(957 :: u32) \<noteq> 955" "(957 :: u32) \<noteq> 959" by simp_all
  have s1: "maps_object (ROUNDUP (npages s * sizeof_PageInfo) PGSIZE) UPAGES (pages_kva s) s = Inr s"
  proof (rule region_maps_object [OF fr ks kd p(2,1)])
    show "page_steps (ROUNDUP (npages s * sizeof_PageInfo) PGSIZE) = unat (npages s) div 512"
      using page_steps_array [OF np(1) n] by simp
    show "region s d UPAGES (unat (npages s) div 512) (page2pa p) (PTE_U OR PTE_P)" using km by (simp add: kernel_maps_def)
    show "PDX (nth_page UPAGES k) \<noteq> 957" if "k < unat (npages s) div 512" for k using region_dirs(1) [of k] that np(2) by simp
  qed simp
  have s2: "maps_object (ROUNDUP (of_nat NENV * sizeof_Env) PGSIZE) UENVS (page_kva e) s = Inr s"
  proof (rule region_maps_object [OF fr ks kd e refl])
    show "page_steps (ROUNDUP (of_nat NENV * sizeof_Env) PGSIZE) = 24" by (simp add: page_steps_def ROUNDUP_def ROUNDDOWN_def)
    show "region s d UENVS 24 (page2pa e) (PTE_U OR PTE_P)" using km by (simp add: kernel_maps_def)
    show "PDX (nth_page UENVS k) \<noteq> 957" if "k < 24" for k using region_dirs(2) [OF that] by simp
  qed simp
  have s3: "maps_pages (page_steps (npages s * PGSIZE)) KERNBASE 0 s = Inr s"
  proof -
    have "unat (npages s * 0x1000) = unat (npages s) * 0x1000" using np(2) by (subst unat_mult_no_carry) simp_all
    hence "page_steps (npages s * PGSIZE) = unat (npages s)" by (simp add: page_steps_def)
    moreover have "maps_pages (unat (npages s)) KERNBASE 0 s = Inr s"
    proof (rule maps_pages_ok [OF fr ks kd])
      show "\<forall>k < unat (npages s). PDX (nth_page KERNBASE k) \<noteq> 957 \<and> entry s d (PDX (nth_page KERNBASE k)) (PTX (nth_page KERNBASE k)) =
          Some ((0 + of_nat k * PGSIZE) OR (PTE_W OR PTE_P) OR PTE_P)"
      proof (intro allI impI conjI)
        fix k assume "k < unat (npages s)"
        hence k: "k < 0x10000" using np(2) by simp
        show "PDX (nth_page KERNBASE k) \<noteq> 957" using region_dirs(4) [OF k] by (auto simp: word_unat_eq_iff)
        show "entry s d (PDX (nth_page KERNBASE k)) (PTX (nth_page KERNBASE k)) = Some ((0 + of_nat k * PGSIZE) OR (PTE_W OR PTE_P) OR PTE_P)"
          using km k unfolding kernel_maps_def region_def by blast
      qed
    qed simp_all
    ultimately show ?thesis by simp
  qed
  have s4: "maps_object KSTKSIZE (KSTACKTOP - KSTKSIZE) (page_kva b) s = Inr s"
  proof (rule region_maps_object [OF fr ks kd b refl])
    show "page_steps KSTKSIZE = 8" by (simp add: page_steps_def)
    show "region s d (KSTACKTOP - KSTKSIZE) 8 (page2pa b) (PTE_W OR PTE_P)" using km by (simp add: kernel_maps_def)
    show "PDX (nth_page (KSTACKTOP - KSTKSIZE) k) \<noteq> 957" if "k < 8" for k using region_dirs(3) [OF that] by simp
  qed simp
  have w: "PDX (KSTACKTOP - PTSIZE) = 959" "PTX (KSTACKTOP - PTSIZE) = 0" by (simp_all add: PDX_def PTX_def)
  have s5: "translates (KSTACKTOP - PTSIZE) (NOT 0) s = Inr s"
    using kspace_check_va2pa [OF fr ks, of "KSTACKTOP - PTSIZE"] st kd unfolding w
    by (simp add: translates_def ensure_that_def)
  have pe: "pgdir_entry i s = pde s d i" for i using kd by (simp add: pgdir_entry_def pde_def)
  have "pde_permitted s i" if i: "i < 1024" for i
  proof -
    have c: "PDX UVPT = 957" "PDX (KSTACKTOP - 1) = 959" "PDX UPAGES = 956" "PDX UENVS = 955" "PDX KERNBASE = 960" by (simp_all add: PDX_def)
    have "i < 955 \<or> i = 958" if "i \<noteq> 955" "i \<noteq> 956" "i \<noteq> 957" "i \<noteq> 959" "\<not> 960 \<le> i"
      using that by (auto simp: word_le_nat_alt word_less_nat_alt word_unat_eq_iff)
    thus ?thesis using dirs i unfolding pde_permitted_def c pe kernel_dirs_def by auto
  qed
  moreover have "(of_nat j :: u32) < 1024" if "j < 1024" for j using that by (simp add: word_less_nat_alt unat_of_nat)
  ultimately have "list_all (pde_permitted s) (map of_nat [0..<unat NPDENTRIES])" by (auto simp: list_all_iff)
  hence s6: "ensure (\<lambda>s. list_all (pde_permitted s) (map of_nat [0..<unat NPDENTRIES])) s = Inr s" by (simp only: ensure_def if_True)
  show ?thesis
    unfolding check_kern_pgdir_def by (rule steps_Cons, rule s1 s2 s3 s4 s5 s6)+ (rule steps.simps(1))
qed


lemma translates_entry:
  assumes "frees s fl" and "kspace s d" and "kern_pgdir s = page_kva d" and "PDX va \<noteq> 957"
    and "entry s d (PDX va) (PTX va) = Some (pa OR perm OR PTE_P)" and "4096 dvd unat pa" and "perm < 4096"
  shows "translates va pa s = Inr s"
proof -
  have "PTE_ADDR (pa OR (perm OR 1)) = pa" by (rule PTE_ADDR_or_flags [OF assms(6) or_1_less_4096 [OF assms(7)]])
  thus ?thesis using kspace_check_va2pa [OF assms(1,2,4)] assms(3,5) by (simp add: translates_def ensure_that_def or.assoc)
qed

lemma maps_pages_add:
  "maps_pages (m + n) va pa s = maps_pages n (nth_page va m) (pa + of_nat m * PGSIZE) s"
  if "\<And>k. k < m \<Longrightarrow> translates (nth_page va k) (pa + of_nat k * PGSIZE) s = Inr s"
  using that
proof (induction m arbitrary: va pa)
  case (Suc m)
  have "translates va pa s = Inr s" using Suc.prems [of 0] by simp
  moreover have "translates (nth_page (va + PGSIZE) k) (pa + PGSIZE + of_nat k * PGSIZE) s = Inr s" if "k < m" for k
    using Suc.prems [of "Suc k"] that by (simp add: nth_page_Suc algebra_simps)
  ultimately show ?case using Suc.IH [of "va + PGSIZE" "pa + PGSIZE"] by (simp add: nth_page_Suc algebra_simps)
qed simp

text \<open>\<open>boot_map_region\<close> drops the last page of the array when the array does not end at the end of a page.\<close>

lemma check_kern_pgdir_missing:
  assumes fr: "frees s fl" and ks: "kspace s d" and kd: "kern_pgdir s = page_kva d"
    and p: "pages_kva s = page_kva p" "p < 0x10000" and km: "kernel_maps s d p e b" and n: "\<not> 512 dvd unat (npages s)"
    and no: "entry s d 956 (PTX (nth_page UPAGES (unat (npages s) div 512))) = None"
  shows "check_kern_pgdir (page_kva e) (page_kva b) s = Inl failed"
proof -
  let ?n = "unat (npages s) div 512" and ?pa = "page2pa p + of_nat (unat (npages s) div 512) * PGSIZE"
  have np: "npages s \<le> 0x10000" "unat (npages s) \<le> 0x10000" using frees_bounds(1,2) [OF fr] by (simp_all add: word_le_nat_alt)
  have dirs: "PDX (nth_page UPAGES k) = 956" if "k \<le> ?n" for k using region_dirs(1) [of k] that np(2) by simp
  have st: "page_steps (ROUNDUP (npages s * sizeof_PageInfo) PGSIZE) = ?n + 1"
  proof -
    have "unat (ROUNDUP (npages s * 8) PGSIZE) = (unat (npages s) * 8 + 4095) div 4096 * 4096"
      using np by (subst ROUNDUP_unat) (simp_all add: unat_page_array)
    moreover have "(unat (npages s) * 8 + 4095) div 4096 = ?n + 1"
    proof -
      obtain q r where qr: "unat (npages s) = 512 * q + r" "r < 512" using div_mult_mod_eq [of "unat (npages s)" 512]
        by (metis add.commute mod_less_divisor mult.commute zero_less_numeral)
      hence "0 < r" using n by (cases r) simp_all
      thus ?thesis using qr by simp
    qed
    ultimately show ?thesis by (simp add: page_steps_def)
  qed
  have ok: "translates (nth_page UPAGES k) (page2pa p + of_nat k * PGSIZE) s = Inr s" if "k < ?n" for k
  proof -
    have "4096 dvd unat (page2pa p + of_nat k * PGSIZE)"
      using p(2) that np(2) by (simp add: unat_page2pa unat_word_ariths unat_of_nat mod_simps dvd_mod_iff)
    moreover have "entry s d (PDX (nth_page UPAGES k)) (PTX (nth_page UPAGES k)) =
        Some ((page2pa p + of_nat k * PGSIZE) OR (PTE_U OR PTE_P) OR PTE_P)"
      using km that unfolding kernel_maps_def region_def by blast
    moreover have "PDX (nth_page UPAGES k) \<noteq> 957" using dirs [of k] that by simp
    ultimately show ?thesis by (intro translates_entry [OF fr ks kd, where perm = "PTE_U OR PTE_P"]) simp_all
  qed
  have bad: "translates (nth_page UPAGES ?n) ?pa s = Inl failed"
  proof -
    have "check_va2pa (page_kva d) (nth_page UPAGES ?n) s = Inr (NOT 0)"
      using kspace_check_va2pa [OF fr ks, of "nth_page UPAGES ?n"] no dirs [of ?n] by simp
    moreover have "?pa \<noteq> NOT 0"
    proof
      assume "?pa = NOT 0"
      hence "?pa = 4294967295" by simp
      hence "unat ?pa = unat (4294967295 :: u32)" by (rule arg_cong)
      moreover have "unat ?pa = p * 4096 + ?n * 4096"
        using p(2) np(2) by (simp add: unat_page2pa unat_word_ariths unat_of_nat)
      ultimately show False using p(2) np(2) by simp
    qed
    ultimately show ?thesis using kd by (simp add: translates_def ensure_that_def)
  qed
  have "maps_pages (?n + 1) UPAGES (page2pa p) s = Inl failed"
    using maps_pages_add [of ?n UPAGES "page2pa p" s 1] ok bad by simp
  hence "maps_object (ROUNDUP (npages s * sizeof_PageInfo) PGSIZE) UPAGES (pages_kva s) s = Inl failed"
    unfolding maps_object_def st p(1) PADDR_page_kva [OF p(2)] by simp
  thus ?thesis by (simp add: check_kern_pgdir_def)
qed

section \<open>mem_init\<close>

text \<open>
  From the detection of memory to \<open>page_init\<close>: the directory and the arrays are allocated and cleared. The elements of \<open>pages\<close>
  and \<open>envs\<close> are part of the state, not of the memory. The result is the address of \<open>envs\<close>. \<open>kend\<close> is the address of the linker
  symbol \<open>end\<close>.
\<close>

definition boot_structures :: "(u8 \<Rightarrow> u8) \<Rightarrow> u32 \<Rightarrow> kern \<Rightarrow> kerr + (u32 \<times> kern)" where
  "boot_structures cmos kend s =
     (let s = i386_detect_memory cmos s;
          (pgdir, s) = boot_alloc kend PGSIZE s;
          s = s\<lparr>kern_pgdir := pgdir, kmem := memset (kmem s) pgdir 0 PGSIZE\<rparr>
      in res_bind (PADDR pgdir) (\<lambda>pa.
      let s = s\<lparr>kmem := st32 (kmem s) (pgdir + 4 * PDX UVPT) (pa OR PTE_U OR PTE_P)\<rparr>;
          (array, s) = boot_alloc kend (npages s * sizeof_PageInfo) s;
          s = s\<lparr>pages_kva := array, pages := replicate (unat (npages s)) \<lparr>pp_link = None, pp_ref = 0\<rparr>\<rparr>;
          (envs_kva, s) = boot_alloc kend (of_nat NENV * sizeof_Env) s
      in res_bind (page_init kend s) (\<lambda>s. Inr (envs_kva, s))))"

definition CR0_PE :: u32 where [simp]: "CR0_PE = 0x00000001"
definition CR0_MP :: u32 where [simp]: "CR0_MP = 0x00000002"
definition CR0_EM :: u32 where [simp]: "CR0_EM = 0x00000004"
definition CR0_TS :: u32 where [simp]: "CR0_TS = 0x00000008"
definition CR0_NE :: u32 where [simp]: "CR0_NE = 0x00000020"
definition CR0_WP :: u32 where [simp]: "CR0_WP = 0x00010000"
definition CR0_AM :: u32 where [simp]: "CR0_AM = 0x00040000"
definition CR0_PG :: u32 where [simp]: "CR0_PG = 0x80000000"

definition new_cr0 :: "u32 \<Rightarrow> u32" where
  "new_cr0 v = (v OR (CR0_PE OR CR0_PG OR CR0_AM OR CR0_WP OR CR0_NE OR CR0_MP)) AND NOT (CR0_TS OR CR0_EM)"

text \<open>The kernel part of the directory is built, with the tests on the way; then \<open>mem_init\<close> as a whole.\<close>

definition map_memory :: "(u8 \<Rightarrow> u8) \<Rightarrow> u32 \<Rightarrow> u32 \<Rightarrow> kern \<Rightarrow> (kerr + (u32 \<times> kern)) option" where
  "map_memory cmos kend bootstack k =
     then_do (Some (boot_structures cmos kend k)) (\<lambda>(envs_kva, k).
     then_do (check_page_free_list kend True k) (\<lambda>k.
     then_do (check_page_alloc k) (\<lambda>k.
     then_do (Some (steps [check_page, map_kernel envs_kva bootstack] k)) (\<lambda>k. Some (Inr (envs_kva, k))))))"

definition mem_init :: "(u8 \<Rightarrow> u8) \<Rightarrow> u32 \<Rightarrow> u32 \<Rightarrow> ekern \<Rightarrow> (kerr + ekern) option" where
  "mem_init cmos kend bootstack s =
     then_do (map_memory cmos kend bootstack (krn s)) (\<lambda>(envs_kva, k).
     then_do (Some (check_kern_pgdir envs_kva bootstack k)) (\<lambda>k.
     then_do (Some (PADDR (kern_pgdir k))) (\<lambda>pa.
     let s = lcr3 pa (s\<lparr>krn := k, envs := replicate NENV zero_env\<rparr>)
     in then_do (check_page_free_list kend False (krn s)) (\<lambda>k.
        let s = s\<lparr>krn := k, hw := (hw s)\<lparr>cr0 := new_cr0 (cr0 (hw s))\<rparr>\<rparr>
        in then_do (Some (check_page_installed_pgdir (cr3 (hw s)) (krn s))) (\<lambda>k. Some (Inr (s\<lparr>krn := k\<rparr>)))))))"

section \<open>mem_init returns\<close>

lemma page_kva_add:
  assumes "x + m < 0x10000"
  shows "page_kva x + of_nat m * 4096 = page_kva (x + m)"
proof -
  have "unat (page_kva x + of_nat m * 4096) = unat (page_kva (x + m))"
    using assms by (simp add: unat_page_kva unat_word_ariths unat_of_nat)
  thus ?thesis by (simp add: word_unat_eq_iff)
qed

lemma page_kva_neq_0: "x < 0x10000 \<Longrightarrow> page_kva x \<noteq> 0"
  using unat_page_kva [of x] by auto

lemma boot_alloc_next:
  assumes "nextfree s = page_kva x" and "x + m < 0x10000" and "0 < n" and "unat n \<le> m * 4096" and "m * 4096 < unat n + 4096"
  shows "boot_alloc kend n s = (page_kva x, s\<lparr>nextfree := page_kva (x + m)\<rparr>)"
proof -
  have "unat (ROUNDUP n PGSIZE) = (unat n + 4095) div 4096 * 4096"
    using assms(2,4) by (subst ROUNDUP_unat) simp_all
  also have "(unat n + 4095) div 4096 = m" using assms(4,5) by (simp add: div_nat_eqI)
  finally have "ROUNDUP n PGSIZE = of_nat m * 4096"
    using assms(2) by (simp add: word_unat_eq_iff unat_word_ariths unat_of_nat)
  thus ?thesis using assms(1,3) page_kva_neq_0 [of x] assms(2) page_kva_add [OF assms(2)] by (auto simp: boot_alloc_def)
qed

text \<open>The pages of the boot-time allocations: the directory, the array of \<open>n\<close> pages, the environments.\<close>

definition array_pages :: "u32 \<Rightarrow> nat" where
  "array_pages n = (unat n + 511) div 512"

lemma array_pages: "n \<le> 0x10000 \<Longrightarrow> 0 < n \<Longrightarrow> unat (n * 8 :: u32) \<le> array_pages n * 4096 \<and> array_pages n * 4096 < unat (n * 8) + 4096 \<and> 0 < n * 8"
proof -
  assume n: "n \<le> 0x10000" "0 < n"
  have u: "unat (n * 8) = unat n * 8" using unat_page_array [OF n(1)] .
  obtain q r where qr: "unat n + 511 = 512 * q + r" "r < 512" "q = (unat n + 511) div 512"
    by (metis add.commute mod_less_divisor mult.commute mult_div_mod_eq zero_less_numeral)
  hence "array_pages n = q" by (simp add: array_pages_def)
  moreover have "0 < unat n" using n(2) by (simp add: word_less_nat_alt)
  ultimately show ?thesis using qr(1,2) u by (simp add: word_less_nat_alt)
qed

definition booted :: "kern \<Rightarrow> nat \<Rightarrow> nat list \<Rightarrow> bool" where
  "booted s d fl \<longleftrightarrow> frees s fl \<and> aspace s d \<and> kern_pgdir s = page_kva d \<and> d < 0x10000 \<and>
     (\<forall>i < 1024. pde s d i = (if i = 957 then page2pa d OR 5 else 0))"

lemma empty_aspace:
  assumes "d < length (pages s)" and "ref_of s d \<noteq> 0" and "\<And>i. i < 955 \<Longrightarrow> pde s d i = 0"
  shows "aspace s d"
proof (rule aspaceI)
  have np: "\<not> present (pde s d i)" if "i < 955" for i using assms(3) [OF that] by (simp add: present_def)
  fix q assume "q < length (pages s)"
  have "nmaps s d q = 0" unfolding nmaps_def PDX_UTOP using np by (simp add: entry_def cong: conj_cong)
  moreover have "ntabs s d q = 0" unfolding ntabs_def PDX_UTOP using np by (simp cong: conj_cong)
  moreover have "0 < unat (ref_of s d)" using assms(2) by (simp add: unat_gt_0)
  ultimately show "nmaps s d q + ntabs s d q + (if q = d then 1 else 0) \<le> unat (ref_of s q)" by auto
qed (use assms in \<open>auto simp: present_def entry_def\<close>)

lemma boot_structures_ok:
  fixes cmos s
  defines "k \<equiv> i386_detect_memory cmos s"
  assumes start: "nextfree s = 0" "page_free_list s = None" and kend: "ROUNDUP kend PGSIZE = page_kva d" "256 \<le> d"
    and np: "npages k \<le> 0x10000" and base: "npages_basemem k \<le> 160"
    and e: "e = d + 1 + array_pages (npages k)" and ff: "e + 24 \<le> unat (npages k)" "e + 24 < 0x10000"
  obtains t where "boot_structures cmos kend s = Inr (page_kva e, t)"
    "booted t d (rev [e + 24..<unat (npages k)] @ rev [1..<unat (npages_basemem k)])"
    "pages_kva t = page_kva (d + 1)" "nextfree t = page_kva (e + 24)" "npages t = npages k"
    "outside {d} s t"
proof -
  let ?a = "array_pages (npages k)"
  have k: "nextfree k = 0" "page_free_list k = None" using start by (simp_all add: k_def i386_detect_memory_def Let_def)
  have d: "d < 0x10000" "d + 1 < 0x10000" "d + 1 + ?a < 0x10000" using ff e by simp_all
  have ke: "page_kva d \<noteq> 0" using page_kva_neq_0 [OF d(1)] .
  have "ROUNDUP PGSIZE PGSIZE = 0x1000" by (simp add: ROUNDUP_def ROUNDDOWN_def)
  hence b1: "boot_alloc kend PGSIZE k = (page_kva d, k\<lparr>nextfree := page_kva (d + 1)\<rparr>)"
    using k(1) kend(1) page_kva_add [of d 1] d by (simp add: boot_alloc_def)
  define k2 where "k2 = k\<lparr>nextfree := page_kva (d + 1), kern_pgdir := page_kva d,
    kmem := st32 (memset (kmem k) (page_kva d) 0 PGSIZE) (page_kva d + 4 * PDX UVPT) (page2pa d OR PTE_U OR PTE_P)\<rparr>"
  have np0: "0 < npages k" using ff(1) by (auto simp: word_less_nat_alt)
  have b2: "boot_alloc kend (npages k * 8) k2 = (page_kva (d + 1), k2\<lparr>nextfree := page_kva (d + 1 + ?a)\<rparr>)"
    by (rule boot_alloc_next) (use array_pages [OF np np0] d in \<open>simp_all add: k2_def\<close>)
  define k3 where "k3 = k2\<lparr>nextfree := page_kva e, pages_kva := page_kva (d + 1),
    pages := replicate (unat (npages k)) \<lparr>pp_link = None, pp_ref = 0\<rparr>\<rparr>"
  have b3: "boot_alloc kend (of_nat NENV * sizeof_Env) k3 = (page_kva e, k3\<lparr>nextfree := page_kva (e + 24)\<rparr>)"
    by (rule boot_alloc_next) (use ff in \<open>simp_all add: k3_def\<close>)
  define k4 where "k4 = k3\<lparr>nextfree := page_kva (e + 24)\<rparr>"
  have len: "length (pages k4) = unat (npages k4)" "npages k4 = npages k" "npages_basemem k4 = npages_basemem k"
    by (simp_all add: k4_def k3_def k2_def)
  have np256: "256 \<le> npages k4" using ff(1) e kend(2) len by (simp add: word_le_nat_alt)
  have "\<exists>s'. page_init kend k4 = Inr s' \<and> same_globals k4 s'
     \<and> frees s' (rev [e + 24..<unat (npages k4)] @ rev [1..<unat (npages_basemem k4)])
     \<and> (\<forall>j < length (pages k4). ref_of s' j = (if j = 0 \<or> 160 \<le> j \<and> j < e + 24 then 1 else 0))"
  proof (rule page_init_frees [OF len(1) _ np256])
    show "page_free_list k4 = None" using k(2) by (simp add: k4_def k3_def k2_def)
    show "\<forall>i<length (pages k4). link_of k4 i = None \<and> ref_of k4 i = 0" by (simp add: k4_def k3_def k2_def link_of_def ref_of_def)
  qed (use np base ff e kend(2) len in \<open>simp_all add: k4_def\<close>)
  then obtain t where t: "page_init kend k4 = Inr t" "same_globals k4 t"
    "frees t (rev [e + 24..<unat (npages k)] @ rev [1..<unat (npages_basemem k)])"
    "\<forall>j < unat (npages k). ref_of t j = (if j = 0 \<or> 160 \<le> j \<and> j < e + 24 then 1 else 0)"
    using len by auto
  show thesis
  proof (rule that [of t])
    show "boot_structures cmos kend s = Inr (page_kva e, t)"
      using b1 b2 b3 t(1) PADDR_page_kva [OF d(1)]
      by (simp add: boot_structures_def k_def [symmetric] Let_def k2_def k3_def k4_def e)
    have m: "kmem t = st32 (\<lambda>a. if in_page d a then 0 else kmem k a) (page_kva d + 4 * 957) (page2pa d OR 5)"
      using t(2) memset_page_zero [of "kmem k" d] by (simp add: same_globals_def k4_def k3_def k2_def or.assoc)
    have pd: "pde t d i = (if i = 957 then page2pa d OR 5 else 0)" if "i < 1024" for i
      unfolding pde_def m using ld32_st32_slot [OF d(1) d(1) _ that, of 957] ld32_zero_page [OF d(1) d(1) that] by simp
    have dl: "d < unat (npages k)" using ff(1) e by simp
    have "length (pages t) = unat (npages k)" using t(2) len by (simp add: same_globals_def)
    moreover have "ref_of t d = 1" using t(4) dl kend(2) e by simp
    ultimately have "aspace t d" using pd less_955_1024 dl by (intro empty_aspace) auto
    moreover have "kern_pgdir t = page_kva d" using t(2) by (simp add: same_globals_def k4_def k3_def k2_def)
    ultimately show "booted t d (rev [e + 24..<unat (npages k)] @ rev [1..<unat (npages_basemem k)])"
      using t(3) pd d(1) by (simp add: booted_def)
    have "kmem k = kmem s" by (simp add: k_def i386_detect_memory_def Let_def)
    thus "outside {d} s t"
      unfolding outside_def m using ld32_st32_slot [OF d(1), of _ 957] ld32_zero_page [of _ d] d(1) by auto
  qed (use t(2) in \<open>simp_all add: same_globals_def k4_def k3_def k2_def\<close>)
qed


text \<open>Only free pages have been written.\<close>

lemma booted_kept:
  assumes b: "booted s d fl" and g: "globals_of t = globals_of s" and rf: "\<And>q. q < length (pages s) \<Longrightarrow> ref_of t q = ref_of s q"
    and o: "outside X s t" "X \<subseteq> set fl" and fr: "frees t fl'"
  shows "booted t d fl'"
proof -
  have bs: "frees s fl" "aspace s d" "kern_pgdir s = page_kva d" "d < 0x10000"
    "\<And>i. i < 1024 \<Longrightarrow> pde s d i = (if i = 957 then page2pa d OR 5 else 0)" using b by (simp_all add: booted_def)
  have nt: "\<not> is_table s d x" if "x \<in> X" for x
    by (rule unused_no_table [OF bs(2)]) (use that o(2) bs(1) in \<open>auto simp: frees_def\<close>)
  have l16: "length (pages s) \<le> 0x10000" using frees_bounds(2) [OF bs(1)] .
  have pd: "pde t d i = pde s d i" if "i < 1024" for i by (rule other_page(1) [OF bs(2) l16 nt o(1) that])
  have "aspace t d" by (rule aspace_outside [OF bs(2) l16 globals_ofD(6) [OF g] nt o(1)]) (use rf in auto)
  thus ?thesis using bs pd fr globals_ofD(3) [OF g] by (simp add: booted_def)
qed

lemma booted_kspace: "booted s d fl \<Longrightarrow> kspace s d"
  by (rule kspaceI) (auto simp: booted_def present_def)

lemma low_page_iff: "x < 0x10000 \<Longrightarrow> low_page 1 x \<longleftrightarrow> x < 1024"
proof -
  assume x: "x < 0x10000"
  have "unat (PDX (page2pa x)) = x * 4096 div 4194304" using x by (simp add: unat_PDX unat_page2pa)
  also have "\<dots> = x div 1024" using div_mult_mult2 [of 4096 x 1024] by simp
  finally have "PDX (page2pa x) = 0 \<longleftrightarrow> x < 1024" by (simp add: word_unat_eq_iff div_eq_0_iff)
  thus ?thesis by (simp add: low_page_def)
qed

text \<open>The free list after it has been sorted begins with the pages between the boot-time allocations and 4 MB.\<close>

lemma sorted_free_list:
  assumes "ff \<le> 1024" and "1024 \<le> np" and "np \<le> 0x10000" and "1 < nb" and "nb \<le> 160"
  defines "fl \<equiv> rev [ff..<np] @ rev [1..<nb]"
  obtains ys where "filter (low_page 1) fl @ filter (\<lambda>x. \<not> low_page 1 x) fl = rev [ff..<1024] @ ys" "1 \<in> set ys"
proof -
  have lp: "filter (low_page 1) fl = filter (\<lambda>x. x < 1024) fl"
    by (rule filter_cong [OF refl], rule low_page_iff) (use assms(3,5) in \<open>auto simp: fl_def\<close>)
  have "[ff..<np] = [ff..<1024] @ [1024..<np]" using assms(1,2) upt_add_eq_append [of ff 1024 "np - 1024"] by simp
  hence "filter (\<lambda>x. x < 1024) fl = rev [ff..<1024] @ filter (\<lambda>x. x < 1024) (rev [1024..<np] @ rev [1..<nb])"
    by (simp add: fl_def rev_filter [symmetric])
  moreover have "1 \<in> set (filter (\<lambda>x. x < 1024) (rev [1024..<np] @ rev [1..<nb]))" using assms(4) by simp
  ultimately show thesis using that lp by simp
qed


text \<open>
  The hypotheses about the machine: at least 4 MB of memory, at most 256 MB, base memory as the firmware reports it, and a
  kernel image that, with the boot-time allocations, leaves room for 71 pages below 4 MB (the part that the first page
  tables map). \<open>d\<close>, \<open>d + 1\<close> and \<open>e\<close> are the pages of the directory, of \<open>pages\<close> and of \<open>envs\<close>.
\<close>

definition bootable :: "(u8 \<Rightarrow> u8) \<Rightarrow> u32 \<Rightarrow> kern \<Rightarrow> nat \<Rightarrow> nat \<Rightarrow> bool" where
  "bootable cmos kend s d e \<longleftrightarrow>
     nextfree s = 0 \<and> page_free_list s = None \<and> ROUNDUP kend PGSIZE = page_kva d \<and> 256 \<le> d \<and>
     (let k = i386_detect_memory cmos s in
        1024 \<le> npages k \<and> npages k \<le> 0x10000 \<and> 2 \<le> npages_basemem k \<and> npages_basemem k \<le> 160 \<and>
        e = d + 1 + array_pages (npages k) \<and> e + 24 + 71 \<le> 1024)"

lemma free_pages_subset:
  assumes "free_pages_ok s fl" and "set fl' \<subseteq> set fl" and "nextfree t = nextfree s"
    and "q \<in> set fl'" "256 \<le> q" and "r \<in> set fl'" "r < 256"
  shows "free_pages_ok t fl'"
  using assms unfolding free_pages_ok_def by (metis subsetD)

text \<open>The pages from 1 MB to the boot-time allocations, where the image of the kernel is, stay in use and are not written.\<close>

definition image_kept :: "nat \<Rightarrow> nat list \<Rightarrow> kern \<Rightarrow> kern \<Rightarrow> bool" where
  "image_kept d fl s t \<longleftrightarrow> (\<forall>q. 256 \<le> q \<and> q < d \<longrightarrow> q \<notin> set fl \<and> (\<forall>a. in_page q a \<longrightarrow> kmem t a = kmem s a))"

lemma image_kept_trans: "image_kept d fl s t \<Longrightarrow> image_kept d fl' t u \<Longrightarrow> image_kept d fl' s u"
  unfolding image_kept_def by metis

lemma image_kept_outside:
  assumes "outside X s t" and "\<And>q. 256 \<le> q \<Longrightarrow> q < d \<Longrightarrow> q < 0x10000 \<and> q \<notin> X \<and> q \<notin> set fl"
  shows "image_kept d fl s t"
  unfolding image_kept_def using assms outside_byte [OF assms(1)] by metis

lemma map_memory_ok:
  assumes ok: "bootable cmos kend s d e" and b: "b < 0x10000"
  obtains t fl where "map_memory cmos kend (page_kva b) s = Some (Inr (page_kva e, t))" "frees t fl" "aspace t d" "kspace t d"
    "kern_pgdir t = page_kva d" "pages_kva t = page_kva (d + 1)" "nextfree t \<noteq> 0" "npages t = npages (i386_detect_memory cmos s)"
    "free_pages_ok t fl" "3 \<le> length fl" "kernel_maps t d (d + 1) e b" "kernel_dirs t d" "entry t d 959 0 = None"
    "\<forall>w. PDX w = 956 \<longrightarrow> (\<forall>k < unat (npages t) div 512. PGNUM (nth_page UPAGES k) \<noteq> PGNUM w) \<longrightarrow> entry t d (PDX w) (PTX w) = None"
    "image_kept d fl s t" "unat (npages (i386_detect_memory cmos s)) \<le> length fl + (e + 91)"
proof -
  let ?k = "i386_detect_memory cmos s"
  define np where "np = unat (npages ?k)"
  define nb where "nb = unat (npages_basemem ?k)"
  have h: "nextfree s = 0" "page_free_list s = None" "ROUNDUP kend PGSIZE = page_kva d" "256 \<le> d" "npages ?k \<le> 0x10000"
    "1024 \<le> npages ?k" "npages_basemem ?k \<le> 160" "2 \<le> npages_basemem ?k" "e = d + 1 + array_pages (npages ?k)" "e + 24 + 71 \<le> 1024"
    using ok by (simp_all add: bootable_def Let_def)
  have np: "1024 \<le> np" "np \<le> 0x10000" "1 < nb" "nb \<le> 160" using h by (simp_all add: np_def nb_def word_le_nat_alt)
  define ff where "ff = e + 24"
  have ff: "256 < ff" "ff + 71 \<le> 1024" using h(4,9,10) by (simp_all add: ff_def)
  define fl where "fl = rev [ff..<np] @ rev [1..<nb]"
  obtain k0 where k0: "boot_structures cmos kend s = Inr (page_kva e, k0)" "booted k0 d fl" "pages_kva k0 = page_kva (d + 1)"
    "nextfree k0 = page_kva ff" "npages k0 = npages ?k" "outside {d} s k0"
    by (rule boot_structures_ok [OF h(1-5) h(7) h(9)]) (use np ff in \<open>auto simp: fl_def ff_def np_def nb_def\<close>)
  have b0: "frees k0 fl" using k0(2) by (simp add: booted_def)
  have nf: "nextfree k0 \<noteq> 0" using k0(4) page_kva_neq_0 [of ff] ff by simp
  have fo: "free_pages_ok k0 fl"
    unfolding free_pages_ok_def
  proof (intro conjI ballI)
    fix x assume x: "x \<in> set fl"
    hence r: "ff \<le> x \<and> x < np \<or> 1 \<le> x \<and> x < nb" by (auto simp: fl_def)
    thus "x \<notin> {0, 160, 255, 256}" using ff np by auto
    have "page_kva ff \<le> page_kva x" if "256 \<le> x"
    proof -
      have "ff \<le> x" "x < 0x10000" using r that np by auto
      thus ?thesis using unat_page_kva [of ff] unat_page_kva [of x] by (simp add: word_le_nat_alt)
    qed
    thus "256 \<le> x \<longrightarrow> nextfree k0 \<le> page_kva x" using k0(4) by simp
  next
    show "\<exists>x \<in> set fl. x < 256" using np by (intro bexI [of _ 1]) (auto simp: fl_def)
    show "\<exists>x \<in> set fl. 256 \<le> x" using np ff by (intro bexI [of _ ff]) (auto simp: fl_def)
  qed
  have "ff \<le> 1024" using ff by simp
  then obtain ys where ys: "filter (low_page 1) fl @ filter (\<lambda>x. \<not> low_page 1 x) fl = rev [ff..<1024] @ ys" "1 \<in> set ys"
    using sorted_free_list [of ff np nb] np unfolding fl_def by blast
  obtain k1 where k1: "check_page_free_list kend True k0 = Some (Inr k1)" "frees k1 (rev [ff..<1024] @ ys)"
    "globals_of k1 = globals_of k0" "\<And>q. ref_of k1 q = ref_of k0 q" "\<And>a. (\<And>x. x \<in> set fl \<Longrightarrow> \<not> in_page x a) \<Longrightarrow> kmem k1 a = kmem k0 a"
    by (rule check_page_free_list_passes [OF b0 fo nf, of kend True]) (simp add: ys(1))
  have o1: "outside (set fl) k0 k1" by (rule outsideI) (use k1(5) frees_bounds(4) [OF b0] in auto)
  hence b1: "booted k1 d (rev [ff..<1024] @ ys)" by (rule booted_kept [OF k0(2) k1(3) k1(4) _ subset_refl k1(2)])
  have sub: "set (rev [ff..<1024] @ ys) \<subseteq> set fl" using ys(1) by (metis filter_is_subset le_sup_iff set_append)
  define as where "as = rev [ff..<1021] @ ys"
  have "[ff..<1024] = [ff..<1021] @ [1021..<1024]" using ff upt_add_eq_append [of ff 1021 3] by simp
  hence xs: "rev [ff..<1024] @ ys = 1023 # 1022 # 1021 # as" by (simp add: as_def upt_rec)
  have f1: "frees k1 (1023 # 1022 # 1021 # as)" using k1(2) unfolding xs .
  have g1: "pages_kva k1 = page_kva (d + 1)" using globals_ofD(4) [OF k1(3)] k0(3) by simp
  have "pages_kva k1 \<noteq> 0" using g1 page_kva_neq_0 [of "d + 1"] h(9,10) by simp
  then obtain k2 where k2: "check_page_alloc k1 = Some (Inr k2)" "frees k2 (1023 # 1022 # 1021 # as)" "globals_of k2 = globals_of k1"
    "\<And>q. q < length (pages k1) \<Longrightarrow> ref_of k2 q = ref_of k1 q" "\<And>a. kmem k2 a = (if in_page 1021 a then 0 else kmem k1 a)"
    by (rule check_page_alloc_result [OF f1]) blast
  have o2: "outside {1021} k1 k2" by (rule outsideI) (use k2(5) in auto)
  have b2: "booted k2 d (1023 # 1022 # 1021 # as)"
    by (rule booted_kept [OF b1 k2(3,4) o2 _ k2(2)]) (use xs in auto)
  have b2': "aspace k2 d" "kern_pgdir k2 = page_kva d" "pde k2 d 0 = 0" "pde k2 d 1 = 0" using b2 by (simp_all add: booted_def)
  obtain k3 where k3: "check_page k2 = Inr k3" "frees k3 (1021 # 1022 # 1023 # as)" "aspace k3 d" "globals_of k3 = globals_of k2"
    "\<And>i. i < 1024 \<Longrightarrow> pde k3 d i = pde k2 d i" "outside {d, 1023, 1022, 1021} k2 k3"
    by (rule check_page_result [OF k2(2) b2']) blast
  let ?L = "1021 # 1022 # 1023 # as"
  have d16: "d < 0x10000" "d + 1 < 0x10000" "e < 0x10000" using h(9,10) by simp_all
  have kd3: "kern_pgdir k3 = page_kva d" using globals_ofD(3) [OF k3(4)] b2'(2) by simp
  have b3: "booted k3 d ?L" using k3(2,3,5) kd3 d16(1) b2 by (simp add: booted_def)
  have ks3: "kspace k3 d" by (rule booted_kspace [OF b3])
  have pd3: "pde k3 d i = (if i = 957 then page2pa d OR 5 else 0)" if "i < 1024" for i using b3 that by (simp add: booted_def)
  have p3: "pages_kva k3 = page_kva (d + 1)" using globals_ofD(4) [OF k3(4)] globals_ofD(4) [OF k2(3)] g1 by simp
  have e3: "pde k3 d i = 0" if "i < 1024" "955 \<le> i" "i \<noteq> 957" for i using pd3 that by simp
  have "67 \<le> length ?L" using ff by (simp add: as_def)
  note mk = map_kernel_ok [OF k3(2,3) ks3 kd3 this p3 d16(2,3) b e3]
  obtain t m where t: "map_kernel (page_kva e) (page_kva b) k3 = Inr t" "m \<le> 67" "frees t (drop m ?L)" "aspace t d" "kspace t d"
    "globals_of t = globals_of k3" "kernel_maps t d (d + 1) e b" "entry t d 959 0 = None"
    "\<forall>i < 1024. i < 955 \<or> i = 957 \<or> i = 958 \<longrightarrow> pde t d i = pde k3 d i" "512 \<le> npages k3 \<longrightarrow> present (pde t d 956)"
    "\<forall>i < 1024. i = 955 \<or> i = 959 \<or> 960 \<le> i \<longrightarrow> (\<exists>x. pde t d i = page2pa x OR 7)"
    "\<forall>w. PDX w = 956 \<longrightarrow> (\<forall>k < unat (npages k3) div 512. PGNUM (nth_page UPAGES k) \<noteq> PGNUM w) \<longrightarrow> entry t d (PDX w) (PTX w) = None"
    "stays d k3 ?L t (drop m ?L)"
    using mk by blast
  have gt: "globals_of t = globals_of k0" using t(6) k3(4) k2(3) k1(3) by simp
  note gd = globals_ofD [OF gt]
  have t9: "pde t d i = pde k3 d i" if "i < 1024" "i < 955 \<or> i = 957 \<or> i = 958" for i using t(9) that by blast
  have g3: "npages k3 = npages t" using globals_ofD(1) [OF t(6)] by simp
  define hs where "hs = 1021 # 1022 # 1023 # rev [ff..<1021]"
  have hs: "?L = hs @ ys" "m < length hs" "\<forall>q \<in> set hs. 256 \<le> q" using t(2) ff by (auto simp: hs_def as_def)
  hence drop: "drop m ?L = drop m hs @ ys" by simp
  have im: "q < 0x10000 \<and> q \<notin> set fl \<and> q \<notin> {1021, 1022, 1023} \<and> q \<noteq> d \<and> q \<notin> set ?L" if "256 \<le> q" "q < d" for q
  proof -
    have "d + 24 < ff" using h(9) by (simp add: ff_def)
    hence "q \<notin> set fl" "q \<notin> {1021, 1022, 1023}" "q < 0x10000" using that np ff by (auto simp: fl_def)
    moreover have "set ?L = set (1023 # 1022 # 1021 # as)" by auto
    ultimately show ?thesis using sub that unfolding xs by auto
  qed
  have i3: "image_kept d ?L k2 k3" by (rule image_kept_outside [OF k3(6)]) (use im in auto)
  have "image_kept d ?L k3 t"
    unfolding image_kept_def
  proof (intro allI impI conjI)
    fix q assume q: "256 \<le> q \<and> q < d"
    have "idle k3 d ?L q" using im q e3 pd3 unfolding idle_def by (auto simp: present_def)
    thus "kmem t a = kmem k3 a" if "in_page q a" for a using t(13) that unfolding stays_def by blast
    show "q \<notin> set ?L" using im q by simp
  qed
  moreover have "image_kept d fl s k0" "image_kept d fl k0 k1" "image_kept d fl k1 k2"
    by (rule image_kept_outside [OF k0(6)] image_kept_outside [OF o1] image_kept_outside [OF o2], use im in auto)+
  ultimately have image: "image_kept d ?L s t" using i3 image_kept_trans by metis
  have "length (rev [ff..<1024] @ ys) = length fl" unfolding ys(1) [symmetric] by (simp add: sum_length_filter_compl)
  hence ln: "length ?L = np - ff + (nb - 1)" by (simp add: xs fl_def)
  show thesis
  proof (rule that [of t "drop m ?L"])
    show "unat (npages ?k) \<le> length (drop m ?L) + (e + 91)"
      using t(2) np by (simp only: length_drop ln np_def [symmetric]) (simp add: ff_def)
    show "image_kept d (drop m ?L) s t" using image set_drop_subset [of m ?L] unfolding image_kept_def by blast
    show "map_memory cmos kend (page_kva b) s = Some (Inr (page_kva e, t))"
      using k0(1) k1(1) k2(1) k3(1) t(1) by (simp add: map_memory_def)
    show "nextfree t \<noteq> 0" using gd(5) nf by simp
    show "3 \<le> length (drop m ?L)" using t(2) ff by (simp add: as_def)
    show "free_pages_ok t (drop m ?L)"
    proof -
      have "set (drop m ?L) \<subseteq> set ?L" by (rule set_drop_subset)
      also have "\<dots> = set (1023 # 1022 # 1021 # as)" by auto
      also have "\<dots> \<subseteq> set fl" using sub unfolding xs .
      finally have s: "set (drop m ?L) \<subseteq> set fl" .
      have "drop m hs \<noteq> []" using hs(2) by simp
      then obtain q where q: "q \<in> set (drop m hs)" by (meson list.set_sel(1))
      hence "256 \<le> q" using hs(3) in_set_dropD by fast
      moreover have "q \<in> set (drop m ?L)" using q drop by simp
      moreover have o: "1 \<in> set (drop m ?L)" using ys(2) drop by simp
      ultimately show ?thesis using free_pages_subset [OF fo s gd(5) _ _ o] by simp
    qed
    show "kernel_dirs t d"
    proof -
      have f: "present (page2pa x OR 7)" "(page2pa x OR 7) AND PTE_W \<noteq> 0" for x using present_or_7 by (simp_all add: flags_of_pte)
      have "512 \<le> npages k3" using g3 gd(1) k0(5) h(6) by (simp add: word_le_nat_alt)
      moreover have "pde t d 957 = (page2pa d OR 4) OR 1" using t9 [of 957] pd3 [of 957] by (simp add: or.assoc)
      hence "present (pde t d 957)" by (simp only: present_or_P)
      moreover have "pde t d i = 0" if "i < 1024" "i < 955 \<or> i = 958" for i
        using t9 [of i] pd3 [of i] that by auto
      moreover have "present (pde t d i) \<and> pde t d i AND PTE_W \<noteq> 0" if "i < 1024" "i = 955 \<or> i = 959 \<or> 960 \<le> i" for i
        using t(11) f that by metis
      ultimately show ?thesis using t(10) unfolding kernel_dirs_def by simp
    qed
    show "\<forall>w. PDX w = 956 \<longrightarrow> (\<forall>k < unat (npages t) div 512. PGNUM (nth_page UPAGES k) \<noteq> PGNUM w) \<longrightarrow>
        entry t d (PDX w) (PTX w) = None" using t(12) unfolding g3 .
    show "kern_pgdir t = page_kva d" using globals_ofD(3) [OF t(6)] kd3 by simp
    show "pages_kva t = page_kva (d + 1)" using gd(4) k0(3) by simp
    show "npages t = npages ?k" using gd(1) k0(5) by simp
  qed (use t in simp_all)
qed



lemma kspace_outside:
  assumes ks: "kspace s d" and len: "length (pages s) \<le> 0x10000" and o: "outside X s t"
    and pd: "\<And>i. i < 1024 \<Longrightarrow> pde t d i = pde s d i"
    and X: "\<And>i. i < 1024 \<Longrightarrow> i \<noteq> 957 \<Longrightarrow> present (pde s d i) \<Longrightarrow> pt_page (pde s d i) \<notin> X"
    and ij: "i < 1024" "j < 1024" "i \<noteq> 957"
  shows "entry t d i j = entry s d i j"
proof (cases "present (pde s d i)")
  case True
  have "pt_page (pde s d i) < 0x10000" using kspaceD(2) [OF ks ij(1,3) True] len by simp
  hence "ld32 (kmem t) (slot s d i j) = ld32 (kmem s) (slot s d i j)" using o X [OF ij(1,3) True] ij(2) by (simp add: outside_def slot_def)
  thus ?thesis using pd [OF ij(1)] by (simp add: entry_def slot_def)
qed (use pd [OF ij(1)] in \<open>simp add: entry_def\<close>)

lemma kernel_maps_kept:
  assumes km: "kernel_maps s d p e b" and np: "npages t = npages s" "npages s \<le> 0x10000"
    and en: "\<And>i j. i < 1024 \<Longrightarrow> j < 1024 \<Longrightarrow> i \<noteq> 957 \<Longrightarrow> entry t d i j = entry s d i j"
  shows "kernel_maps t d p e b"
proof -
  have n: "unat (npages s) div 512 \<le> 128" using np(2) by (simp add: word_le_nat_alt)
  have k: "PDX (nth_page KERNBASE k) \<noteq> 957" if "k < 0x10000" for k using region_dirs(4) [OF that] by (auto simp: word_unat_eq_iff)
  have "region t d UPAGES (unat (npages s) div 512) (page2pa p) (PTE_U OR PTE_P)"
    by (rule region_kept [where s = s]) (use km region_dirs(1) n en in \<open>auto simp: kernel_maps_def\<close>)
  moreover have "region t d UENVS 24 (page2pa e) (PTE_U OR PTE_P)"
    by (rule region_kept [where s = s]) (use km region_dirs(2) en in \<open>auto simp: kernel_maps_def\<close>)
  moreover have "region t d (KSTACKTOP - KSTKSIZE) 8 (page2pa b) (PTE_W OR PTE_P)"
    by (rule region_kept [where s = s]) (use km region_dirs(3) en in \<open>auto simp: kernel_maps_def\<close>)
  moreover have "region t d KERNBASE 0x10000 0 (PTE_W OR PTE_P)"
    by (rule region_kept [where s = s]) (use km k en in \<open>auto simp: kernel_maps_def\<close>)
  ultimately show ?thesis by (simp add: kernel_maps_def np(1))
qed

text \<open>The state of the kernel when \<open>mem_init\<close> has returned.\<close>

definition memory_ready :: "kern \<Rightarrow> nat \<Rightarrow> nat \<Rightarrow> nat \<Rightarrow> nat list \<Rightarrow> bool" where
  "memory_ready s d e b fl \<longleftrightarrow> frees s fl \<and> aspace s d \<and> kspace s d \<and> kern_pgdir s = page_kva d \<and> pages_kva s = page_kva (d + 1) \<and>
     kernel_maps s d (d + 1) e b \<and> (\<forall>i < 955. pde s d i = 0) \<and> free_pages_ok s fl \<and> 3 \<le> length fl"

lemma mem_init_result:
  assumes ok: "bootable cmos kend (krn s) d e" and b: "b < 0x10000"
  shows "512 dvd unat (npages (i386_detect_memory cmos (krn s))) \<Longrightarrow>
      \<exists>u fl. mem_init cmos kend (page_kva b) s = Some (Inr (s\<lparr>krn := u, envs := replicate NENV zero_env,
          hw := (hw s)\<lparr>cr3 := page2pa d, cr0 := new_cr0 (cr0 (hw s))\<rparr>\<rparr>)) \<and>
        memory_ready u d e b fl \<and> image_kept d fl (krn s) u \<and>
        unat (npages (i386_detect_memory cmos (krn s))) \<le> length fl + (e + 91)"
    and "\<not> 512 dvd unat (npages (i386_detect_memory cmos (krn s))) \<Longrightarrow>
      mem_init cmos kend (page_kva b) s = Some (Inl failed)"
proof -
  obtain t fl where t: "map_memory cmos kend (page_kva b) (krn s) = Some (Inr (page_kva e, t))" "frees t fl" "aspace t d" "kspace t d"
    "kern_pgdir t = page_kva d" "pages_kva t = page_kva (d + 1)" "nextfree t \<noteq> 0" "npages t = npages (i386_detect_memory cmos (krn s))"
    "free_pages_ok t fl" "3 \<le> length fl" "kernel_maps t d (d + 1) e b" "kernel_dirs t d" "entry t d 959 0 = None"
    "\<forall>w. PDX w = 956 \<longrightarrow> (\<forall>k < unat (npages t) div 512. PGNUM (nth_page UPAGES k) \<noteq> PGNUM w) \<longrightarrow> entry t d (PDX w) (PTX w) = None"
    "image_kept d fl (krn s) t" "unat (npages (i386_detect_memory cmos (krn s))) \<le> length fl + (e + 91)"
    by (rule map_memory_ok [OF ok b]) blast
  have de: "d + 1 < 0x10000" "e < 0x10000" "d < 0x10000" using ok by (auto simp: bootable_def Let_def)
  have np: "npages t \<le> 0x10000" "unat (npages t) \<le> 0x10000" using frees_bounds(1,2) [OF t(2)] by (simp_all add: word_le_nat_alt)
  have l16: "length (pages t) \<le> 0x10000" using frees_bounds(2) [OF t(2)] .
  show "mem_init cmos kend (page_kva b) s = Some (Inl failed)" if n: "\<not> 512 dvd unat (npages (i386_detect_memory cmos (krn s)))"
  proof -
    let ?n = "unat (npages t) div 512" and ?w = "nth_page UPAGES (unat (npages t) div 512)"
    have w: "PDX ?w = 956" using region_dirs(1) [of ?n] np(2) by simp
    have "PGNUM (nth_page UPAGES k) \<noteq> PGNUM ?w" if "k < ?n" for k
    proof -
      have "nth_page (nth_page UPAGES k) (?n - k) = ?w" using that by (simp add: nth_page_def algebra_simps flip: of_nat_add) 
      moreover have "?n - k < 0x100000" using np(2) by (simp add: less_imp_diff_less div_less_iff_less_mult)
      ultimately show ?thesis using nth_page_other [of "?n - k" "nth_page UPAGES k"] that by auto
    qed
    hence "entry t d 956 (PTX ?w) = None" using t(14) w by metis
    hence "check_kern_pgdir (page_kva e) (page_kva b) t = Inl failed"
      using check_kern_pgdir_missing [OF t(2,4,5,6) de(1) t(11)] n t(8) by simp
    thus ?thesis using t(1) by (simp add: mem_init_def)
  qed
  assume n: "512 dvd unat (npages (i386_detect_memory cmos (krn s)))"
  have ck: "check_kern_pgdir (page_kva e) (page_kva b) t = Inr t"
    by (rule check_kern_pgdir_ok [OF t(2,4,5,6) de(1,2) b t(11,12,13)]) (use n t(8) in simp)
  define t1 where "t1 = t\<lparr>tlb := (\<lambda>_. False)\<rparr>"
  have k1: "kmem t1 = kmem t" "pages t1 = pages t" "globals_of t1 = globals_of t" by (simp_all add: t1_def)
  have f1: "frees t1 fl" using t(2) by (simp add: t1_def)
  have fo1: "free_pages_ok t1 fl" using t(9) by (simp add: t1_def free_pages_ok_def)
  have nf1: "nextfree t1 \<noteq> 0" using t(7) by (simp add: t1_def)
  obtain t2 where t2: "check_page_free_list kend False t1 = Some (Inr t2)" "frees t2 fl" "globals_of t2 = globals_of t1"
    "\<And>q. ref_of t2 q = ref_of t1 q" "\<And>a. (\<And>x. x \<in> set fl \<Longrightarrow> \<not> in_page x a) \<Longrightarrow> kmem t2 a = kmem t1 a"
    by (rule check_page_free_list_passes [OF f1 fo1 nf1, of kend False]) simp
  have o2: "outside (set fl) t t2" by (rule outsideI) (use t2(5) frees_bounds(4) [OF t(2)] k1(1) in auto)
  have r2: "ref_of t2 q = ref_of t q" for q using t2(4) k1(2) by (simp add: ref_of_def)
  have g2: "globals_of t2 = globals_of t" using t2(3) k1(3) by simp
  have nt: "\<not> is_table t d x" if "x \<in> set fl" for x
    by (rule unused_no_table [OF t(3)]) (use that t(2) in \<open>auto simp: frees_def\<close>)
  have pd2: "pde t2 d i = pde t d i" if "i < 1024" for i by (rule other_page(1) [OF t(3) l16 nt o2 that])
  have a2: "aspace t2 d" by (rule aspace_outside [OF t(3) l16 globals_ofD(6) [OF g2] nt o2]) (use r2 in simp_all)
  have ks2: "kspace t2 d" by (rule kspace_same [OF t(4) globals_ofD(6) [OF g2] pd2]) (use r2 in simp_all)
  have tab: "pt_page (pde t d i) \<notin> set fl" if "i < 1024" "i \<noteq> 957" "present (pde t d i)" for i
    using kspaceD(2) [OF t(4) that] t(2) by (auto simp: frees_def)
  have en2: "entry t2 d i j = entry t d i j" if "i < 1024" "j < 1024" "i \<noteq> 957" for i j
    by (rule kspace_outside [OF t(4) l16 o2 pd2 tab that])
  obtain x y z r where fl: "fl = x # y # z # r" using t(10) by (auto simp: Suc_le_length_iff numeral_3_eq_3)
  have kd2: "kern_pgdir t2 = page_kva d" using globals_ofD(3) [OF g2] t(5) by simp
  have e0: "pde t2 d 0 = 0" using pd2 [of 0] t(12) by (simp add: kernel_dirs_def)
  have f2: "frees t2 (x # y # z # r)" using t2(2) fl by simp
  obtain u where u: "check_page_installed_pgdir (page2pa d) t2 = Inr u" "frees u (x # z # y # r)" "aspace u d"
    "globals_of u = globals_of t2" "\<And>q. q < length (pages t2) \<Longrightarrow> ref_of u q = ref_of t2 q"
    "\<And>i. i < 1024 \<Longrightarrow> pde u d i = pde t2 d i" "outside ({d} \<union> set (x # y # z # r)) t2 u"
    by (rule check_page_installed_result [OF f2 a2 kd2 e0]) blast
  have gu: "globals_of u = globals_of t" using u(4) g2 by simp
  have ksu: "kspace u d" by (rule kspace_same [OF ks2 globals_ofD(6) [OF u(4)] u(6)]) (use u(5) in auto)
  have tab2: "pt_page (pde t2 d i) \<notin> {d} \<union> set (x # y # z # r)" if "i < 1024" "i \<noteq> 957" "present (pde t2 d i)" for i
    using kspaceD(2) [OF ks2 that] t2(2) fl by (auto simp: frees_def)
  have l2: "length (pages t2) \<le> 0x10000" using globals_ofD(6) [OF g2] l16 by simp
  have enu: "entry u d i j = entry t d i j" if "i < 1024" "j < 1024" "i \<noteq> 957" for i j
    using kspace_outside [OF ks2 l2 u(7) u(6) tab2 that] en2 [OF that] by simp
  have kmu: "kernel_maps u d (d + 1) e b" by (rule kernel_maps_kept [OF t(11) globals_ofD(1) [OF gu] np(1) enu])
  have "set (x # z # y # r) = set fl" using fl by auto
  hence fou: "free_pages_ok u (x # z # y # r)" using t(9) globals_ofD(5) [OF gu] unfolding free_pages_ok_def by simp
  have p0: "pde u d i = 0" if "i < 955" for i
    using u(6) pd2 t(12) less_955_1024 [OF that] that by (simp add: kernel_dirs_def)
  have "memory_ready u d e b (x # z # y # r)"
    using u(2,3) ksu globals_ofD(3,4) [OF gu] t(5,6) kmu p0 fou by (simp add: memory_ready_def)
  moreover have "mem_init cmos kend (page_kva b) s = Some (Inr (s\<lparr>krn := u, envs := replicate NENV zero_env,
      hw := (hw s)\<lparr>cr3 := page2pa d, cr0 := new_cr0 (cr0 (hw s))\<rparr>\<rparr>))"
    using t(1) ck PADDR_page_kva [OF de(3)] t(5) t2(1) u(1) by (simp add: mem_init_def lcr3_def t1_def [symmetric] Let_def)
  moreover have "image_kept d (x # z # y # r) (krn s) u"
  proof -
    have f: "q < 0x10000 \<and> q \<notin> set fl" if "256 \<le> q" "q < d" for q using t(15) de(3) that unfolding image_kept_def by simp
    have "image_kept d (x # z # y # r) t t2" by (rule image_kept_outside [OF o2]) (use f fl in auto)
    moreover have "image_kept d (x # z # y # r) t2 u" by (rule image_kept_outside [OF u(7)]) (use f fl in auto)
    ultimately show ?thesis using t(15) image_kept_trans by metis
  qed
  moreover have "unat (npages (i386_detect_memory cmos (krn s))) \<le> length (x # z # y # r) + (e + 91)" using t(16) fl by simp
  ultimately show "\<exists>u fl. mem_init cmos kend (page_kva b) s = Some (Inr (s\<lparr>krn := u, envs := replicate NENV zero_env,
          hw := (hw s)\<lparr>cr3 := page2pa d, cr0 := new_cr0 (cr0 (hw s))\<rparr>\<rparr>)) \<and>
        memory_ready u d e b fl \<and> image_kept d fl (krn s) u \<and>
        unat (npages (i386_detect_memory cmos (krn s))) \<le> length fl + (e + 91)" by blast
qed

section \<open>Properties\<close>

text \<open>A machine with 128 MB of memory, or with 129 MB when \<open>big\<close>, and a kernel image that ends at 0xF0118000.\<close>

definition demo_cmos :: "bool \<Rightarrow> u8 \<Rightarrow> u8" where
  "demo_cmos big r = (if r = 0x15 then 0x80 else if r = 0x16 then 2 else if r = 0x34 then (if big then 0x10 else 0)
     else if r = 0x35 then 7 else 0)"

definition demo_start :: kern where
  "demo_start = demo_aspace\<lparr>nextfree := 0, page_free_list := None\<rparr>"

lemma demo_detect:
  "npages (i386_detect_memory (demo_cmos False) s) = 32768" "npages (i386_detect_memory (demo_cmos True) s) = 33024"
  "npages_basemem (i386_detect_memory (demo_cmos b) s) = 160"
  by (simp_all add: i386_detect_memory_def nvram_read_def mc146818_read_def demo_cmos_def Let_def)

lemma demo_kend: "ROUNDUP 0xF0118000 PGSIZE = page_kva 280" "ROUNDUP 0xF0118000 0x1000 = page_kva 280"
  by (simp_all add: ROUNDUP_def ROUNDDOWN_def page_kva_def page2pa_def)

lemma demo_bootable:
  "bootable (demo_cmos False) 0xF0118000 demo_start 280 345" "bootable (demo_cmos True) 0xF0118000 demo_start 280 346"
  by (simp_all add: bootable_def Let_def demo_detect demo_kend array_pages_def demo_start_def)

definition demo_free :: "nat list" where
  "demo_free = rev [369..<32765] @ rev [1..<160]"

lemma demo_free_list: "rev [369..<32768] @ rev [1..<160] = 32767 # 32766 # 32765 # demo_free"
proof -
  have "[369..<32768] = [369..<32765] @ [32765..<32768]"
    using upt_add_eq_append [of 369 32765 3] by (simp del: upt_rec_numeral)
  moreover have "[32765..<32768] = [32765, 32766, 32767 :: nat]" by simp
  ultimately show ?thesis by (simp add: demo_free_def del: upt_rec_numeral)
qed

lemma demo_booted:
  "\<exists>t. booted t 280 (32767 # 32766 # 32765 # demo_free) \<and> pages_kva t = page_kva 281 \<and> nextfree t = page_kva 369"
proof -
  have n: "unat (npages (i386_detect_memory (demo_cmos False) demo_start)) = 32768"
    "unat (npages_basemem (i386_detect_memory (demo_cmos False) demo_start)) = 160" by (simp_all add: demo_detect)
  have ff: "345 + 24 = (369 :: nat)" "280 + 1 = (281 :: nat)" by simp_all
  obtain t where "boot_structures (demo_cmos False) 0xF0118000 demo_start = Inr (page_kva 345, t)"
    "booted t 280 (rev [369..<32768] @ rev [1..<160])" "pages_kva t = page_kva 281" "nextfree t = page_kva 369"
    by (rule boot_structures_ok [of demo_start "0xF0118000" 280 "demo_cmos False" 345, unfolded n ff])
       (simp_all add: demo_start_def demo_kend demo_detect array_pages_def del: upt_rec_numeral)
  thus ?thesis unfolding demo_free_list by blast
qed

definition demo_ekern_start :: ekern where
  "demo_ekern_start = demo_ekern\<lparr>krn := demo_start\<rparr>"

text \<open>C7: on a machine with 4 MB to 256 MB of memory, in whole 2 MB, \<open>mem_init\<close> returns: every assertion of its five tests
  holds. Afterwards the free list and the address space are sound; the array of pages, the environments, the kernel stack and all
  of physical memory are mapped at \<open>UPAGES\<close>, \<open>UENVS\<close>, below \<open>KSTACKTOP\<close> and at \<open>KERNBASE\<close> with the intended permissions;
  nothing is mapped below \<open>UTOP\<close> and paging is on with the new directory.\<close>

theorem mem_init_spec:
  assumes "bootable cmos kend (krn s) d e" and "b < 0x10000" and "512 dvd unat (npages (i386_detect_memory cmos (krn s)))"
  shows "\<exists>s' fl. mem_init cmos kend (page_kva b) s = Some (Inr s') \<and> memory_ready (krn s') d e b fl \<and>
    cr3 (hw s') = page2pa d \<and> cr0 (hw s') = new_cr0 (cr0 (hw s)) \<and> envs s' = replicate NENV zero_env"
  using mem_init_result(1) [OF assms] by force

theorem mem_init_spec_witness:
  "\<exists>s' fl. mem_init (demo_cmos False) 0xF0118000 (page_kva 0x110) demo_ekern_start = Some (Inr s') \<and>
     memory_ready (krn s') 280 345 0x110 fl \<and> cr3 (hw s') = 0x118000"
proof -
  have k: "krn demo_ekern_start = demo_start" by (simp add: demo_ekern_start_def)
  show ?thesis
    using mem_init_spec [of "demo_cmos False" "0xF0118000" demo_ekern_start 280 345 "0x110"] demo_bootable(1)
    by (simp add: k demo_detect del: NENV_def) (auto simp: page2pa_def)
qed



text \<open>C12: \<open>boot_map_region\<close> maps page by page the whole pages of a region above \<open>UTOP\<close> with the permissions given and
  \<open>PTE_P\<close>, takes one free page for every table that is missing and no other, and changes no other translation.\<close>

theorem boot_map_region_spec:
  fixes sz :: u32
  defines "n \<equiv> unat (PGNUM sz)"
  assumes "frees s fl" and "aspace s d" and "kspace s d"
    and "\<forall>k < n. 955 \<le> PDX (nth_page va k) \<and> PDX (nth_page va k) \<noteq> 957"
    and "card (tables_needed s d va n) \<le> length fl"
  shows "\<exists>t. boot_map_region (page_kva d) va sz pa perm s = Inr t \<and> frees t (drop (card (tables_needed s d va n)) fl) \<and>
    aspace t d \<and> kspace t d \<and> globals_of t = globals_of s \<and>
    (\<forall>k < n. entry t d (PDX (nth_page va k)) (PTX (nth_page va k)) = Some ((pa + of_nat k * PGSIZE) OR perm OR PTE_P)) \<and>
    (\<forall>w. PDX w \<noteq> 957 \<longrightarrow> (\<forall>k < n. PGNUM (nth_page va k) \<noteq> PGNUM w) \<longrightarrow> entry t d (PDX w) (PTX w) = entry s d (PDX w) (PTX w))"
proof -
  have "n < 2 ^ 20" using unat_lt_2p32 [of sz] by (simp add: n_def unat_PGNUM div_less_iff_less_mult)
  hence "n \<le> 0x100000" by simp
  from boot_map_loop_ok [OF assms(2-4) this assms(5,6), of pa perm] show ?thesis unfolding boot_map_region_def n_def by blast
qed

theorem boot_map_region_spec_witness:
  "\<exists>s t. frees s (32767 # 32766 # 32765 # demo_free) \<and> boot_map_region (page_kva 280) UENVS 0x18000 0x159000 (PTE_U OR PTE_P) s = Inr t \<and>
     entry t 280 955 0 = Some 0x159005"
proof -
  obtain t where t: "booted t 280 (32767 # 32766 # 32765 # demo_free)" using demo_booted by blast
  let ?fl = "32767 # 32766 # 32765 # demo_free"
  have n: "unat (PGNUM 0x18000) = 24" by (simp add: PGNUM_def)
  have b: "frees t ?fl" "aspace t 280" using t by (simp_all only: booted_def)
  have D: "PDX (nth_page UENVS k) = 955" if "k < 24" for k by (rule region_dirs(2) [OF that])
  have "tables_needed t 280 UENVS 24 \<subseteq> {955}" unfolding tables_needed_def using D by blast
  hence "card (tables_needed t 280 UENVS 24) \<le> card {955 :: u32}" by (rule card_mono [rotated]) (rule finite.intros, rule finite.intros)
  hence c: "card (tables_needed t 280 UENVS 24) \<le> length ?fl" by simp
  have "\<forall>k < 24. 955 \<le> PDX (nth_page UENVS k) \<and> PDX (nth_page UENVS k) \<noteq> 957" using D by simp
  from boot_map_region_spec [of t ?fl 280 "0x18000" UENVS "0x159000" "PTE_U OR PTE_P", unfolded n, OF b booted_kspace [OF t] this c]
  obtain u where u: "boot_map_region (page_kva 280) UENVS 0x18000 0x159000 (PTE_U OR PTE_P) t = Inr u"
    "\<forall>k < 24. entry u 280 (PDX (nth_page UENVS k)) (PTX (nth_page UENVS k)) = Some ((0x159000 + of_nat k * PGSIZE) OR (PTE_U OR PTE_P) OR PTE_P)"
    by blast
  have "entry u 280 955 0 = Some 0x159005" using u(2) [rule_format, of 0] by (simp add: PDX_def PTX_def nth_page_def)
  thus ?thesis using b(1) u(1) by blast
qed

text \<open>C36: \<open>check_page\<close> passes on every kernel with a sound free list of at least three pages and a sound address space whose first two
  directory entries are empty. It gives back all that it took: directory, mappings, reference counts; the three pages come
  back in reverse order.\<close>

theorem check_page_spec:
  assumes "frees s (x # y # z # rest)" and "aspace s d" and "kern_pgdir s = page_kva d" and "pde s d 0 = 0" and "pde s d 1 = 0"
  shows "\<exists>s'. check_page s = Inr s' \<and> frees s' (z # y # x # rest) \<and> aspace s' d \<and> globals_of s' = globals_of s \<and>
    (\<forall>q < length (pages s). ref_of s' q = ref_of s q) \<and> (\<forall>i < 1024. pde s' d i = pde s d i) \<and>
    (\<forall>va < UTOP. mapping s' d va = mapping s d va)"
  by (rule check_page_result [OF assms]) blast

theorem check_page_spec_witness:
  "\<exists>s s'. nextfree s = page_kva 369 \<and> check_page s = Inr s' \<and> frees s' (32765 # 32766 # 32767 # demo_free)"
proof -
  obtain t where t: "booted t 280 (32767 # 32766 # 32765 # demo_free)" "nextfree t = page_kva 369" using demo_booted by blast
  have b: "frees t (32767 # 32766 # 32765 # demo_free)" "aspace t 280" "kern_pgdir t = page_kva 280"
    "pde t 280 0 = 0" "pde t 280 1 = 0" using t(1) unfolding booted_def by simp_all
  show ?thesis using check_page_spec [OF b] t(2) by blast
qed

text \<open>C37: \<open>check_page_alloc\<close> passes on every sound free list of at least three pages, once the array of pages exists; the free list
  is the same afterwards, in the same order, and of the memory only the page that the test has cleared has changed.\<close>

theorem check_page_alloc_spec:
  assumes "frees s (x # y # z # rest)" and "pages_kva s \<noteq> 0"
  shows "\<exists>s'. check_page_alloc s = Some (Inr s') \<and> frees s' (x # y # z # rest) \<and> globals_of s' = globals_of s \<and>
    (\<forall>q < length (pages s). ref_of s' q = ref_of s q) \<and> (\<forall>a. kmem s' a = (if in_page z a then 0 else kmem s a))"
  by (rule check_page_alloc_result [OF assms]) blast

theorem check_page_alloc_spec_witness:
  "\<exists>s s'. nextfree s = page_kva 369 \<and> check_page_alloc s = Some (Inr s') \<and> kmem s' 0xF7FFD000 = 0"
proof -
  obtain t where t: "booted t 280 (32767 # 32766 # 32765 # demo_free)" "pages_kva t = page_kva 281" "nextfree t = page_kva 369"
    using demo_booted by blast
  have b: "frees t (32767 # 32766 # 32765 # demo_free)" using t(1) unfolding booted_def by simp
  have "pages_kva t \<noteq> 0" using t(2) page_kva_neq_0 [of 281] by simp
  moreover have "in_page 32765 0xF7FFD000" by (simp add: in_page_def page_kva_def page2pa_def)
  ultimately show ?thesis using check_page_alloc_spec [OF b] t(3) by metis
qed



end
