(* ===== verification/Jos_Str.thy ===== *)
theory Jos_Str
  imports Jos_Mem
begin

text \<open>
  The string routines of \<open>lib/string.c\<close> over a byte memory.

  A loop that stops only at a NUL byte is a \<open>partial_function\<close>: on a memory without one it
  would not stop, and its value is \<open>None\<close>. A loop with a count is structural. \<open>cstr m s xs\<close>
  says that the C string at \<open>s\<close> consists of the bytes \<open>xs\<close>; the lemmas show that every loop
  returns on such strings, and what it computes.
\<close>

section \<open>Length, copy and comparison\<close>

partial_function (option) strlen_loop :: "mem \<Rightarrow> u32 \<Rightarrow> u32 \<Rightarrow> u32 option" where
  "strlen_loop m s n = (if m s \<noteq> 0 then strlen_loop m (s + 1) (n + 1) else Some n)"

definition strlen :: "mem \<Rightarrow> u32 \<Rightarrow> u32 option" where
  "strlen m s = strlen_loop m s 0"

fun strnlen_loop :: "mem \<Rightarrow> u32 \<Rightarrow> nat \<Rightarrow> u32 \<Rightarrow> u32" where
  "strnlen_loop m s 0 n = n"
| "strnlen_loop m s (Suc sz) n = (if m s \<noteq> 0 then strnlen_loop m (s + 1) sz (n + 1) else n)"

definition strnlen :: "mem \<Rightarrow> u32 \<Rightarrow> u32 \<Rightarrow> u32" where
  "strnlen m s sz = strnlen_loop m s (unat sz) 0"

partial_function (option) strcpy :: "mem \<Rightarrow> u32 \<Rightarrow> u32 \<Rightarrow> mem option" where
  "strcpy m dst src =
     (let c = m src; m = m(dst := c) in if c \<noteq> 0 then strcpy m (dst + 1) (src + 1) else Some m)"

definition strcat :: "mem \<Rightarrow> u32 \<Rightarrow> u32 \<Rightarrow> mem option" where
  "strcat m dst src = (case strlen m dst of None \<Rightarrow> None | Some len \<Rightarrow> strcpy m (dst + len) src)"

fun strncpy_loop :: "mem \<Rightarrow> u32 \<Rightarrow> u32 \<Rightarrow> nat \<Rightarrow> mem" where
  "strncpy_loop m dst src 0 = m"
| "strncpy_loop m dst src (Suc n) =
     (let m = m(dst := m src) in strncpy_loop m (dst + 1) (if m src \<noteq> 0 then src + 1 else src) n)"

definition strncpy :: "mem \<Rightarrow> u32 \<Rightarrow> u32 \<Rightarrow> u32 \<Rightarrow> mem" where
  "strncpy m dst src sz = strncpy_loop m dst src (unat sz)"

text \<open>\<open>n\<close> is what \<open>--size\<close> leaves: the number of bytes that may still be copied.\<close>

fun strlcpy_loop :: "mem \<Rightarrow> u32 \<Rightarrow> u32 \<Rightarrow> nat \<Rightarrow> u32 \<times> mem" where
  "strlcpy_loop m dst src 0 = (dst, m(dst := 0))"
| "strlcpy_loop m dst src (Suc n) =
     (if m src \<noteq> 0 then strlcpy_loop (m(dst := m src)) (dst + 1) (src + 1) n else (dst, m(dst := 0)))"

definition strlcpy :: "mem \<Rightarrow> u32 \<Rightarrow> u32 \<Rightarrow> u32 \<Rightarrow> u32 \<times> mem" where
  "strlcpy m dst src sz =
     (let dst_in = dst in
      if sz > 0 then (let (dst, m) = strlcpy_loop m dst src (unat (sz - 1)) in (dst - dst_in, m))
      else (0, m))"

partial_function (option) strcmp :: "mem \<Rightarrow> u32 \<Rightarrow> u32 \<Rightarrow> int option" where
  "strcmp m p q =
     (if m p \<noteq> 0 \<and> m p = m q then strcmp m (p + 1) (q + 1) else Some (uint (m p) - uint (m q)))"

fun strncmp_loop :: "mem \<Rightarrow> u32 \<Rightarrow> u32 \<Rightarrow> nat \<Rightarrow> int" where
  "strncmp_loop m p q 0 = 0"
| "strncmp_loop m p q (Suc n) =
     (if m p \<noteq> 0 \<and> m p = m q then strncmp_loop m (p + 1) (q + 1) n else uint (m p) - uint (m q))"

definition strncmp :: "mem \<Rightarrow> u32 \<Rightarrow> u32 \<Rightarrow> u32 \<Rightarrow> int" where
  "strncmp m p q n = strncmp_loop m p q (unat n)"

section \<open>Searching\<close>

text \<open>The null pointer is 0.\<close>

partial_function (option) strchr :: "mem \<Rightarrow> u32 \<Rightarrow> u8 \<Rightarrow> u32 option" where
  "strchr m s c = (if m s \<noteq> 0 then if m s = c then Some s else strchr m (s + 1) c else Some 0)"

partial_function (option) strfind :: "mem \<Rightarrow> u32 \<Rightarrow> u8 \<Rightarrow> u32 option" where
  "strfind m s c = (if m s \<noteq> 0 then if m s = c then Some s else strfind m (s + 1) c else Some s)"

section \<open>Numbers\<close>

definition byte :: "char \<Rightarrow> u8" where
  "byte c = of_char c"

partial_function (option) skip_blanks :: "mem \<Rightarrow> u32 \<Rightarrow> u32 option" where
  "skip_blanks m s = (if m s = byte (CHR '' '') \<or> m s = 9 then skip_blanks m (s + 1) else Some s)"

definition digit_of :: "u8 \<Rightarrow> nat option" where
  "digit_of c =
     (if byte (CHR ''0'') \<le> c \<and> c \<le> byte (CHR ''9'') then Some (unat (c - byte (CHR ''0'')))
      else if byte (CHR ''a'') \<le> c \<and> c \<le> byte (CHR ''z'') then Some (unat (c - byte (CHR ''a'')) + 10)
      else if byte (CHR ''A'') \<le> c \<and> c \<le> byte (CHR ''Z'') then Some (unat (c - byte (CHR ''A'')) + 10)
      else None)"

text \<open>The value is a 32-bit \<open>long\<close>, whose overflow the source does not detect: it wraps.\<close>

partial_function (option) strtol_digits :: "mem \<Rightarrow> u32 \<Rightarrow> int \<Rightarrow> u32 \<Rightarrow> (u32 \<times> u32) option" where
  "strtol_digits m s base val =
     (case digit_of (m s) of
        None \<Rightarrow> Some (s, val)
      | Some dig \<Rightarrow> if int dig \<ge> base then Some (s, val)
                    else strtol_digits m (s + 1) base (val * of_int base + of_nat dig))"

definition strtol_sign :: "mem \<Rightarrow> u32 \<Rightarrow> bool \<times> u32" where
  "strtol_sign m s = (if m s = byte (CHR ''+'') then (False, s + 1)
     else if m s = byte (CHR ''-'') then (True, s + 1) else (False, s))"

definition strtol_base :: "mem \<Rightarrow> u32 \<Rightarrow> int \<Rightarrow> int \<times> u32" where
  "strtol_base m s base =
     (if (base = 0 \<or> base = 16) \<and> m s = byte (CHR ''0'') \<and> m (s + 1) = byte (CHR ''x'') then (16, s + 2)
      else if base = 0 \<and> m s = byte (CHR ''0'') then (8, s + 1)
      else if base = 0 then (10, s)
      else (base, s))"

text \<open>The results are the value and the pointer stored through \<open>endptr\<close>.\<close>

definition strtol :: "mem \<Rightarrow> u32 \<Rightarrow> int \<Rightarrow> (u32 \<times> u32) option" where
  "strtol m s base =
     (case skip_blanks m s of
        None \<Rightarrow> None
      | Some s \<Rightarrow>
          (let (neg, s) = strtol_sign m s; (base, s) = strtol_base m s base
           in case strtol_digits m s base 0 of
                None \<Rightarrow> None
              | Some (s, val) \<Rightarrow> Some (if neg then - val else val, s)))"

section \<open>Strings in memory\<close>

fun cstr :: "mem \<Rightarrow> u32 \<Rightarrow> u8 list \<Rightarrow> bool" where
  "cstr m s [] \<longleftrightarrow> m s = 0"
| "cstr m s (x # xs) \<longleftrightarrow> m s = x \<and> x \<noteq> 0 \<and> cstr m (s + 1) xs"

lemma cstr_unique: "cstr m s xs \<Longrightarrow> cstr m s ys \<Longrightarrow> xs = ys"
proof (induction xs arbitrary: s ys)
  case Nil
  thus ?case by (cases ys) auto
next
  case (Cons x xs)
  thus ?case by (cases ys) auto
qed

lemma cstr_cong:
  "(\<And>i. i \<le> length xs \<Longrightarrow> m' (s + of_nat i) = m (s + of_nat i)) \<Longrightarrow> cstr m' s xs = cstr m s xs"
proof (induction xs arbitrary: s)
  case (Cons x xs)
  have "cstr m' (s + 1) xs = cstr m (s + 1) xs"
    using Cons.prems [of "Suc i" for i] by (intro Cons.IH) (simp add: ac_simps)
  thus ?case using Cons.prems [of 0] by simp
qed simp

lemma strlen_loop_cstr: "cstr m s xs \<Longrightarrow> strlen_loop m s n = Some (n + of_nat (length xs))"
proof (induction xs arbitrary: s n)
  case Nil
  thus ?case by (simp add: strlen_loop.simps)
next
  case (Cons x xs)
  thus ?case by (subst strlen_loop.simps) (simp add: ac_simps)
qed

lemma strnlen_loop_cstr:
  "cstr m s xs \<Longrightarrow> strnlen_loop m s k n = n + of_nat (min k (length xs))"
proof (induction k arbitrary: s xs n)
  case (Suc k)
  thus ?case by (cases xs) (auto simp: ac_simps)
qed simp

section \<open>Comparison\<close>

text \<open>The difference of the first bytes in which two strings differ, counting the final NUL.\<close>

fun str_diff :: "u8 list \<Rightarrow> u8 list \<Rightarrow> int" where
  "str_diff [] [] = 0"
| "str_diff [] (y # ys) = - uint y"
| "str_diff (x # xs) [] = uint x"
| "str_diff (x # xs) (y # ys) = (if x = y then str_diff xs ys else uint x - uint y)"

lemma strcmp_cstr: "cstr m p xs \<Longrightarrow> cstr m q ys \<Longrightarrow> strcmp m p q = Some (str_diff xs ys)"
proof (induction xs ys arbitrary: p q rule: str_diff.induct)
  case (4 x xs y ys)
  thus ?case by (subst strcmp.simps) auto
qed (subst strcmp.simps, simp)+

lemma strncmp_loop_cstr:
  "cstr m p xs \<Longrightarrow> cstr m q ys \<Longrightarrow> strncmp_loop m p q n = str_diff (take n xs) (take n ys)"
proof (induction n arbitrary: p q xs ys)
  case (Suc n)
  thus ?case by (cases xs; cases ys) auto
qed simp

lemma uint_pos: "(x :: u8) \<noteq> 0 \<Longrightarrow> 0 < uint x"
  using uint_0_iff [of x] uint_ge_0 [of x] by linarith

lemma str_diff_0_iff:
  "0 \<notin> set xs \<Longrightarrow> 0 \<notin> set ys \<Longrightarrow> str_diff xs ys = 0 \<longleftrightarrow> xs = ys"
  by (induction xs ys rule: str_diff.induct) (auto simp: uint_0_iff word_uint_eqI)

lemma str_diff_neg_iff:
  "0 \<notin> set xs \<Longrightarrow> 0 \<notin> set ys \<Longrightarrow> str_diff xs ys < 0 \<longleftrightarrow> ord_class.lexordp xs ys"
proof (induction xs ys rule: str_diff.induct)
  case (2 y ys)
  thus ?case using uint_pos [of y] by auto
next
  case (3 x xs)
  thus ?case using uint_ge_0 [of x] by (auto simp: not_less)
next
  case (4 x xs y ys)
  thus ?case using word_uint_eq_iff [of x y] by (auto simp: word_less_def not_less_iff_gr_or_eq)
qed simp

lemma cstr_nonzero: "cstr m s xs \<Longrightarrow> 0 \<notin> set xs"
  by (induction xs arbitrary: s) auto

section \<open>Copying\<close>

fun put :: "mem \<Rightarrow> u32 \<Rightarrow> u8 list \<Rightarrow> mem" where
  "put m a [] = m"
| "put m a (b # bs) = put (m(a := b)) (a + 1) bs"

lemma put_nth:
  "length bs \<le> 2 ^ 32 \<Longrightarrow> put m a bs x = (if unat (x - a) < length bs then bs ! unat (x - a) else m x)"
proof (induction bs arbitrary: m a)
  case (Cons b bs)
  have ih: "put (m(a := b)) (a + 1) bs x =
      (if unat (x - (a + 1)) < length bs then bs ! unat (x - (a + 1)) else (m(a := b)) x)"
    using Cons by simp
  show ?case
  proof (cases "x = a")
    case True
    have "unat (- 1 :: u32) = 2 ^ 32 - 1" by (simp add: unsigned_minus_1_eq_mask mask_eq_exp_minus_1)
    thus ?thesis using ih True Cons.prems by simp
  next
    case False
    hence "0 < unat (x - a)" by (simp add: unat_gt_0)
    hence "unat (x - a) = Suc (unat (x - (a + 1)))" using unat_diff_step [OF False] by simp
    thus ?thesis using ih False by simp
  qed
qed simp

text \<open>Writing at \<open>dst\<close> from the front never overtakes the reading at \<open>src\<close>.\<close>

definition no_overtake :: "u32 \<Rightarrow> u32 \<Rightarrow> nat \<Rightarrow> bool" where
  "no_overtake dst src n \<longleftrightarrow> (\<forall>i j. i < j \<longrightarrow> j \<le> n \<longrightarrow> dst + of_nat i \<noteq> src + of_nat j)"

lemma no_overtake_step:
  assumes "no_overtake dst src (Suc n)"
  shows "no_overtake (dst + 1) (src + 1) n"
    and "cstr m (src + 1) xs \<Longrightarrow> length xs \<le> n \<Longrightarrow> cstr (m(dst := b)) (src + 1) xs"
proof -
  have ne: "dst + of_nat i \<noteq> src + of_nat j" if "i < j" "j \<le> Suc n" for i j
    using assms that unfolding no_overtake_def by blast
  show "no_overtake (dst + 1) (src + 1) n"
    unfolding no_overtake_def using ne [of "Suc i" "Suc j" for i j] by (auto simp: ac_simps)
  show "cstr (m(dst := b)) (src + 1) xs" if "cstr m (src + 1) xs" "length xs \<le> n"
  proof (subst cstr_cong)
    fix i assume "i \<le> length xs"
    hence "dst \<noteq> src + 1 + of_nat i" using ne [of 0 "Suc i"] that(2) by (simp add: ac_simps)
    thus "(m(dst := b)) (src + 1 + of_nat i) = m (src + 1 + of_nat i)" by simp
  qed (rule that(1))
qed

lemma strcpy_cstr:
  "cstr m src xs \<Longrightarrow> no_overtake dst src (length xs) \<Longrightarrow> strcpy m dst src = Some (put m dst (xs @ [0]))"
proof (induction xs arbitrary: m dst src)
  case Nil
  thus ?case by (subst strcpy.simps) simp
next
  case (Cons x xs)
  have "no_overtake (dst + 1) (src + 1) (length xs)" "cstr (m(dst := x)) (src + 1) xs"
    using no_overtake_step [of dst src "length xs"] Cons.prems by simp_all
  thus ?case using Cons.IH Cons.prems by (subst strcpy.simps) (simp add: Let_def)
qed

lemma strlcpy_loop_cstr:
  "cstr m src xs \<Longrightarrow> no_overtake dst src (length xs) \<Longrightarrow>
   strlcpy_loop m dst src n = (dst + of_nat (min n (length xs)), put m dst (take n xs @ [0]))"
proof (induction n arbitrary: m dst src xs)
  case (Suc n)
  show ?case
  proof (cases xs)
    case (Cons x ys)
    have "no_overtake (dst + 1) (src + 1) (length ys)" "cstr (m(dst := x)) (src + 1) ys"
      using no_overtake_step [of dst src "length ys"] Suc.prems Cons by simp_all
    hence "strlcpy_loop (m(dst := x)) (dst + 1) (src + 1) n =
        (dst + 1 + of_nat (min n (length ys)), put (m(dst := x)) (dst + 1) (take n ys @ [0]))" by (intro Suc.IH)
    thus ?thesis using Suc.prems(1) Cons by (simp add: add.assoc)
  qed (use Suc.prems in \<open>simp add: fun_upd_def\<close>)
qed simp

section \<open>Digits\<close>

fun bytes_at :: "mem \<Rightarrow> u32 \<Rightarrow> u8 list \<Rightarrow> bool" where
  "bytes_at m s [] \<longleftrightarrow> True"
| "bytes_at m s (b # bs) \<longleftrightarrow> m s = b \<and> bytes_at m (s + 1) bs"

lemma bytes_at_append:
  "bytes_at m s (xs @ ys) \<longleftrightarrow> bytes_at m s xs \<and> bytes_at m (s + of_nat (length xs)) ys"
  by (induction xs arbitrary: s) (auto simp: ac_simps)

lemma bytes_atI: "(\<And>i. i < length bs \<Longrightarrow> m (s + of_nat i) = bs ! i) \<Longrightarrow> bytes_at m s bs"
proof (induction bs arbitrary: s)
  case (Cons b bs)
  have "m (s + 1 + of_nat i) = bs ! i" if "i < length bs" for i
    using Cons.prems [of "Suc i"] that by (simp add: ac_simps)
  thus ?case using Cons.IH [of "s + 1"] Cons.prems [of 0] by simp
qed simp

lemma bytes_at_nth: "bytes_at m s bs \<Longrightarrow> i < length bs \<Longrightarrow> m (s + of_nat i) = bs ! i"
proof (induction bs arbitrary: s i)
  case (Cons b bs)
  thus ?case using Cons.IH [of "s + 1" "i - 1"] by (cases i) (simp_all add: add.assoc)
qed simp

lemma bytes_at_put: "length bs \<le> 2 ^ 32 \<Longrightarrow> bytes_at (put m a bs) a bs"
  by (rule bytes_atI) (simp add: put_nth unat_of_nat_small)

lemma cstr_iff: "cstr m s xs \<longleftrightarrow> bytes_at m s (xs @ [0]) \<and> 0 \<notin> set xs"
  by (induction xs arbitrary: s) auto

lemma put_cstr: "0 \<notin> set xs \<Longrightarrow> length xs < 2 ^ 32 \<Longrightarrow> cstr (put m a (xs @ [0])) a xs"
  using bytes_at_put [of "xs @ [0]" m a] by (simp add: cstr_iff)

lemma strcat_cstr:
  assumes "cstr m dst ys" and "cstr m src xs" and "no_overtake (dst + of_nat (length ys)) src (length xs)"
    and "length ys + length xs < 2 ^ 32"
  shows "strcat m dst src = Some (put m (dst + of_nat (length ys)) (xs @ [0]))"
    and "cstr (put m (dst + of_nat (length ys)) (xs @ [0])) dst (ys @ xs)"
proof -
  let ?e = "dst + of_nat (length ys)" and ?m = "put m (dst + of_nat (length ys)) (xs @ [0])"
  show "strcat m dst src = Some ?m"
    using strlen_loop_cstr [OF assms(1), of 0] strcpy_cstr [OF assms(2,3)] by (simp add: strcat_def strlen_def)
  have "?m (dst + of_nat i) = ys ! i" if "i < length ys" for i
  proof -
    have u: "unat (of_nat i :: u32) = i" "unat (of_nat (length ys) :: u32) = length ys"
      using that assms(4) by (simp_all add: unat_of_nat_small)
    have "unat ((dst + of_nat i) - ?e) = 2 ^ 32 + i - length ys"
      using that by (simp add: unat_sub_if' u)
    hence "\<not> unat ((dst + of_nat i) - ?e) < length (xs @ [0])" using that assms(4) by simp
    hence "?m (dst + of_nat i) = m (dst + of_nat i)"
      using put_nth [of "xs @ [0]" m ?e "dst + of_nat i"] assms(4) by simp
    thus ?thesis using bytes_at_nth [of m dst "ys @ [0]" i] assms(1) that by (simp add: cstr_iff nth_append)
  qed
  hence "bytes_at ?m dst ys" by (rule bytes_atI)
  moreover have "bytes_at ?m ?e (xs @ [0])" using bytes_at_put [of "xs @ [0]" m ?e] assms(4) by simp
  ultimately show "cstr ?m dst (ys @ xs)"
    using cstr_nonzero [OF assms(1)] cstr_nonzero [OF assms(2)] by (simp add: cstr_iff bytes_at_append add.assoc)
qed

definition digit_char :: "nat \<Rightarrow> u8" where
  "digit_char d = (if d < 10 then of_nat d + byte (CHR ''0'') else of_nat (d - 10) + byte (CHR ''a''))"

definition digits_val :: "nat \<Rightarrow> nat list \<Rightarrow> nat" where
  "digits_val b ds = foldl (\<lambda>v d. v * b + d) 0 ds"

lemma byte_simps [simp]:
  "byte (CHR '' '') = 32" "byte (CHR ''0'') = 48" "byte (CHR ''9'') = 57" "byte (CHR ''a'') = 97" "byte (CHR ''z'') = 122"
  "byte (CHR ''A'') = 65" "byte (CHR ''Z'') = 90" "byte (CHR ''+'') = 43" "byte (CHR ''-'') = 45" "byte (CHR ''x'') = 120"
  by (simp_all add: byte_def)

lemma unat_digit_char: "d < 36 \<Longrightarrow> unat (digit_char d) = (if d < 10 then d + 48 else d + 87)"
  by (simp add: digit_char_def unat_add_no_carry unat_of_nat_small)

lemma digit_of_digit_char: "d < 36 \<Longrightarrow> digit_of (digit_char d) = Some d"
  using unat_digit_char [of d]
  by (auto simp: digit_of_def word_le_nat_alt unat_sub_if')

lemma strtol_digits_run:
  assumes "b \<le> 36" and "\<forall>d \<in> set ds. d < b" and "bytes_at m s (map digit_char ds)"
    and "\<forall>d. digit_of (m (s + of_nat (length ds))) = Some d \<longrightarrow> b \<le> d"
  shows "strtol_digits m s (int b) v =
     Some (s + of_nat (length ds), foldl (\<lambda>v d. v * of_nat b + of_nat d) v ds)"
  using assms
proof (induction ds arbitrary: s v)
  case Nil
  thus ?case by (subst strtol_digits.simps) (auto split: option.splits)
next
  case (Cons d ds)
  have d: "digit_of (m s) = Some d" "d < b" using Cons.prems digit_of_digit_char [of d] by auto
  have "strtol_digits m (s + 1) (int b) (v * of_nat b + of_nat d) =
      Some (s + 1 + of_nat (length ds), foldl (\<lambda>v d. v * of_nat b + of_nat d) (v * of_nat b + of_nat d) ds)"
    using Cons.prems by (intro Cons.IH) (simp_all add: ac_simps)
  thus ?case using d by (subst strtol_digits.simps) (simp add: ac_simps)
qed

lemma foldl_digits_of_nat:
  "foldl (\<lambda>v d. v * of_nat b + of_nat d) (of_nat v) ds = (of_nat (foldl (\<lambda>v d. v * b + d) v ds) :: u32)"
proof (induction ds arbitrary: v)
  case (Cons d ds)
  show ?case using Cons.IH [of "v * b + d"] by simp
qed simp

lemma skip_blanks_run:
  "\<forall>c \<in> set bl. c = 32 \<or> c = 9 \<Longrightarrow> bytes_at m s bl \<Longrightarrow> m (s + of_nat (length bl)) \<noteq> 32 \<Longrightarrow>
   m (s + of_nat (length bl)) \<noteq> 9 \<Longrightarrow> skip_blanks m s = Some (s + of_nat (length bl))"
proof (induction bl arbitrary: s)
  case Nil
  thus ?case by (subst skip_blanks.simps) simp
next
  case (Cons c bl)
  thus ?case by (subst skip_blanks.simps) (auto simp: ac_simps)
qed

lemma strtol_number:
  assumes inp: "bytes_at m s (bl @ sg @ px @ map digit_char ds @ [t])"
    and bl: "set bl \<subseteq> {32, 9}" and sg: "sg \<in> {[], [43], [45]}"
    and px: "px = [] \<and> base = int b \<and> b \<noteq> 16 \<or> px = [48, 120] \<and> (base = 0 \<or> base = 16) \<and> b = 16"
    and b: "2 \<le> b" "b \<le> 36" and ds: "ds \<noteq> []" "\<forall>d \<in> set ds. d < b"
    and t: "\<forall>d. digit_of t = Some d \<longrightarrow> b \<le> d"
  shows "strtol m s base =
     Some ((if sg = [45] then - of_nat (digits_val b ds) else of_nat (digits_val b ds)),
       s + of_nat (length (bl @ sg @ px) + length ds))"
proof -
  let ?s1 = "s + of_nat (length bl)"
  let ?s2 = "?s1 + of_nat (length sg)"
  let ?s3 = "?s2 + of_nat (length px)"
  have at: "bytes_at m s bl" "bytes_at m ?s1 sg" "bytes_at m ?s2 px" "bytes_at m ?s3 (map digit_char ds)"
    "m (?s3 + of_nat (length ds)) = t"
    using inp by (simp_all add: bytes_at_append add.assoc)
  obtain d ds' where dd: "ds = d # ds'" "d < 36" using ds b by (cases ds) auto
  have md: "m ?s3 = digit_char d" using at(4) dd by simp
  have dc: "digit_char d \<notin> {32, 9, 43, 45}"
    using unat_digit_char [OF dd(2)] by (auto simp: word_unat_eq_iff split: if_splits)
  have ms2: "m ?s2 = digit_char d \<or> m ?s2 = 48" using md at(3) px by auto
  have ms1: "m ?s1 \<notin> {32, 9}" using ms2 at(2) sg dc by auto
  have "skip_blanks m s = Some ?s1" using bl at(1) ms1 by (intro skip_blanks_run) auto
  moreover have "strtol_sign m ?s1 = (sg = [45], ?s2)"
    using sg at(2) ms2 dc by (auto simp: strtol_sign_def)
  moreover have "strtol_base m ?s2 base = (int b, ?s3)"
    using px at(3) b by (auto simp: strtol_base_def add.assoc)
  moreover have "strtol_digits m ?s3 (int b) 0 = Some (?s3 + of_nat (length ds), of_nat (digits_val b ds))"
    using strtol_digits_run [OF b(2) ds(2) at(4), of 0] at(5) t foldl_digits_of_nat [of b 0 ds]
    by (simp add: digits_val_def)
  ultimately show ?thesis by (simp add: strtol_def Let_def add.assoc)
qed

section \<open>Properties\<close>

text \<open>A memory with the strings \<open>-42\<close>, \<open>abc\<close> and \<open>abd\<close> at 16, 32 and 48 and zeros elsewhere.\<close>

definition demo_mem :: mem where
  "demo_mem = put (put (put (\<lambda>_. 0) 16 [45, 52, 50]) 32 [97, 98, 99]) 48 [97, 98, 100]"

lemma demo_mem_cstr: "cstr demo_mem 32 [97, 98, 99]" "cstr demo_mem 48 [97, 98, 100]"
  by (simp_all add: demo_mem_def)

text \<open>\<open>strcmp\<close> and \<open>strncmp\<close> return on two strings; the result of \<open>strcmp\<close> is zero exactly for
  equal strings and negative exactly when the first string comes first in the
  lexicographic order of unsigned bytes, and \<open>strncmp\<close> does the same for their first \<open>n\<close> bytes.\<close>

theorem strcmp_lexicographic:
  assumes "cstr m p xs" and "cstr m q ys"
  shows "\<exists>r. strcmp m p q = Some r \<and> (r = 0 \<longleftrightarrow> xs = ys) \<and> (r < 0 \<longleftrightarrow> ord_class.lexordp xs ys) \<and>
     (strncmp m p q n = 0 \<longleftrightarrow> take (unat n) xs = take (unat n) ys) \<and>
     (strncmp m p q n < 0 \<longleftrightarrow> ord_class.lexordp (take (unat n) xs) (take (unat n) ys))"
proof -
  note z = cstr_nonzero [OF assms(1)] cstr_nonzero [OF assms(2)]
  hence "0 \<notin> set (take (unat n) xs)" "0 \<notin> set (take (unat n) ys)" by (auto dest: in_set_takeD)
  thus ?thesis
    using strcmp_cstr [OF assms] strncmp_loop_cstr [OF assms] str_diff_0_iff str_diff_neg_iff z
    by (simp add: strncmp_def)
qed

theorem strcmp_lexicographic_witness:
  "\<exists>r. strcmp demo_mem 32 48 = Some r \<and> r < 0 \<and> strncmp demo_mem 32 48 2 = 0"
  using strcmp_lexicographic [OF demo_mem_cstr, of 2] by (auto simp: lexordp_simps)

text \<open>\<open>strcpy\<close> and \<open>strlcpy\<close>. When writing never overtakes reading, \<open>strcpy\<close> returns and
  leaves a copy of the string at the destination and every other byte unchanged; \<open>strlcpy\<close> with
  a buffer of \<open>size > 0\<close> bytes stores the longest prefix that fits with its final NUL, writes
  at most \<open>size\<close> bytes, and returns the number of bytes copied.\<close>

theorem strcpy_strlcpy_spec:
  assumes "cstr m src xs" and "no_overtake dst src (length xs)" and "length xs < 2 ^ 32" and "0 < sz"
  shows "(\<exists>m'. strcpy m dst src = Some m' \<and> cstr m' dst xs \<and>
        (\<forall>a. length xs < unat (a - dst) \<longrightarrow> m' a = m a)) \<and>
     (\<exists>m'. strlcpy m dst src sz = (of_nat (min (unat sz - 1) (length xs)), m') \<and>
        cstr m' dst (take (unat sz - 1) xs) \<and> (\<forall>a. unat sz \<le> unat (a - dst) \<longrightarrow> m' a = m a))"
proof -
  have z: "0 \<notin> set xs" "0 \<notin> set (take k xs)" for k
    using cstr_nonzero [OF assms(1)] by (auto dest: in_set_takeD)
  have sz: "unat (sz - 1) = unat sz - 1" "0 < unat sz"
    using assms(4) unat_sub_no_borrow [of 1 sz] by (simp_all add: word_less_nat_alt)
  let ?k = "unat sz - 1"
  have "\<forall>a. length xs < unat (a - dst) \<longrightarrow> put m dst (xs @ [0]) a = m a"
    using put_nth [of "xs @ [0]" m dst] assms(3) by simp
  moreover have "\<forall>a. unat sz \<le> unat (a - dst) \<longrightarrow> put m dst (take ?k xs @ [0]) a = m a"
    using put_nth [of "take ?k xs @ [0]" m dst] assms(3) sz by auto
  ultimately show ?thesis
    using strcpy_cstr [OF assms(1,2)] strlcpy_loop_cstr [OF assms(1,2), of ?k] put_cstr [OF z(1) assms(3)]
      put_cstr [OF z(2), of ?k] assms(3,4) sz by (simp add: strlcpy_def)
qed


theorem strcpy_strlcpy_spec_witness:
  "\<exists>m'. strcpy demo_mem 64 32 = Some m' \<and> cstr m' 64 [97, 98, 99]"
proof -
  have "no_overtake 64 32 (length [97, 98, 99 :: u8])"
    unfolding no_overtake_def
  proof (intro allI impI notI)
    fix i j assume ij: "i < j" "j \<le> length [97, 98, 99 :: u8]" and eq: "64 + of_nat i = (32 + of_nat j :: u32)"
    have "unat (64 + of_nat i :: u32) = 64 + i" "unat (32 + of_nat j :: u32) = 32 + j"
      using ij by (simp_all add: unat_add_no_carry unat_of_nat_small)
    hence "64 + i = 32 + j" using eq by metis
    thus False using ij(2) by simp
  qed
  moreover have "length [97, 98, 99 :: u8] < 2 ^ 32" "(0 :: u32) < 1" by simp_all
  ultimately show ?thesis using strcpy_strlcpy_spec [OF demo_mem_cstr(1), of 64 1] by blast
qed



end
