(* ===== verification/Jos_Kdebug.thy ===== *)
theory Jos_Kdebug
  imports Jos_Str
begin

text \<open>
  Debugging information: \<open>kern/kdebug.c\<close> with the types of \<open>inc/stab.h\<close> and \<open>kern/kdebug.h\<close>.

  The search works on the array of stabs as a function of the index. \<open>debuginfo_eip\<close> reads the
  stabs and strings from memory through the addresses it is given; a pointer into the
  string table is an address, and \<open>None\<close> stands for the constant \<open>"<unknown>"\<close>.
\<close>

section \<open>Stabs\<close>

definition N_FUN :: u8 where [simp]: "N_FUN = 0x24"
definition N_SLINE :: u8 where [simp]: "N_SLINE = 0x44"
definition N_SO :: u8 where [simp]: "N_SO = 0x64"
definition N_SOL :: u8 where [simp]: "N_SOL = 0x84"
definition N_PSYM :: u8 where [simp]: "N_PSYM = 0xa0"

record Stab =
  n_strx :: u32
  n_type :: u8
  n_other :: u8
  n_desc :: u16
  n_value :: u32

definition read_Stab :: "mem \<Rightarrow> u32 \<Rightarrow> Stab" where
  "read_Stab m a = \<lparr>n_strx = ld32 m a, n_type = m (a + 4), n_other = m (a + 5),
     n_desc = ucast (m (a + 6)) OR push_bit 8 (ucast (m (a + 7))), n_value = ld32 m (a + 8)\<rparr>"

section \<open>stab_binsearch\<close>

text \<open>The first index from \<open>m\<close> downwards that has the type, or one that is below \<open>l\<close>.\<close>

function scan_down :: "(int \<Rightarrow> Stab) \<Rightarrow> u8 \<Rightarrow> int \<Rightarrow> int \<Rightarrow> int" where
  "scan_down stabs ty l m = (if m \<ge> l \<and> n_type (stabs m) \<noteq> ty then scan_down stabs ty l (m - 1) else m)"
  by pat_completeness auto
termination by (relation "measure (\<lambda>(stabs, ty, l, m). nat (m - l + 1))") auto

declare scan_down.simps [simp del]

lemma scan_down_le: "scan_down stabs ty l m \<le> m"
proof (induction stabs ty l m rule: scan_down.induct)
  case (1 stabs ty l m)
  thus ?case by (subst scan_down.simps) auto
qed

lemma scan_down_ge: "l - 1 \<le> m \<Longrightarrow> l - 1 \<le> scan_down stabs ty l m"
proof (induction stabs ty l m rule: scan_down.induct)
  case (1 stabs ty l m)
  thus ?case by (subst scan_down.simps) auto
qed

record search =
  sr_left :: int
  sr_right :: int
  sr_any :: bool

text \<open>The loop variables \<open>l\<close>, \<open>r\<close> and \<open>addr\<close>, with \<open>*region_left\<close>, \<open>*region_right\<close> and \<open>any_matches\<close>.\<close>

definition probe :: "(int \<Rightarrow> Stab) \<Rightarrow> u8 \<Rightarrow> int \<Rightarrow> int \<Rightarrow> int" where
  "probe stabs ty l r = scan_down stabs ty l ((l + r) div 2)"

lemma middle: "l \<le> r \<Longrightarrow> l \<le> (l + r) div 2" "l \<le> r \<Longrightarrow> (l + r) div 2 \<le> r" for l r :: int
  by simp_all

lemma interval_less:
  fixes l r l' r' :: int
  assumes "l \<le> r" and "l \<le> l'" and "r' \<le> r" and "l < l' \<or> r' < r" and "x \<le> (1 :: nat)"
  shows "2 * nat (r' - l' + 1) + x < 2 * nat (r - l + 1) + y"
proof -
  have "nat (r' - l' + 1) < nat (r - l + 1)" using assms(1-4) by auto
  thus ?thesis using assms(5) by linarith
qed

function binsearch_loop :: "(int \<Rightarrow> Stab) \<Rightarrow> u8 \<Rightarrow> int \<Rightarrow> int \<Rightarrow> u32 \<Rightarrow> search \<Rightarrow> search" where
  "binsearch_loop stabs ty l r addr s =
     (if l \<le> r then
        (let true_m = (l + r) div 2; m = probe stabs ty l r in
         if m < l then binsearch_loop stabs ty (true_m + 1) r addr s
         else if n_value (stabs m) < addr
           then binsearch_loop stabs ty (true_m + 1) r addr (s\<lparr>sr_any := True, sr_left := m\<rparr>)
         else if n_value (stabs m) > addr
           then binsearch_loop stabs ty l (m - 1) addr (s\<lparr>sr_any := True, sr_right := m - 1\<rparr>)
         else binsearch_loop stabs ty m r (addr + 1) (s\<lparr>sr_any := True, sr_left := m\<rparr>))
      else s)"
  by pat_completeness auto
termination
proof (relation "measure (\<lambda>(stabs, ty, l, r, addr, s).
    2 * nat (r - l + 1) + (if n_value (stabs (probe stabs ty l r)) = addr then 1 else 0))", goal_cases)
  case (2 stabs ty l r addr s true_m m)
  thus ?case using middle [of l r] by (simp only: in_measure case_prod_conv) (intro interval_less, simp_all)
next
  case (3 stabs ty l r addr s true_m m)
  thus ?case using middle [of l r] by (simp only: in_measure case_prod_conv) (intro interval_less, simp_all)
next
  case (4 stabs ty l r addr s true_m m)
  hence "m \<le> r" using middle [of l r] scan_down_le [of stabs ty l true_m] by (simp add: probe_def)
  thus ?case using 4 by (simp only: in_measure case_prod_conv) (intro interval_less, simp_all)
next
  case (5 stabs ty l r addr s true_m m)
  show ?case
  proof (cases "m = l")
    case True
    hence "n_value (stabs (probe stabs ty l r)) = addr" using 5 by simp
    thus ?thesis using True 5(3) by simp
  next
    case False
    thus ?thesis using 5 by (simp only: in_measure case_prod_conv) (intro interval_less, simp_all)
  qed
qed simp

declare binsearch_loop.simps [simp del]

text \<open>The last loop: from \<open>*region_right\<close> down to a stab of the type, at most to \<open>*region_left\<close>.\<close>

function scan_back :: "(int \<Rightarrow> Stab) \<Rightarrow> u8 \<Rightarrow> int \<Rightarrow> int \<Rightarrow> int" where
  "scan_back stabs ty left l = (if l > left \<and> n_type (stabs l) \<noteq> ty then scan_back stabs ty left (l - 1) else l)"
  by pat_completeness auto
termination by (relation "measure (\<lambda>(stabs, ty, left, l). nat (l - left))") auto

declare scan_back.simps [simp del]

definition stab_binsearch :: "(int \<Rightarrow> Stab) \<Rightarrow> int \<Rightarrow> int \<Rightarrow> u8 \<Rightarrow> u32 \<Rightarrow> int \<times> int" where
  "stab_binsearch stabs region_left region_right ty addr =
     (let s = binsearch_loop stabs ty region_left region_right addr
                \<lparr>sr_left = region_left, sr_right = region_right, sr_any = False\<rparr>
      in if \<not> sr_any s then (sr_left s, sr_left s - 1)
         else (scan_back stabs ty (sr_left s) (sr_right s), sr_right s))"

section \<open>debuginfo_eip\<close>

record Eipdebuginfo =
  eip_file :: "u32 option"
  eip_line :: int
  eip_fn_name :: "u32 option"
  eip_fn_namelen :: int
  eip_fn_addr :: u32
  eip_fn_narg :: int

text \<open>The addresses of the kernel's stabs and strings, or those at \<open>USTABDATA\<close>.\<close>

record UserStabData =
  ud_stabs :: u32
  ud_stab_end :: u32
  ud_stabstr :: u32
  ud_stabstr_end :: u32

definition read_UserStabData :: "mem \<Rightarrow> u32 \<Rightarrow> UserStabData" where
  "read_UserStabData m a = \<lparr>ud_stabs = ld32 m a, ud_stab_end = ld32 m (a + 4), ud_stabstr = ld32 m (a + 8),
     ud_stabstr_end = ld32 m (a + 12)\<rparr>"

function find_file :: "(int \<Rightarrow> Stab) \<Rightarrow> int \<Rightarrow> int \<Rightarrow> int" where
  "find_file stabs lfile lline =
     (if lline \<ge> lfile \<and> n_type (stabs lline) \<noteq> N_SOL \<and> (n_type (stabs lline) \<noteq> N_SO \<or> n_value (stabs lline) = 0)
      then find_file stabs lfile (lline - 1) else lline)"
  by pat_completeness auto
termination by (relation "measure (\<lambda>(stabs, lfile, lline). nat (lline - lfile + 1))") auto

function count_args :: "(int \<Rightarrow> Stab) \<Rightarrow> int \<Rightarrow> int \<Rightarrow> int \<Rightarrow> int" where
  "count_args stabs rfun lline n =
     (if lline < rfun \<and> n_type (stabs lline) = N_PSYM then count_args stabs rfun (lline + 1) (n + 1) else n)"
  by pat_completeness auto
termination by (relation "measure (\<lambda>(stabs, rfun, lline, n). nat (rfun - lline))") auto

declare find_file.simps [simp del] count_args.simps [simp del]

text \<open>\<open>ksd\<close> holds the linker symbols around the kernel's tables. The result carries the return value;
  it is \<open>None\<close> when the name is not terminated.\<close>

definition debuginfo_eip :: "mem \<Rightarrow> UserStabData \<Rightarrow> u32 \<Rightarrow> (int \<times> Eipdebuginfo) option" where
  "debuginfo_eip m ksd addr =
     (let info = \<lparr>eip_file = None, eip_line = 0, eip_fn_name = None, eip_fn_namelen = 9, eip_fn_addr = addr, eip_fn_narg = 0\<rparr>;
          sd = (if addr \<ge> ULIM then ksd else read_UserStabData m USTABDATA);
          stabs = (\<lambda>i. read_Stab m (ud_stabs sd + 12 * of_int i));
          nstr = ud_stabstr_end sd - ud_stabstr sd
      in if ud_stabstr_end sd \<le> ud_stabstr sd \<or> m (ud_stabstr_end sd - 1) \<noteq> 0 then Some (-1, info)
      else
        (let (lfile, rfile) = stab_binsearch stabs 0 (sint (ud_stab_end sd - ud_stabs sd) div 12 - 1) N_SO addr in
         if lfile = 0 then Some (-1, info)
         else
           (let (lfun, rfun) = stab_binsearch stabs lfile rfile N_FUN addr;
                (info, addr, lline, rline) =
                  (if lfun \<le> rfun then
                     (let info = (if n_strx (stabs lfun) < nstr
                                  then info\<lparr>eip_fn_name := Some (ud_stabstr sd + n_strx (stabs lfun))\<rparr> else info);
                          info = info\<lparr>eip_fn_addr := n_value (stabs lfun)\<rparr>
                      in (info, addr - eip_fn_addr info, lfun, rfun))
                   else (info\<lparr>eip_fn_addr := addr\<rparr>, addr, lfile, rfile))
            in case (case eip_fn_name info of None \<Rightarrow> Some 9
                     | Some p \<Rightarrow> map_option (\<lambda>e. sint (e - p)) (strfind m p (byte (CHR '':'')))) of
                 None \<Rightarrow> None
               | Some len \<Rightarrow>
                   (let info = info\<lparr>eip_fn_namelen := len\<rparr>;
                        (lline, rline) = stab_binsearch stabs lline rline N_SLINE addr;
                        info = info\<lparr>eip_line := (if lline \<le> rline then uint (n_desc (stabs lline)) else -1)\<rparr>;
                        lline = find_file stabs lfile lline;
                        info = (if lline \<ge> lfile \<and> n_strx (stabs lline) < nstr
                                then info\<lparr>eip_file := Some (ud_stabstr sd + n_strx (stabs lline))\<rparr> else info);
                        info = (if lfun < rfun
                                then info\<lparr>eip_fn_narg := count_args stabs rfun (lfun + 1) (eip_fn_narg info)\<rparr> else info)
                    in Some (0, info)))))"

section \<open>The search\<close>

abbreviation has_type :: "(int \<Rightarrow> Stab) \<Rightarrow> u8 \<Rightarrow> int \<Rightarrow> bool" where
  "has_type stabs ty i \<equiv> n_type (stabs i) = ty"

lemma scan_down_none: "scan_down stabs ty l m < i \<Longrightarrow> i \<le> m \<Longrightarrow> l \<le> i \<Longrightarrow> \<not> has_type stabs ty i"
proof (induction stabs ty l m rule: scan_down.induct)
  case (1 stabs ty l m)
  show ?case
  proof (cases "m \<ge> l \<and> n_type (stabs m) \<noteq> ty")
    case True
    hence "scan_down stabs ty l m = scan_down stabs ty l (m - 1)" by (subst scan_down.simps) simp
    thus ?thesis using 1 True by (cases "i = m") auto
  next
    case False
    hence "scan_down stabs ty l m = m" by (subst scan_down.simps) auto
    thus ?thesis using 1 by simp
  qed
qed

lemma scan_down_type: "l \<le> scan_down stabs ty l m \<Longrightarrow> has_type stabs ty (scan_down stabs ty l m)"
proof (induction stabs ty l m rule: scan_down.induct)
  case (1 stabs ty l m)
  show ?case
  proof (cases "m \<ge> l \<and> n_type (stabs m) \<noteq> ty")
    case True
    hence "scan_down stabs ty l m = scan_down stabs ty l (m - 1)" by (subst scan_down.simps) simp
    thus ?thesis using 1 True by simp
  next
    case False
    hence "scan_down stabs ty l m = m" by (subst scan_down.simps) auto
    thus ?thesis using 1 False by simp
  qed
qed

lemma scan_back_spec:
  assumes "left \<le> l"
  shows "left \<le> scan_back stabs ty left l \<and> scan_back stabs ty left l \<le> l \<and>
     (scan_back stabs ty left l = left \<or> has_type stabs ty (scan_back stabs ty left l)) \<and>
     (\<forall>i. scan_back stabs ty left l < i \<longrightarrow> i \<le> l \<longrightarrow> \<not> has_type stabs ty i)"
  using assms
proof (induction stabs ty left l rule: scan_back.induct)
  case (1 stabs ty left l)
  show ?case
  proof (cases "l > left \<and> n_type (stabs l) \<noteq> ty")
    case True
    hence e: "scan_back stabs ty left l = scan_back stabs ty left (l - 1)" by (subst scan_back.simps) simp
    have "\<not> has_type stabs ty i" if "scan_back stabs ty left (l - 1) < i" "i \<le> l" for i
      using 1(1) [OF True] True that by (cases "i = l") auto
    thus ?thesis unfolding e using 1(1) [OF True] True by auto
  next
    case False
    hence "scan_back stabs ty left l = l" by (subst scan_back.simps) auto
    thus ?thesis using 1 False by auto
  qed
qed

text \<open>The values of the stabs of a type do not decrease, and none is just above the address
  searched for.\<close>

definition searchable :: "(int \<Rightarrow> Stab) \<Rightarrow> u8 \<Rightarrow> int \<Rightarrow> int \<Rightarrow> u32 \<Rightarrow> bool" where
  "searchable stabs ty L R a \<longleftrightarrow> unat a < 2 ^ 32 - 1 \<and>
     (\<forall>i j. L \<le> i \<longrightarrow> i < j \<longrightarrow> j \<le> R \<longrightarrow> has_type stabs ty i \<longrightarrow> has_type stabs ty j \<longrightarrow> n_value (stabs i) \<le> n_value (stabs j)) \<and>
     (\<forall>i. L \<le> i \<longrightarrow> i \<le> R \<longrightarrow> has_type stabs ty i \<longrightarrow> n_value (stabs i) \<noteq> a + 1)"

definition some_type :: "(int \<Rightarrow> Stab) \<Rightarrow> u8 \<Rightarrow> int \<Rightarrow> int \<Rightarrow> bool" where
  "some_type stabs ty L R \<longleftrightarrow> (\<exists>i. L \<le> i \<and> i \<le> R \<and> has_type stabs ty i)"

text \<open>The state of the loop when \<open>l\<close> and \<open>r\<close> are the bounds and \<open>c\<close> the current address: stabs of the type below \<open>l\<close>
  are at or before \<open>a\<close>, those above \<open>r\<close> after it.\<close>

definition bracket :: "(int \<Rightarrow> Stab) \<Rightarrow> u8 \<Rightarrow> int \<Rightarrow> int \<Rightarrow> u32 \<Rightarrow> int \<Rightarrow> int \<Rightarrow> u32 \<Rightarrow> search \<Rightarrow> bool" where
  "bracket stabs ty L R a l r c s \<longleftrightarrow> L \<le> l \<and> r \<le> R \<and> l \<le> r + 1 \<and> (c = a \<or> c = a + 1) \<and>
     (\<forall>i. L \<le> i \<longrightarrow> i < l \<longrightarrow> has_type stabs ty i \<longrightarrow> n_value (stabs i) \<le> a) \<and>
     (\<forall>i. r < i \<longrightarrow> i \<le> R \<longrightarrow> has_type stabs ty i \<longrightarrow> a < n_value (stabs i)) \<and>
     sr_right s = r \<and> (r < R \<longrightarrow> has_type stabs ty (r + 1)) \<and>
     (sr_left s = L \<or> L \<le> sr_left s \<and> sr_left s \<le> R \<and> has_type stabs ty (sr_left s) \<and> n_value (stabs (sr_left s)) \<le> a) \<and>
     (\<not> sr_any s \<longrightarrow> sr_left s = L \<and> r = R \<and> (\<forall>i. L \<le> i \<longrightarrow> i < l \<longrightarrow> \<not> has_type stabs ty i)) \<and>
     (sr_any s \<longrightarrow> some_type stabs ty L R)"

lemma bracketD:
  assumes "bracket stabs ty L R a l r c s"
  shows "L \<le> i \<Longrightarrow> i < l \<Longrightarrow> has_type stabs ty i \<Longrightarrow> n_value (stabs i) \<le> a"
    and "r < i \<Longrightarrow> i \<le> R \<Longrightarrow> has_type stabs ty i \<Longrightarrow> a < n_value (stabs i)"
    and "sr_right s = r" and "r \<le> R" and "r < R \<Longrightarrow> has_type stabs ty (r + 1)"
    and "sr_left s = L \<or> L \<le> sr_left s \<and> sr_left s \<le> R \<and> has_type stabs ty (sr_left s) \<and> n_value (stabs (sr_left s)) \<le> a"
    and "\<not> sr_any s \<Longrightarrow> sr_left s = L \<and> r = R" "\<not> sr_any s \<Longrightarrow> L \<le> i \<Longrightarrow> i < l \<Longrightarrow> \<not> has_type stabs ty i"
    and "sr_any s \<Longrightarrow> some_type stabs ty L R"
  using assms unfolding bracket_def by blast+

lemma bracket_up:
  assumes "searchable stabs ty L R a" and "bracket stabs ty L R a l r c s" and "l \<le> k" "k \<le> r + 1"
    and "\<And>i. l \<le> i \<Longrightarrow> i < k \<Longrightarrow> \<not> has_type stabs ty i"
  shows "bracket stabs ty L R a k r c s"
proof -
  have "L \<le> i \<Longrightarrow> i < k \<Longrightarrow> has_type stabs ty i \<Longrightarrow> i < l" for i using assms(5) [of i] by linarith
  thus ?thesis using assms(2-4) unfolding bracket_def by auto
qed

lemma bracket_left:
  assumes "searchable stabs ty L R a" and "bracket stabs ty L R a l r c s" and "l \<le> m" "m \<le> r" "m \<le> k" "k \<le> r + 1"
    and "\<And>i. m < i \<Longrightarrow> i < k \<Longrightarrow> \<not> has_type stabs ty i"
    and "has_type stabs ty m" and "n_value (stabs m) \<le> a" and "c' = a \<or> c' = a + 1"
  shows "bracket stabs ty L R a k r c' (s\<lparr>sr_any := True, sr_left := m\<rparr>)"
proof -
  have "n_value (stabs i) \<le> a" if "L \<le> i" "i < k" "has_type stabs ty i" for i
  proof (cases "i = m")
    case False
    hence "i < m" using assms(7) [of i] that by linarith
    hence "n_value (stabs i) \<le> n_value (stabs m)"
      using assms(1,2,4,8) that unfolding searchable_def bracket_def by auto
    thus ?thesis using assms(9) by simp
  qed (use assms in simp)
  moreover have "some_type stabs ty L R" unfolding some_type_def using assms(2-4,8) by (intro exI [of _ m]) (simp add: bracket_def)
  ultimately show ?thesis using assms(2-6,8-) unfolding bracket_def by auto
qed

lemma bracket_right:
  assumes "searchable stabs ty L R a" and "bracket stabs ty L R a l r c s" and "l \<le> m" "m \<le> r"
    and "has_type stabs ty m" and "a < n_value (stabs m)"
  shows "bracket stabs ty L R a l (m - 1) c (s\<lparr>sr_any := True, sr_right := m - 1\<rparr>)"
proof -
  have "a < n_value (stabs i)" if "m - 1 < i" "i \<le> R" "has_type stabs ty i" for i
  proof (cases "i = m")
    case False
    hence "m < i" using that by linarith
    hence "n_value (stabs m) \<le> n_value (stabs i)"
      using assms(1,2,3,5) that unfolding searchable_def bracket_def by auto
    thus ?thesis using assms(6) by simp
  qed (use assms in simp)
  moreover have "some_type stabs ty L R" unfolding some_type_def using assms(2-5) by (intro exI [of _ m]) (simp add: bracket_def)
  ultimately show ?thesis using assms(2-) unfolding bracket_def by auto
qed

lemma compare_next:
  fixes v a :: u32
  assumes "unat a < 2 ^ 32 - 1" and "v \<noteq> a + 1"
  shows "v < a + 1 \<longleftrightarrow> v \<le> a" and "a + 1 < v \<longleftrightarrow> a < v"
proof -
  have u: "unat (a + 1) = unat a + 1" using assms(1) by (simp add: unat_add_no_carry)
  hence "unat v \<noteq> unat a + 1" using assms(2) by (metis word_unat_eq_iff)
  thus "v < a + 1 \<longleftrightarrow> v \<le> a" and "a + 1 < v \<longleftrightarrow> a < v" using u by (auto simp: word_less_nat_alt word_le_nat_alt)
qed

lemma binsearch_loop_bracket:
  "searchable stabs ty L R a \<Longrightarrow> bracket stabs ty L R a l r c s \<Longrightarrow>
   \<exists>l' r' c'. bracket stabs ty L R a l' r' c' (binsearch_loop stabs ty l r c s) \<and> r' < l'"
proof (induction stabs ty l r c s rule: binsearch_loop.induct)
  case (1 stabs ty l r c s)
  note IH = 1(1-4) and ok = 1(5) and br = 1(6)
  show ?case
  proof (cases "l \<le> r")
    case False
    hence "binsearch_loop stabs ty l r c s = s" by (subst binsearch_loop.simps) simp
    thus ?thesis using br False by (intro exI [of _ l] exI [of _ r] exI [of _ c]) simp
  next
    case True
    let ?k = "(l + r) div 2" and ?m = "probe stabs ty l r"
    note mid = middle [OF True]
    have m: "?m \<le> ?k" "?m \<le> r" using scan_down_le [of stabs ty l ?k] mid by (simp_all add: probe_def)
    have none: "\<not> has_type stabs ty i" if "l \<le> i" "?m < i" "i < ?k + 1" for i
      using scan_down_none [of stabs ty l ?k i] that by (simp add: probe_def)
    have ty: "has_type stabs ty ?m" if "l \<le> ?m" using scan_down_type [of l stabs ty ?k] that by (simp add: probe_def)
    have bnd: "L \<le> l" "r \<le> R" and c: "c = a \<or> c = a + 1" using br by (simp_all add: bracket_def)
    have ne: "n_value (stabs ?m) \<noteq> a + 1" if "l \<le> ?m" using ok ty that m bnd unfolding searchable_def by auto
    have a: "unat a < 2 ^ 32 - 1" using ok by (simp add: searchable_def)
    note cmp = compare_next [OF a ne]
    consider "?m < l" | "l \<le> ?m" "n_value (stabs ?m) < c" | "l \<le> ?m" "c < n_value (stabs ?m)"
      | "l \<le> ?m" "n_value (stabs ?m) = c" by fastforce
    thus ?thesis
    proof cases
      case 1
      have "binsearch_loop stabs ty l r c s = binsearch_loop stabs ty (?k + 1) r c s"
        using True 1 by (subst binsearch_loop.simps) (simp add: Let_def)
      moreover have "bracket stabs ty L R a (?k + 1) r c s"
        using 1 mid none by (intro bracket_up [OF ok br]) auto
      ultimately show ?thesis using IH(1) [OF True refl refl 1 ok] by simp
    next
      case 2
      let ?s = "s\<lparr>sr_any := True, sr_left := ?m\<rparr>"
      have "binsearch_loop stabs ty l r c s = binsearch_loop stabs ty (?k + 1) r c ?s"
        using True 2 by (subst binsearch_loop.simps) (simp add: Let_def)
      moreover have "n_value (stabs ?m) \<le> a" using 2 c cmp(1) by auto
      hence "bracket stabs ty L R a (?k + 1) r c ?s"
        using 2 m mid none c by (intro bracket_left [OF ok br _ _ _ _ _ ty]) auto
      ultimately show ?thesis using IH(2) [OF True refl refl _ _ ok] 2 by simp
    next
      case 3
      let ?s = "s\<lparr>sr_any := True, sr_right := ?m - 1\<rparr>"
      have "binsearch_loop stabs ty l r c s = binsearch_loop stabs ty l (?m - 1) c ?s"
        using True 3 by (subst binsearch_loop.simps) (simp add: Let_def)
      moreover have "a < n_value (stabs ?m)" using 3 c cmp(2) by auto
      hence "bracket stabs ty L R a l (?m - 1) c ?s" by (rule bracket_right [OF ok br 3(1) m(2) ty [OF 3(1)]])
      ultimately show ?thesis using IH(3) [OF True refl refl _ _ _ ok] 3 by simp
    next
      case 4
      let ?s = "s\<lparr>sr_any := True, sr_left := ?m\<rparr>"
      have "binsearch_loop stabs ty l r c s = binsearch_loop stabs ty ?m r (c + 1) ?s"
        using True 4 by (subst binsearch_loop.simps) (simp add: Let_def)
      moreover have "c = a" using 4 c ne by auto
      hence "bracket stabs ty L R a ?m r (c + 1) ?s"
        using 4 m by (intro bracket_left [OF ok br _ _ _ _ _ ty]) auto
      ultimately show ?thesis using IH(4) [OF True refl refl _ _ _ ok] 4 by simp
    qed
  qed
qed

section \<open>Properties\<close>

text \<open>C29: \<open>stab_binsearch\<close>. When the stabs of the type are in the order of their addresses and none lies just after
  the address, the search brackets the address: the left end is the last stab of the type at or
  before the address, if there is one, and the right end is just before the next stab of the type. If
  the range has no stab of the type, the left end is behind the right end.\<close>

theorem stab_binsearch_spec:
  assumes ok: "searchable stabs ty L R a" and "L \<le> R + 1" and res: "stab_binsearch stabs L R ty a = (lft, rgt)"
  shows "((\<forall>i. L \<le> i \<longrightarrow> i \<le> R \<longrightarrow> n_type (stabs i) \<noteq> ty) \<longrightarrow> lft = L \<and> rgt = L - 1) \<and>
     (\<forall>i. L \<le> i \<longrightarrow> i \<le> R \<longrightarrow> n_type (stabs i) = ty \<longrightarrow> n_value (stabs i) \<le> a \<longrightarrow>
        i \<le> lft \<and> lft \<le> rgt \<and> rgt \<le> R \<and> n_type (stabs lft) = ty \<and> n_value (stabs lft) \<le> a \<and>
        (\<forall>j. lft < j \<longrightarrow> j \<le> rgt \<longrightarrow> n_type (stabs j) \<noteq> ty) \<and>
        (rgt < R \<longrightarrow> n_type (stabs (rgt + 1)) = ty \<and> a < n_value (stabs (rgt + 1))))"
proof -
  let ?s = "binsearch_loop stabs ty L R a \<lparr>sr_left = L, sr_right = R, sr_any = False\<rparr>"
  have "bracket stabs ty L R a L R a \<lparr>sr_left = L, sr_right = R, sr_any = False\<rparr>"
    using assms(2) by (simp add: bracket_def)
  from binsearch_loop_bracket [OF ok this] obtain l r c where
    br: "bracket stabs ty L R a l r c ?s" and rl: "r < l" by blast
  note D = bracketD [OF br]
  have "lft = L \<and> rgt = L - 1" if "\<forall>i. L \<le> i \<longrightarrow> i \<le> R \<longrightarrow> \<not> has_type stabs ty i"
  proof -
    have "\<not> sr_any ?s" using D(9) that unfolding some_type_def by blast
    thus ?thesis using D(7) res by (simp add: stab_binsearch_def Let_def)
  qed
  moreover have "i \<le> lft \<and> lft \<le> rgt \<and> rgt \<le> R \<and> has_type stabs ty lft \<and> n_value (stabs lft) \<le> a \<and>
      (\<forall>j. lft < j \<longrightarrow> j \<le> rgt \<longrightarrow> \<not> has_type stabs ty j) \<and>
      (rgt < R \<longrightarrow> has_type stabs ty (rgt + 1) \<and> a < n_value (stabs (rgt + 1)))"
    if i: "L \<le> i" "i \<le> R" "has_type stabs ty i" "n_value (stabs i) \<le> a" for i
  proof -
    have below: "n_value (stabs j) \<le> a" if "L \<le> j" "j \<le> r" "has_type stabs ty j" for j
      using D(1) [of j] rl that by simp
    have above: "j \<le> r" if "j \<le> R" "has_type stabs ty j" "n_value (stabs j) \<le> a" for j
      using D(2) [of j] that by (meson linorder_not_le)
    have ir: "i \<le> r" by (rule above [OF i(2-4)])
    have any: "sr_any ?s" using D(8) [of i] rl i(1,3) ir by linarith
    have left: "L \<le> sr_left ?s" "sr_left ?s \<le> r" using D(6) ir i(1) above [of "sr_left ?s"] by linarith+
    have r: "sr_right ?s = r" "r \<le> R" "r < R \<longrightarrow> has_type stabs ty (r + 1) \<and> a < n_value (stabs (r + 1))"
      using D(3-5) D(2) [of "r + 1"] by simp_all
    have lr: "lft = scan_back stabs ty (sr_left ?s) r" "rgt = r" using res any r(1) by (auto simp: stab_binsearch_def Let_def)
    note sb = scan_back_spec [OF left(2), of stabs ty, folded lr(1)]
    have ty: "has_type stabs ty lft"
    proof (rule ccontr)
      assume n: "\<not> has_type stabs ty lft"
      hence e: "lft = sr_left ?s" using sb by blast
      hence "sr_left ?s = L" using D(6) n by auto
      hence "lft < i" using e i n by (cases "i = lft") auto
      thus False using sb ir i(3) by blast
    qed
    have "\<not> lft < i" using sb ir i(3) by blast
    hence "i \<le> lft" by simp
    thus ?thesis using sb ty below [of lft] left lr(2) r(2,3) by simp
  qed
  ultimately show ?thesis by blast
qed

text \<open>Four stabs, of which three are functions at the addresses 16, 18 and 32.\<close>

definition demo_stabs :: "int \<Rightarrow> Stab" where
  "demo_stabs i = \<lparr>n_strx = 0, n_type = (if i = 1 then N_SLINE else N_FUN), n_other = 0, n_desc = 0,
     n_value = (if i \<le> 0 then 16 else if i = 2 then 18 else 32)\<rparr>"

lemma demo_searchable: "searchable demo_stabs N_FUN 0 3 18"
  by (simp add: searchable_def demo_stabs_def)

theorem stab_binsearch_spec_witness: "fst (stab_binsearch demo_stabs 0 3 N_FUN 18) = 2"
proof -
  obtain lft rgt where r: "stab_binsearch demo_stabs 0 3 N_FUN 18 = (lft, rgt)" by fastforce
  have t: "n_type (demo_stabs 2) = N_FUN" "n_value (demo_stabs 2) \<le> 18" by (simp_all add: demo_stabs_def)
  have "2 \<le> lft \<and> lft \<le> rgt \<and> rgt \<le> 3 \<and> n_value (demo_stabs lft) \<le> 18"
    using stab_binsearch_spec [OF demo_searchable _ r, THEN conjunct2, rule_format, of 2] t by simp
  hence "lft = 2" by (cases "lft = 3") (simp_all add: demo_stabs_def)
  thus ?thesis using r by simp
qed

text \<open>an exact match makes the search look for the next address as well. For two stabs
  at adjacent addresses it returns the second one for the address of the first: a stab that begins after the
  address.\<close>

theorem stab_binsearch_adjacent:
  assumes "n_type (stabs 0) = ty" and "n_type (stabs 1) = ty" and "n_value (stabs 0) = a" and "n_value (stabs 1) = a + 1"
    and "unat a < 2 ^ 32 - 2"
  shows "stab_binsearch stabs 0 1 ty a = (1, 1) \<and> a < n_value (stabs 1)"
proof -
  have u: "unat (a + 1) = unat a + 1" "unat (a + 2) = unat a + 2" using assms(5) by (simp_all add: unat_add_no_carry)
  hence lt: "a < a + 1" "a + 1 < a + 2" by (simp_all add: word_less_nat_alt)
  have p: "probe stabs ty 0 1 = 0" "probe stabs ty 1 1 = 1"
    using assms(1,2) by (simp_all add: probe_def scan_down.simps)
  have "binsearch_loop stabs ty 0 1 a s = binsearch_loop stabs ty 0 1 (a + 1) (s\<lparr>sr_any := True, sr_left := 0\<rparr>)" for s
    using p(1) assms(3) by (subst binsearch_loop.simps) (simp add: Let_def)
  moreover have "binsearch_loop stabs ty 0 1 (a + 1) s = binsearch_loop stabs ty 1 1 (a + 1) (s\<lparr>sr_any := True, sr_left := 0\<rparr>)" for s
    using p(1) assms(3) lt by (subst binsearch_loop.simps) (simp add: Let_def)
  moreover have "binsearch_loop stabs ty 1 1 (a + 1) s = binsearch_loop stabs ty 1 1 (a + 1 + 1) (s\<lparr>sr_any := True, sr_left := 1\<rparr>)" for s
    using p(2) assms(4) by (subst binsearch_loop.simps) (simp add: Let_def)
  moreover have "binsearch_loop stabs ty 1 1 (a + 1 + 1) s = binsearch_loop stabs ty 2 1 (a + 1 + 1) (s\<lparr>sr_any := True, sr_left := 1\<rparr>)" for s
    using p(2) assms(4) lt by (subst binsearch_loop.simps) (simp add: Let_def add.assoc)
  moreover have "binsearch_loop stabs ty 2 1 c s = s" for c s by (subst binsearch_loop.simps) simp
  ultimately show ?thesis using lt(1) assms(4) by (simp add: stab_binsearch_def Let_def scan_back.simps)
qed

theorem stab_binsearch_adjacent_witness:
  "stab_binsearch (\<lambda>i. \<lparr>n_strx = 0, n_type = N_SLINE, n_other = 0, n_desc = 0, n_value = of_int i\<rparr>) 0 1 N_SLINE 0 = (1, 1)"
  by (rule stab_binsearch_adjacent [THEN conjunct1]) simp_all

end
