(* ===== verification/Jos_Printfmt.thy ===== *)
theory Jos_Printfmt
  imports Jos_Str
begin

text \<open>
  Formatted output: \<open>lib/printfmt.c\<close> and the \<open>cprintf\<close> families of \<open>kern/printf.c\<close> and
  \<open>lib/printf.c\<close>.

  As in the source the formatter is parameterised by \<open>putch\<close>, here a function on the state that
  \<open>putdat\<close> points to. Format, strings and arguments are read from a memory that the output
  does not change; \<open>ap\<close> is the address of the next argument, which takes one or two 32-bit
  slots. \<open>vprintfmt\<close> is one loop over the control states of the C function: plain text, or a
  conversion specification with the flags read so far. Field width and precision are unbounded
  integers: their overflow in an \<open>int\<close> is not modelled.
\<close>

section \<open>printnum, getuint, getint\<close>

definition hexdigit :: "u64 \<Rightarrow> u32" where
  "hexdigit d = ucast (byte (''0123456789abcdef'' ! unat d))"

primrec put_times :: "(u32 \<Rightarrow> 's \<Rightarrow> 's) \<Rightarrow> u32 \<Rightarrow> nat \<Rightarrow> 's \<Rightarrow> 's" where
  "put_times putch c 0 s = s"
| "put_times putch c (Suc n) s = put_times putch c n (putch c s)"

text \<open>\<open>base\<close> is 8, 10 or 16 in all calls; the recursion needs it to be at least 2.\<close>

function printnum :: "(u32 \<Rightarrow> 's \<Rightarrow> 's) \<Rightarrow> u64 \<Rightarrow> u64 \<Rightarrow> int \<Rightarrow> u32 \<Rightarrow> 's \<Rightarrow> 's" where
  "printnum putch num base width padc s =
     putch (hexdigit (num mod base))
       (if num \<ge> base \<and> base \<ge> 2 then printnum putch (num div base) base (width - 1) padc s
        else put_times putch padc (nat (width - 1)) s)"
  by pat_completeness auto
termination
proof (relation "measure (\<lambda>(putch, num, base, width, padc, s). unat num)", goal_cases)
  case (2 putch num base width padc s)
  hence "2 \<le> unat base" "unat base \<le> unat num" by (simp_all add: word_le_nat_alt)
  thus ?case by (simp add: unat_div)
qed simp

declare printnum.simps [simp del]

text \<open>\<open>va_arg\<close> for one and for two slots.\<close>

definition va_u32 :: "mem \<Rightarrow> u32 \<Rightarrow> u32 \<times> u32" where
  "va_u32 m ap = (ld32 m ap, ap + 4)"

definition va_u64 :: "mem \<Rightarrow> u32 \<Rightarrow> u64 \<times> u32" where
  "va_u64 m ap = (ucast (ld32 m ap) OR push_bit 32 (ucast (ld32 m (ap + 4))), ap + 8)"

definition getuint :: "mem \<Rightarrow> u32 \<Rightarrow> nat \<Rightarrow> u64 \<times> u32" where
  "getuint m ap lflag =
     (if lflag \<ge> 2 then va_u64 m ap else (let (v, ap) = va_u32 m ap in (ucast v, ap)))"

definition getint :: "mem \<Rightarrow> u32 \<Rightarrow> nat \<Rightarrow> u64 \<times> u32" where
  "getint m ap lflag =
     (if lflag \<ge> 2 then va_u64 m ap else (let (v, ap) = va_u32 m ap in (scast v, ap)))"

section \<open>Strings, signed numbers, error codes\<close>

definition null_string :: mem where
  "null_string = put (\<lambda>_. 0) 0 (map byte ''(null)'')"

text \<open>A plain \<open>char\<close> is signed: \<open>ch\<close> is the sign-extended byte.\<close>

partial_function (option) put_chars ::
  "(u32 \<Rightarrow> 's \<Rightarrow> 's) \<Rightarrow> mem \<Rightarrow> u32 \<Rightarrow> int \<Rightarrow> int \<Rightarrow> bool \<Rightarrow> 's \<Rightarrow> (int \<times> 's) option" where
  "put_chars putch m p width precision altflag s =
     (let ch = (scast (m p) :: u32) in
      if ch \<noteq> 0 \<and> (precision < 0 \<or> precision - 1 \<ge> 0)
      then put_chars putch m (p + 1) (width - 1) (if precision < 0 then precision else precision - 1) altflag
             (if altflag \<and> (ch <s 32 \<or> 126 <s ch) then putch (ucast (byte (CHR ''?''))) s else putch ch s)
      else Some (width, s))"

definition put_string ::
  "(u32 \<Rightarrow> 's \<Rightarrow> 's) \<Rightarrow> mem \<Rightarrow> u32 \<Rightarrow> u8 \<Rightarrow> int \<Rightarrow> int \<Rightarrow> bool \<Rightarrow> 's \<Rightarrow> 's option" where
  "put_string putch m p padc width precision altflag s =
     (let (m, p) = (if p = 0 then (null_string, 0) else (m, p));
          left = width > 0 \<and> padc \<noteq> byte (CHR ''-'');
          width = (if left then width - sint (strnlen m p (of_int precision)) else width);
          s = (if left then put_times putch (scast padc) (nat width) s else s);
          width = (if left \<and> width > 0 then 0 else width)
      in case put_chars putch m p width precision altflag s of
           None \<Rightarrow> None
         | Some (width, s) \<Rightarrow> Some (put_times putch 32 (nat width) s))"

definition put_signed :: "(u32 \<Rightarrow> 's \<Rightarrow> 's) \<Rightarrow> u64 \<Rightarrow> int \<Rightarrow> u8 \<Rightarrow> 's \<Rightarrow> 's" where
  "put_signed putch num width padc s =
     (let (num, s) = (if num <s 0 then (- num, putch (ucast (byte (CHR ''-''))) s) else (num, s))
      in printnum putch num 10 width (scast padc) s)"

definition MAXERROR :: u32 where [simp]: "MAXERROR = 7"

definition error_string :: "u32 \<Rightarrow> string option" where
  "error_string err = [None, Some ''unspecified error'', Some ''bad environment'', Some ''invalid parameter'',
     Some ''out of memory'', Some ''out of environments'', Some ''segmentation fault''] ! unat err"

text \<open>\<open>%e\<close>: the nested calls print their constant formats \<open>"error %d"\<close> and \<open>"%s"\<close>. For the one
  value whose negation overflows, the table is read out of bounds: no result.\<close>

definition put_error :: "(u32 \<Rightarrow> 's \<Rightarrow> 's) \<Rightarrow> u32 \<Rightarrow> 's \<Rightarrow> 's option" where
  "put_error putch err s =
     (let err = (if err <s 0 then - err else err) in
      if MAXERROR <=s err then
        Some (put_signed putch (scast err) (-1) 32 (fold putch (map (ucast \<circ> byte) ''error '') s))
      else if err <s 0 then None
      else (case error_string err of
          None \<Rightarrow> Some (put_signed putch (scast err) (-1) 32 (fold putch (map (ucast \<circ> byte) ''error '') s))
        | Some p \<Rightarrow> Some (fold putch (map (ucast \<circ> byte) p) s)))"

section \<open>vprintfmt\<close>

definition is_digit :: "u8 \<Rightarrow> bool" where
  "is_digit ch \<longleftrightarrow> byte (CHR ''0'') \<le> ch \<and> ch \<le> byte (CHR ''9'')"

text \<open>A decimal field that starts with the digit \<open>ch\<close>; \<open>fmt\<close> is the address after it.\<close>

partial_function (option) parse_num :: "mem \<Rightarrow> u32 \<Rightarrow> u8 \<Rightarrow> int \<Rightarrow> (int \<times> u32) option" where
  "parse_num m fmt ch precision =
     (let precision = precision * 10 + uint ch - 48; ch = m fmt in
      if is_digit ch then parse_num m (fmt + 1) ch precision else Some (precision, fmt))"

partial_function (option) rewind :: "mem \<Rightarrow> u32 \<Rightarrow> u32 option" where
  "rewind m fmt = (if m (fmt - 1) \<noteq> byte (CHR ''%'') then rewind m (fmt - 1) else Some fmt)"

record spec =
  fs_padc :: u8
  fs_width :: int
  fs_precision :: int
  fs_lflag :: nat
  fs_altflag :: bool

datatype fmode = Plain | Spec spec

definition spec0 :: spec where
  "spec0 = \<lparr>fs_padc = byte (CHR '' ''), fs_width = -1, fs_precision = -1, fs_lflag = 0, fs_altflag = False\<rparr>"

definition process_precision :: "spec \<Rightarrow> spec" where
  "process_precision sp =
     (if fs_width sp < 0 then sp\<lparr>fs_width := fs_precision sp, fs_precision := -1\<rparr> else sp)"

text \<open>What a step of the \<open>switch\<close> leads to: it reads on with other flags, or the specification
  is done; \<open>fmt\<close> and \<open>ap\<close> are the next addresses.\<close>

definition conversion ::
  "(u32 \<Rightarrow> 's \<Rightarrow> 's) \<Rightarrow> mem \<Rightarrow> spec \<Rightarrow> u32 \<Rightarrow> u32 \<Rightarrow> 's \<Rightarrow> (fmode \<times> u32 \<times> u32 \<times> 's) option" where
  "conversion putch m sp fmt ap s =
     (let ch = m fmt; fmt = fmt + 1;
          unsigned = (\<lambda>base. let (num, ap) = getuint m ap (fs_lflag sp)
             in Some (Plain, fmt, ap, printnum putch num base (fs_width sp) (scast (fs_padc sp)) s))
      in
      if ch = byte (CHR ''-'') then Some (Spec (sp\<lparr>fs_padc := ch\<rparr>), fmt, ap, s)
      else if ch = byte (CHR ''0'') then Some (Spec (sp\<lparr>fs_padc := ch\<rparr>), fmt, ap, s)
      else if byte (CHR ''1'') \<le> ch \<and> ch \<le> byte (CHR ''9'') then
        (case parse_num m fmt ch 0 of
           None \<Rightarrow> None
         | Some (n, fmt) \<Rightarrow> Some (Spec (process_precision (sp\<lparr>fs_precision := n\<rparr>)), fmt, ap, s))
      else if ch = byte (CHR ''*'') then
        (let (n, ap) = va_u32 m ap in Some (Spec (process_precision (sp\<lparr>fs_precision := sint n\<rparr>)), fmt, ap, s))
      else if ch = byte (CHR ''.'') then
        Some (Spec (if fs_width sp < 0 then sp\<lparr>fs_width := 0\<rparr> else sp), fmt, ap, s)
      else if ch = byte (CHR ''#'') then Some (Spec (sp\<lparr>fs_altflag := True\<rparr>), fmt, ap, s)
      else if ch = byte (CHR ''l'') then Some (Spec (sp\<lparr>fs_lflag := fs_lflag sp + 1\<rparr>), fmt, ap, s)
      else if ch = byte (CHR ''c'') then
        (let (c, ap) = va_u32 m ap in Some (Plain, fmt, ap, putch c s))
      else if ch = byte (CHR ''e'') then
        (let (err, ap) = va_u32 m ap in map_option (\<lambda>s. (Plain, fmt, ap, s)) (put_error putch err s))
      else if ch = byte (CHR ''s'') then
        (let (p, ap) = va_u32 m ap in
         map_option (\<lambda>s. (Plain, fmt, ap, s))
           (put_string putch m p (fs_padc sp) (fs_width sp) (fs_precision sp) (fs_altflag sp) s))
      else if ch = byte (CHR ''d'') then
        (let (num, ap) = getint m ap (fs_lflag sp)
         in Some (Plain, fmt, ap, put_signed putch num (fs_width sp) (fs_padc sp) s))
      else if ch = byte (CHR ''u'') then unsigned 10
      else if ch = byte (CHR ''o'') then unsigned 8
      else if ch = byte (CHR ''p'') then
        (let s = putch (ucast (byte (CHR ''x''))) (putch (ucast (byte (CHR ''0''))) s); (p, ap) = va_u32 m ap
         in Some (Plain, fmt, ap, printnum putch (ucast p) 16 (fs_width sp) (scast (fs_padc sp)) s))
      else if ch = byte (CHR ''x'') then unsigned 16
      else if ch = byte (CHR ''%'') then Some (Plain, fmt, ap, putch (ucast ch) s)
      else map_option (\<lambda>fmt. (Plain, fmt, ap, putch (ucast (byte (CHR ''%''))) s)) (rewind m (fmt - 1)))"

partial_function (option) vprintfmt_loop ::
  "(u32 \<Rightarrow> 's \<Rightarrow> 's) \<Rightarrow> mem \<Rightarrow> fmode \<Rightarrow> u32 \<Rightarrow> u32 \<Rightarrow> 's \<Rightarrow> 's option" where
  "vprintfmt_loop putch m mode fmt ap s =
     (case mode of
        Plain \<Rightarrow>
          (let ch = m fmt in
           if ch = byte (CHR ''%'') then vprintfmt_loop putch m (Spec spec0) (fmt + 1) ap s
           else if ch = 0 then Some s
           else vprintfmt_loop putch m Plain (fmt + 1) ap (putch (ucast ch) s))
      | Spec sp \<Rightarrow>
          (case conversion putch m sp fmt ap s of
             None \<Rightarrow> None
           | Some (mode, fmt, ap, s) \<Rightarrow> vprintfmt_loop putch m mode fmt ap s))"

definition vprintfmt :: "(u32 \<Rightarrow> 's \<Rightarrow> 's) \<Rightarrow> mem \<Rightarrow> u32 \<Rightarrow> u32 \<Rightarrow> 's \<Rightarrow> 's option" where
  "vprintfmt putch m fmt ap s = vprintfmt_loop putch m Plain fmt ap s"

section \<open>Sinks\<close>

record sprintbuf =
  sp_buf :: u32
  sp_ebuf :: u32
  sp_cnt :: u32
  sp_mem :: mem

definition sprintputch :: "u32 \<Rightarrow> sprintbuf \<Rightarrow> sprintbuf" where
  "sprintputch ch b =
     (let b = b\<lparr>sp_cnt := sp_cnt b + 1\<rparr> in
      if sp_buf b < sp_ebuf b
      then b\<lparr>sp_mem := (sp_mem b)(sp_buf b := ucast ch), sp_buf := sp_buf b + 1\<rparr> else b)"

definition E_INVAL :: u32 where [simp]: "E_INVAL = 3"

definition vsnprintf :: "mem \<Rightarrow> u32 \<Rightarrow> u32 \<Rightarrow> u32 \<Rightarrow> u32 \<Rightarrow> (u32 \<times> mem) option" where
  "vsnprintf m buf n fmt ap =
     (let b = \<lparr>sp_buf = buf, sp_ebuf = buf + n - 1, sp_cnt = 0, sp_mem = m\<rparr> in
      if buf = 0 \<or> n <s 1 then Some (- E_INVAL, m)
      else (case vprintfmt sprintputch m fmt ap b of
          None \<Rightarrow> None
        | Some b \<Rightarrow> Some (sp_cnt b, (sp_mem b)(sp_buf b := 0))))"

text \<open>The kernel's \<open>putch\<close>: the state is the console output and the counter. \<open>*cnt++\<close> increments
  the local pointer, not the counter.\<close>

definition kern_putch :: "u32 \<Rightarrow> u32 list \<times> u32 \<Rightarrow> u32 list \<times> u32" where
  "kern_putch ch s = (case s of (out, cnt) \<Rightarrow> (out @ [ch], cnt))"

definition kern_vcprintf :: "mem \<Rightarrow> u32 \<Rightarrow> u32 \<Rightarrow> u32 list \<Rightarrow> (u32 \<times> u32 list) option" where
  "kern_vcprintf m fmt ap out =
     (case vprintfmt kern_putch m fmt ap (out, 0) of
        None \<Rightarrow> None
      | Some (out, cnt) \<Rightarrow> Some (cnt, out))"

text \<open>The user library collects characters in a buffer; the state keeps the contents of each
  call of \<open>sys_cputs\<close>.\<close>

record printbuf =
  pb_idx :: nat
  pb_cnt :: u32
  pb_buf :: "u8 list"
  pb_sys :: "u8 list list"

definition user_putch :: "u32 \<Rightarrow> printbuf \<Rightarrow> printbuf" where
  "user_putch ch b =
     (let b = b\<lparr>pb_buf := (pb_buf b)[pb_idx b := ucast ch], pb_idx := pb_idx b + 1\<rparr>;
          b = (if pb_idx b = 256 - 1
               then b\<lparr>pb_sys := pb_sys b @ [take (pb_idx b) (pb_buf b)], pb_idx := 0\<rparr> else b)
      in b\<lparr>pb_cnt := pb_cnt b + 1\<rparr>)"

definition user_vcprintf :: "mem \<Rightarrow> u32 \<Rightarrow> u32 \<Rightarrow> u8 list \<Rightarrow> (u32 \<times> u8 list list) option" where
  "user_vcprintf m fmt ap buf =
     (let b = \<lparr>pb_idx = 0, pb_cnt = 0, pb_buf = buf, pb_sys = []\<rparr> in
      case vprintfmt user_putch m fmt ap b of
        None \<Rightarrow> None
      | Some b \<Rightarrow> Some (pb_cnt b, pb_sys b @ [take (pb_idx b) (pb_buf b)]))"

section \<open>The output does not depend on the sink\<close>

text \<open>Two sinks related by a function on their states. Everything that formats commutes with it.\<close>

locale sink_hom =
  fixes p1 :: "u32 \<Rightarrow> 's \<Rightarrow> 's" and p2 :: "u32 \<Rightarrow> 't \<Rightarrow> 't" and h :: "'s \<Rightarrow> 't"
  assumes hom: "h (p1 c s) = p2 c (h s)"
begin

lemma put_times_hom: "put_times p2 c n (h s) = h (put_times p1 c n s)"
  by (induction n arbitrary: s) (simp_all flip: hom)

lemma fold_hom: "fold p2 cs (h s) = h (fold p1 cs s)"
  by (induction cs arbitrary: s) (simp_all flip: hom)

lemma printnum_hom: "printnum p2 num base width padc (h s) = h (printnum p1 num base width padc s)"
proof (induction "unat num" arbitrary: num width rule: less_induct)
  case less
  have "printnum p2 (num div base) base (width - 1) padc (h s) = h (printnum p1 (num div base) base (width - 1) padc s)"
    if "num \<ge> base" "base \<ge> 2"
  proof (rule less)
    have "2 \<le> unat base" "unat base \<le> unat num" using that by (simp_all add: word_le_nat_alt)
    thus "unat (num div base) < unat num" by (simp add: unat_div)
  qed
  thus ?case
    by (subst printnum.simps, subst (2) printnum.simps) (simp add: hom put_times_hom)
qed

lemma put_signed_hom: "put_signed p2 num width padc (h s) = h (put_signed p1 num width padc s)"
  by (simp add: put_signed_def printnum_hom flip: hom)

lemma put_error_hom: "put_error p2 err (h s) = map_option h (put_error p1 err s)"
  by (auto simp: put_error_def Let_def fold_hom put_signed_hom simp flip: hom split: option.splits)

lemma put_chars_hom1:
  "put_chars p1 m p width precision altflag s = Some y \<Longrightarrow>
   put_chars p2 m p width precision altflag (h s) = Some (fst y, h (snd y))"
proof -
  let ?P = "\<lambda>putch m p width precision altflag s y. putch = p1 \<longrightarrow>
     put_chars p2 m p width precision altflag (h s) = Some (fst y, h (snd y))"
  assume *: "put_chars p1 m p width precision altflag s = Some y"
  have "?P p1 m p width precision altflag s y"
  proof (rule put_chars.raw_induct [where P = ?P, OF _ *], goal_cases)
    case (1 f putch m p width precision altflag s y)
    thus ?case by (subst put_chars.simps) (auto simp: Let_def hom [symmetric] split: if_splits)
  qed
  thus ?thesis by simp
qed

lemma put_chars_hom2:
  "put_chars p2 m p width precision altflag (h s) = Some y \<Longrightarrow>
   \<exists>t. put_chars p1 m p width precision altflag s = Some (fst y, t) \<and> h t = snd y"
proof -
  let ?P = "\<lambda>putch m p width precision altflag s' y. putch = p2 \<longrightarrow> (\<forall>s. s' = h s \<longrightarrow>
     (\<exists>t. put_chars p1 m p width precision altflag s = Some (fst y, t) \<and> h t = snd y))"
  assume *: "put_chars p2 m p width precision altflag (h s) = Some y"
  have "?P p2 m p width precision altflag (h s) y"
  proof (rule put_chars.raw_induct [where P = ?P, OF _ *], goal_cases)
    case (1 f putch m p width precision altflag s y)
    thus ?case by (subst put_chars.simps) (auto simp: Let_def hom [symmetric] split: if_splits)
  qed
  thus ?thesis by simp
qed

lemma put_chars_hom:
  "put_chars p2 m p width precision altflag (h s) =
     map_option (\<lambda>(w, s). (w, h s)) (put_chars p1 m p width precision altflag s)"
  using put_chars_hom1 put_chars_hom2
  by (cases "put_chars p1 m p width precision altflag s"; cases "put_chars p2 m p width precision altflag (h s)") fastforce+

lemma put_string_hom:
  "put_string p2 m p padc width precision altflag (h s) = map_option h (put_string p1 m p padc width precision altflag s)"
proof -
  have pad: "(if left then put_times p2 c n (h s) else h s) = h (if left then put_times p1 c n s else s)" for left c n
    by (simp add: put_times_hom)
  have rest: "(case map_option (\<lambda>(w, s). (w, h s)) x of None \<Rightarrow> None | Some (w, s) \<Rightarrow> Some (put_times p2 32 (nat w) s)) =
      map_option h (case x of None \<Rightarrow> None | Some (w, s) \<Rightarrow> Some (put_times p1 32 (nat w) s))" for x
    by (cases x) (auto simp: put_times_hom)
  show ?thesis by (cases "p = 0") (simp_all only: put_string_def Let_def prod.case simp_thms if_True if_False pad put_chars_hom rest)
qed

lemma conversion_hom:
  "conversion p2 m sp fmt ap (h s) = map_option (\<lambda>(mode, fmt, ap, s). (mode, fmt, ap, h s)) (conversion p1 m sp fmt ap s)"
proof -
  have if_hom: "(if b then x else y) = map_option g (if b then x' else y')"
    if "b \<Longrightarrow> x = map_option g x'" "\<not> b \<Longrightarrow> y = map_option g y'" for b x y x' y' and g :: "'x \<Rightarrow> 'y" using that by simp
  show ?thesis
    unfolding conversion_def Let_def
    by (intro if_hom)
       (auto simp: case_prod_unfold put_error_hom put_string_hom put_signed_hom printnum_hom option.map_comp comp_def
         simp flip: hom split: option.split)
qed

lemma vprintfmt_loop_hom1:
  "vprintfmt_loop p1 m mode fmt ap s = Some y \<Longrightarrow> vprintfmt_loop p2 m mode fmt ap (h s) = Some (h y)"
proof -
  let ?P = "\<lambda>putch m mode fmt ap s y. putch = p1 \<longrightarrow> vprintfmt_loop p2 m mode fmt ap (h s) = Some (h y)"
  assume *: "vprintfmt_loop p1 m mode fmt ap s = Some y"
  have "?P p1 m mode fmt ap s y"
  proof (rule vprintfmt_loop.raw_induct [where P = ?P, OF _ *], goal_cases)
    case (1 f putch m mode fmt ap s y)
    thus ?case
      by (subst vprintfmt_loop.simps)
         (auto simp: Let_def hom [symmetric] conversion_hom split: if_splits fmode.splits option.splits prod.splits)
  qed
  thus ?thesis by simp
qed

lemma vprintfmt_loop_hom2:
  "vprintfmt_loop p2 m mode fmt ap (h s) = Some z \<Longrightarrow> \<exists>y. vprintfmt_loop p1 m mode fmt ap s = Some y \<and> z = h y"
proof -
  let ?P = "\<lambda>putch m mode fmt ap s' z. putch = p2 \<longrightarrow> (\<forall>s. s' = h s \<longrightarrow>
     (\<exists>y. vprintfmt_loop p1 m mode fmt ap s = Some y \<and> z = h y))"
  assume *: "vprintfmt_loop p2 m mode fmt ap (h s) = Some z"
  have "?P p2 m mode fmt ap (h s) z"
  proof (rule vprintfmt_loop.raw_induct [where P = ?P, OF _ *], goal_cases)
    case (1 f putch m mode fmt ap s y)
    thus ?case
      by (subst vprintfmt_loop.simps)
         (auto simp: Let_def hom [symmetric] conversion_hom split: if_splits fmode.splits option.splits prod.splits)
  qed
  thus ?thesis by simp
qed

lemma vprintfmt_hom: "vprintfmt p2 m fmt ap (h s) = map_option h (vprintfmt p1 m fmt ap s)"
  unfolding vprintfmt_def using vprintfmt_loop_hom1 [of m Plain fmt ap s] vprintfmt_loop_hom2 [of m Plain fmt ap s]
  by (cases "vprintfmt_loop p1 m Plain fmt ap s"; cases "vprintfmt_loop p2 m Plain fmt ap (h s)") auto

end

interpretation emit: sink_hom "\<lambda>c l. l @ [c]" putch "\<lambda>l. fold putch l s"
  for putch :: "u32 \<Rightarrow> 's \<Rightarrow> 's" and s :: 's
  by unfold_locales simp

abbreviation emits :: "u32 \<Rightarrow> u32 list \<Rightarrow> u32 list" where
  "emits \<equiv> \<lambda>c l. l @ [c]"

section \<open>Numbers\<close>

lemma ucast_byte [simp]: "(ucast (ucast (b :: u8) :: u32) :: u8) = b"
  by (rule bit_word_eqI) (simp add: bit_ucast_iff)

lemma ucast_uminus_u64: "(ucast (- x :: u64) :: u32) = - ucast x"
proof -
  have "take_bit 32 (take_bit 64 (- x)) = take_bit 32 (- take_bit 64 x)" for x :: int
  proof -
    have "take_bit 32 (- take_bit 64 x) = take_bit 32 (- take_bit 32 (take_bit 64 x))" by (simp only: take_bit_minus)
    also have "\<dots> = take_bit 32 (- x)" by (simp add: take_bit_take_bit take_bit_minus)
    finally show ?thesis by (simp add: take_bit_take_bit)
  qed
  thus ?thesis by transfer simp
qed

text \<open>The digits of a number, the most significant first.\<close>

fun digits_of :: "nat \<Rightarrow> nat \<Rightarrow> nat list" where
  "digits_of b n = (if n < b \<or> b < 2 then [n mod b] else digits_of b (n div b) @ [n mod b])"

declare digits_of.simps [simp del]

lemma digits_of_val: "2 \<le> b \<Longrightarrow> digits_val b (digits_of b n) = n"
proof (induction n rule: less_induct)
  case (less n)
  show ?case
  proof (cases "n < b")
    case False
    hence "digits_val b (digits_of b (n div b)) = n div b" using less by simp
    thus ?thesis using less.prems False by (subst digits_of.simps) (simp add: digits_val_def)
  qed (use less.prems in \<open>simp add: digits_of.simps digits_val_def\<close>)
qed

lemma digits_of_bound: "2 \<le> b \<Longrightarrow> d \<in> set (digits_of b n) \<Longrightarrow> d < b"
proof (induction n rule: less_induct)
  case (less n)
  have "d \<in> set (if n < b \<or> b < 2 then [n mod b] else digits_of b (n div b) @ [n mod b])"
    using less.prems(2) by (subst (asm) digits_of.simps)
  thus ?case using less.IH [of "n div b"] less.prems(1) by (auto split: if_splits)
qed

lemma digits_of_length: "2 \<le> b \<Longrightarrow> n < b ^ Suc k \<Longrightarrow> length (digits_of b n) \<le> Suc k"
proof (induction k arbitrary: n)
  case (Suc k)
  have "n div b < b ^ Suc k" using Suc.prems by (intro less_mult_imp_div_less) (simp add: mult.commute)
  thus ?case using Suc.IH [of "n div b"] Suc.prems(1) by (subst digits_of.simps) simp
qed (simp add: digits_of.simps)

lemma digits_of_not_Nil: "digits_of b n \<noteq> []"
  by (subst digits_of.simps) simp

lemma put_times_emits: "put_times emits c n l = l @ replicate n c"
  by (induction n arbitrary: l) (simp_all add: replicate_append_same)

lemma hexdigit_digit_char:
  assumes "unat d < 16"
  shows "hexdigit d = ucast (digit_char (unat d))"
proof -
  have "list_all (\<lambda>k. byte (''0123456789abcdef'' ! k) = digit_char k) [0..<16]"
    by (simp add: digit_char_def byte_def upt_rec)
  thus ?thesis using assms by (simp add: hexdigit_def list_all_iff del: upt_rec_numeral)
qed

lemma printnum_emits:
  assumes "2 \<le> unat base" and "unat base \<le> 16"
  shows "printnum emits num base width padc l =
     l @ replicate (nat (width - int (length (digits_of (unat base) (unat num))))) padc @
     map (ucast \<circ> digit_char) (digits_of (unat base) (unat num))"
proof (induction "unat num" arbitrary: num width l rule: less_induct)
  case less
  have d: "hexdigit (num mod base) = ucast (digit_char (unat num mod unat base))"
    using hexdigit_digit_char [of "num mod base"] assms less_le_trans [of "unat num mod unat base" "unat base" 16]
    by (simp add: unat_mod)
  show ?case
  proof (cases "num \<ge> base")
    case True
    hence le: "unat base \<le> unat num" "base \<ge> 2" using assms by (simp_all add: word_le_nat_alt)
    hence "unat (num div base) < unat num" using assms by (simp add: unat_div)
    note IH = less [OF this, of "width - 1" l]
    show ?thesis using True le assms d IH
      by (subst printnum.simps, subst (1 2) digits_of.simps) (simp add: unat_div algebra_simps)
  next
    case False
    hence "unat num < unat base" by (simp add: word_le_nat_alt)
    thus ?thesis using False d
      by (subst printnum.simps, subst (1 2) digits_of.simps) (simp add: put_times_emits)
  qed
qed

lemma put_signed_emits:
  "put_signed emits num width padc l =
     (let ds = digits_of 10 (unat (if num <s 0 then - num else num))
      in l @ (if num <s 0 then [45] else []) @ replicate (nat (width - int (length ds))) (scast padc) @
         map (ucast \<circ> digit_char) ds)"
  by (simp add: put_signed_def printnum_emits Let_def)

text \<open>The argument of an unsigned conversion is printed with at least \<open>width\<close> characters; an
  argument of \<open>%d\<close> without a width is read back by \<open>strtol\<close>.\<close>

lemma digit_char_not_0: "d < 36 \<Longrightarrow> digit_char d \<noteq> 0"
  using unat_digit_char [of d] by (auto split: if_splits)

text \<open>C26: what \<open>%d\<close> prints for a number of up to 64 bits, stored as a string, is read back by
  \<open>strtol\<close> in base 10 as the low 32 bits of the number, negative numbers and the smallest one included, up to
  the final NUL.\<close>

theorem print_strtol_roundtrip:
  fixes num :: u64
  defines "out \<equiv> map ucast (put_signed (\<lambda>c l. l @ [c]) num (-1) (byte (CHR '' '')) []) :: u8 list"
  shows "strtol (put m a (out @ [0])) a 10 = Some (ucast num, a + of_nat (length out))"
proof -
  define neg where "neg = (num <s 0)"
  define ds where "ds = digits_of 10 (unat (if neg then - num else num))"
  define sg :: "u8 list" where "sg = (if neg then [45] else [])"
  have out: "out = sg @ map digit_char ds"
    by (simp add: out_def put_signed_emits sg_def neg_def ds_def Let_def comp_def)
  have ds: "ds \<noteq> []" "\<forall>d \<in> set ds. d < 10" and v: "digits_val 10 ds = unat (if neg then - num else num)"
    using digits_of_not_Nil digits_of_bound [of 10] digits_of_val [of 10] by (simp_all add: ds_def)
  have "unat x < 2 ^ 64" for x :: u64 using unsigned_less [of x] by simp
  from this [of "if neg then - num else num"] have len: "length (out @ [0]) \<le> 2 ^ 32"
    using digits_of_length [of 10 "unat (if neg then - num else num)" 19]
    by (simp add: out sg_def flip: ds_def)
  have "bytes_at (put m a (out @ [0])) a ([] @ sg @ [] @ map digit_char ds @ [0])"
    using bytes_at_put [OF len, of m a] by (simp add: out)
  hence "strtol (put m a (out @ [0])) a 10 =
      Some ((if sg = [45] then - of_nat (digits_val 10 ds) else of_nat (digits_val 10 ds)), a + of_nat (length out))"
    using strtol_number [of "put m a (out @ [0])" a "[]" sg "[]" ds 0 10 10] ds
    by (auto simp: sg_def out digit_of_def)
  moreover have "(if sg = [45] then - of_nat (digits_val 10 ds) else of_nat (digits_val 10 ds)) = (ucast num :: u32)"
    using v by (simp add: sg_def ucast_uminus_u64)
  ultimately show ?thesis by simp
qed

section \<open>Sinks and text\<close>

lemma vprintfmt_text:
  "vprintfmt putch m fmt ap s = map_option (\<lambda>out. fold putch out s) (vprintfmt emits m fmt ap [])"
  by (rule emit.vprintfmt_hom [where s = "[]", simplified])

lemma fold_sprintputch:
  assumes "sp_buf b \<le> sp_ebuf b"
  shows "fold sprintputch out b =
     (let k = unat (sp_ebuf b - sp_buf b) in
      b\<lparr>sp_buf := sp_buf b + of_nat (min k (length out)), sp_cnt := sp_cnt b + of_nat (length out),
        sp_mem := put (sp_mem b) (sp_buf b) (map ucast (take k out))\<rparr>)"
  using assms
proof (induction out arbitrary: b)
  case (Cons c out)
  show ?case
  proof (cases "sp_buf b < sp_ebuf b")
    case True
    hence u: "unat (sp_ebuf b - (sp_buf b + 1)) + 1 = unat (sp_ebuf b - sp_buf b)" "sp_buf b + 1 \<le> sp_ebuf b"
    proof -
      have lt: "unat (sp_buf b) < unat (sp_ebuf b)" using True by (simp add: word_less_nat_alt)
      have "Suc (unat (sp_buf b)) < 4294967296" using le_less_trans [OF Suc_leI [OF lt] unat_lt_2p32] .
      hence b1: "unat (sp_buf b + 1) = unat (sp_buf b) + 1" by (simp add: unat_add_no_carry)
      thus "unat (sp_ebuf b - (sp_buf b + 1)) + 1 = unat (sp_ebuf b - sp_buf b)" "sp_buf b + 1 \<le> sp_ebuf b"
        using lt by (simp_all add: unat_sub_no_borrow word_le_nat_alt)
    qed
    note IH = Cons.IH [of "sprintputch c b"]
    show ?thesis using True u IH
      by (simp add: sprintputch_def Let_def add.assoc fun_upd_def flip: u(1))
  next
    case False
    hence "sp_buf b = sp_ebuf b" using Cons.prems by simp
    moreover note IH = Cons.IH [of "sprintputch c b"]
    ultimately show ?thesis using False IH by (simp add: sprintputch_def Let_def)
  qed
qed simp

text \<open>The state of the user library's buffer after printing \<open>out\<close>.\<close>

definition chunked :: "u8 list \<Rightarrow> printbuf \<Rightarrow> bool" where
  "chunked cs b \<longleftrightarrow> pb_idx b < 255 \<and> length (pb_buf b) = 256 \<and> (\<forall>c \<in> set (pb_sys b). length c = 255) \<and>
     concat (pb_sys b) @ take (pb_idx b) (pb_buf b) = cs \<and> pb_cnt b = of_nat (length cs)"

lemma chunked_putch: "chunked cs b \<Longrightarrow> chunked (cs @ [ucast ch]) (user_putch ch b)"
  using take_Suc_conv_app_nth [of "pb_idx b" "(pb_buf b)[pb_idx b := ucast ch]"]
  by (auto simp: chunked_def user_putch_def Let_def)

lemma chunked_fold: "chunked cs b \<Longrightarrow> chunked (cs @ map ucast out) (fold user_putch out b)"
proof (induction out arbitrary: cs b)
  case (Cons ch out)
  from Cons.IH [OF chunked_putch [OF Cons.prems, of ch]] show ?case by simp
qed simp

lemma fold_kern_putch: "fold kern_putch out (l, n) = (l @ out, n)"
  by (induction out arbitrary: l) (simp_all add: kern_putch_def)

text \<open>The kernel's \<open>cprintf\<close> returns 0, not the number of characters.\<close>

lemma kern_vcprintf_returns_0:
  "kern_vcprintf m fmt ap l = map_option (\<lambda>out. (0, l @ out)) (vprintfmt emits m fmt ap [])"
  by (simp add: kern_vcprintf_def vprintfmt_text [of kern_putch] fold_kern_putch split: option.split)

section \<open>Termination\<close>

text \<open>A memory with a NUL byte anywhere ends every scan for one, if need be after a wrap-around.\<close>

lemma NUL_ahead:
  assumes "m (z :: u32) = (0 :: u8)"
  shows "\<exists>n. m (p + of_nat n) = 0 \<and> (\<forall>i < n. m (p + of_nat i) \<noteq> 0)"
proof -
  let ?P = "\<lambda>n. m (p + of_nat n) = 0"
  have "?P (unat (z - p))" using assms by simp
  hence "?P (LEAST n. ?P n)" by (rule LeastI)
  thus ?thesis using not_less_Least [where P = ?P] by blast
qed

lemma put_chars_returns: "m (p + of_nat n) = 0 \<Longrightarrow> put_chars putch m p width precision altflag s \<noteq> None"
proof (induction n arbitrary: p width precision s)
  case 0
  thus ?case by (subst put_chars.simps) simp
next
  case (Suc n)
  hence "m (p + 1 + of_nat n) = 0" by (simp add: add.assoc)
  note IH = Suc.IH [OF this]
  show ?case by (subst put_chars.simps) (simp add: Let_def IH del: not_None_eq)
qed

lemma put_string_returns:
  assumes "m z = 0"
  shows "\<exists>y. put_string putch m p padc width precision altflag s = Some y"
proof -
  have "null_string 6 = 0" by (simp add: null_string_def)
  then obtain n where n: "null_string (0 + of_nat n) = 0" using NUL_ahead [of null_string 6 0] by blast
  obtain k where k: "m (p + of_nat k) = 0" using NUL_ahead [of m z p] assms by blast
  have bind: "(case x of None \<Rightarrow> None | Some (w, t) \<Rightarrow> Some (g w t)) \<noteq> None" if "x \<noteq> None" for x and g :: "int \<Rightarrow> 'a \<Rightarrow> 'a"
    using that by (cases x) auto
  have "put_string putch m p padc width precision altflag s \<noteq> None"
    unfolding put_string_def Let_def case_prod_conv
    using put_chars_returns [of null_string 0 n putch, OF n] put_chars_returns [of m p k putch, OF k]
    by (cases "p = 0") (simp_all only: simp_thms if_True if_False case_prod_conv add_0_left, (rule bind, assumption?)+)
  thus ?thesis by blast
qed

lemma put_error_returns:
  assumes "err \<noteq> 0x80000000"
  shows "\<exists>y. put_error putch err s = Some y"
proof -
  have "\<not> (if err <s 0 then - err else err) <s 0"
  proof (cases "err <s 0")
    case True
    have i: "uint x = int (unat x)" for x :: u32 by simp
    have "\<not> uint err < 2147483648" using True uint_bounded [of err] by (simp add: word_sless_alt sint_u32 split: if_splits)
    hence u: "2147483648 \<le> unat err" unfolding i by linarith
    have "unat err \<noteq> unat (0x80000000 :: u32)" using assms word_unat_eq_iff by blast
    hence "2147483648 < unat err" using u by simp
    moreover have "unat (- err) = 4294967296 - unat err" using u unat_sub_if' [of 0 err] by simp
    ultimately have "uint (- err) < 2147483648" unfolding i by linarith
    thus ?thesis using True by (simp add: word_sless_alt sint_u32)
  qed simp
  thus ?thesis by (auto simp: put_error_def Let_def split: option.split)
qed

lemma parse_num_returns:
  "m (fmt + of_nat n) = 0 \<Longrightarrow> \<exists>v k. parse_num m fmt ch precision = Some (v, fmt + of_nat k) \<and> k \<le> n \<and>
     (\<forall>i < k. is_digit (m (fmt + of_nat i)))"
proof (induction n arbitrary: fmt ch precision)
  case 0
  hence "\<not> is_digit (m fmt)" by (simp add: is_digit_def)
  thus ?case by (subst parse_num.simps) (auto simp: Let_def)
next
  case (Suc n)
  hence "m (fmt + 1 + of_nat n) = 0" by (simp add: add.assoc)
  from Suc.IH [OF this, of "m fmt" "precision * 10 + uint ch - 48"] obtain v k where
    k: "parse_num m (fmt + 1) (m fmt) (precision * 10 + uint ch - 48) = Some (v, fmt + 1 + of_nat k)" "k \<le> n"
      "\<forall>i < k. is_digit (m (fmt + 1 + of_nat i))" by blast
  show ?case
  proof (cases "is_digit (m fmt)")
    case True
    have "\<forall>i < Suc k. is_digit (m (fmt + of_nat i))"
    proof (intro allI impI)
      fix i assume "i < Suc k"
      thus "is_digit (m (fmt + of_nat i))" using True k(3) by (cases i) (auto simp: add.assoc)
    qed
    moreover have "parse_num m fmt ch precision = Some (v, fmt + of_nat (Suc k))"
      using True k(1) by (subst parse_num.simps) (simp add: Let_def add.assoc)
    ultimately show ?thesis using k(2) by blast
  next
    case False
    thus ?thesis by (subst parse_num.simps) (auto simp: Let_def intro: exI [of _ 0])
  qed
qed

lemma rewind_returns:
  "m f = 37 \<Longrightarrow> (\<forall>i < k. m (f + 1 + of_nat i) \<noteq> 37) \<Longrightarrow> rewind m (f + 1 + of_nat k) = Some (f + 1)"
proof (induction k)
  case 0
  thus ?case by (subst rewind.simps) (simp add: byte_def)
next
  case (Suc k)
  have "m (f + 1 + of_nat k) \<noteq> 37" using Suc.prems(2) lessI by blast
  moreover have e: "f + 1 + of_nat (Suc k) - 1 = f + 1 + of_nat k" by simp
  ultimately have "m (f + 1 + of_nat (Suc k) - 1) \<noteq> byte (CHR ''%'')" unfolding e by (simp only: byte_def) simp
  moreover have "rewind m (f + 1 + of_nat (Suc k) - 1) = Some (f + 1)"
    unfolding e using Suc.prems by (intro Suc.IH) simp_all
  ultimately show ?case by (subst rewind.simps) simp
qed

text \<open>Positions are counted from \<open>f\<close>; the first NUL is at position \<open>d\<close>. A specification that is
  being read started at the last percent sign, at position \<open>j\<close>.\<close>

definition format_at :: "mem \<Rightarrow> u32 \<Rightarrow> nat \<Rightarrow> bool" where
  "format_at m f d \<longleftrightarrow> m (f + of_nat d) = 0 \<and> (\<forall>i < d. m (f + of_nat i) \<noteq> 0)"

definition spec_at :: "mem \<Rightarrow> u32 \<Rightarrow> nat \<Rightarrow> nat \<Rightarrow> bool" where
  "spec_at m f j i \<longleftrightarrow> j < i \<and> m (f + of_nat j) = 37 \<and> (\<forall>k. j < k \<longrightarrow> k < i \<longrightarrow> m (f + of_nat k) \<noteq> 37)"

lemma spec_at_rewind: "spec_at m f j i \<Longrightarrow> rewind m (f + of_nat i) = Some (f + of_nat (Suc j))"
proof -
  assume s: "spec_at m f j i"
  hence i: "i = Suc j + (i - Suc j)" by (simp add: spec_at_def)
  have "m (f + of_nat j + 1 + of_nat k) \<noteq> 37" if "k < i - Suc j" for k
  proof -
    have "m (f + of_nat (Suc j + k)) \<noteq> 37" using s that by (simp add: spec_at_def del: of_nat_add of_nat_Suc)
    thus ?thesis by (simp add: ac_simps)
  qed
  hence "rewind m (f + of_nat j + 1 + of_nat (i - Suc j)) = Some (f + of_nat j + 1)"
    using s by (intro rewind_returns) (simp_all add: spec_at_def)
  moreover have "f + of_nat j + 1 + of_nat (i - Suc j) = f + of_nat i" by (subst (2) i) (simp add: ac_simps)
  moreover have "f + of_nat j + 1 = f + of_nat (Suc j)" by simp
  ultimately show ?thesis by (simp only:)
qed

lemma spec_at_extend: "spec_at m f j i \<Longrightarrow> (\<forall>k. i \<le> k \<longrightarrow> k < i' \<longrightarrow> m (f + of_nat k) \<noteq> 37) \<Longrightarrow> i \<le> i' \<Longrightarrow> spec_at m f j i'"
  unfolding spec_at_def by (metis le_less_trans less_le_trans linorder_not_less)

text \<open>After a step of a conversion the specification is still being read at a later position, or
  the loop is back in plain text after the percent sign.\<close>

definition step_ok :: "mem \<Rightarrow> u32 \<Rightarrow> nat \<Rightarrow> nat \<Rightarrow> nat \<Rightarrow> (fmode \<times> u32 \<times> u32 \<times> 's) option \<Rightarrow> bool" where
  "step_ok m f d j i r \<longleftrightarrow> (\<exists>mode i' ap s. r = Some (mode, f + of_nat i', ap, s) \<and> i' \<le> d \<and>
     (case mode of Plain \<Rightarrow> j < i' | Spec sp \<Rightarrow> i < i' \<and> spec_at m f j i'))"

lemma step_ok_if: "(b \<Longrightarrow> step_ok m f d j i x) \<Longrightarrow> (\<not> b \<Longrightarrow> step_ok m f d j i y) \<Longrightarrow> step_ok m f d j i (if b then x else y)"
  by simp

lemma step_ok_next:
  assumes "format_at m f d" and "spec_at m f j i" and "i \<le> d" and "m (f + of_nat i) \<noteq> 0"
  shows "step_ok m f d j i (Some (Plain, f + of_nat i + 1, ap, s))"
    and "m (f + of_nat i) \<noteq> 37 \<Longrightarrow> step_ok m f d j i (Some (Spec sp, f + of_nat i + 1, ap, s))"
proof -
  have i: "Suc i \<le> d" using assms by (auto simp: format_at_def le_less)
  have e: "f + of_nat i + 1 = f + of_nat (Suc i)" by (simp add: ac_simps)
  show "step_ok m f d j i (Some (Plain, f + of_nat i + 1, ap, s))"
    unfolding e step_ok_def using i assms(2) by (intro exI [of _ Plain] exI [of _ "Suc i"]) (auto simp: spec_at_def)
  assume "m (f + of_nat i) \<noteq> 37"
  hence "spec_at m f j (Suc i)" using assms(2) by (auto intro: spec_at_extend simp: le_less_Suc_eq)
  thus "step_ok m f d j i (Some (Spec sp, f + of_nat i + 1, ap, s))"
    unfolding e step_ok_def using i by (intro exI [of _ "Spec sp"] exI [of _ "Suc i"]) auto
qed

lemma step_ok_number:
  assumes "format_at m f d" and "spec_at m f j i" and "i \<le> d" and "m (f + of_nat i) \<noteq> 0" and "m (f + of_nat i) \<noteq> 37"
  shows "step_ok m f d j i (case parse_num m (f + of_nat i + 1) ch 0 of None \<Rightarrow> None
     | Some (n, fmt) \<Rightarrow> Some (Spec (g n), fmt, ap, s))"
proof -
  have i: "Suc i \<le> d" using assms by (auto simp: format_at_def le_less)
  have e: "f + of_nat i + 1 = f + of_nat (Suc i)" by (simp add: ac_simps)
  have "f + of_nat (Suc i) + of_nat (d - Suc i) = f + of_nat d" using i
    by (simp add: add.assoc flip: of_nat_add del: of_nat_Suc)
  hence "m (f + of_nat (Suc i) + of_nat (d - Suc i)) = 0" using assms(1) unfolding format_at_def by (simp only:)
  from parse_num_returns [of m _ _ ch 0, OF this] obtain v k where
    k: "parse_num m (f + of_nat (Suc i)) ch 0 = Some (v, f + of_nat (Suc i) + of_nat k)" "k \<le> d - Suc i"
      "\<forall>l < k. is_digit (m (f + of_nat (Suc i) + of_nat l))" by blast
  have "m (f + of_nat l) \<noteq> 37" if "i \<le> l" "l < Suc i + k" for l
  proof (cases "l = i")
    case False
    hence l: "Suc i + (l - Suc i) = l" "l - Suc i < k" using that by simp_all
    have "f + of_nat (Suc i) + of_nat (l - Suc i) = f + of_nat l"
      unfolding add.assoc of_nat_add [symmetric] l(1) ..
    hence "is_digit (m (f + of_nat l))" using k(3) l(2) by metis
    thus ?thesis by (auto simp: is_digit_def word_le_nat_alt)
  qed (use assms in simp)
  hence "\<forall>l. i \<le> l \<longrightarrow> l < Suc i + k \<longrightarrow> m (f + of_nat l) \<noteq> 37" by blast
  hence "spec_at m f j (Suc i + k)" by (rule spec_at_extend [OF assms(2)]) simp
  moreover have "f + of_nat (Suc i) + of_nat k = f + of_nat (Suc i + k)" by (simp add: ac_simps)
  ultimately show ?thesis
    unfolding e k(1) step_ok_def using i k(2)
    by (intro exI [of _ "Spec (g v)"] exI [of _ "Suc i + k"]) (auto simp del: of_nat_add of_nat_Suc)
qed

lemma conversion_step_ok:
  assumes "format_at m f d" and "spec_at m f j i" and "i \<le> d" and "\<And>a. ld32 m a \<noteq> 0x80000000"
  shows "step_ok m f d j i (conversion putch m sp (f + of_nat i) ap s)"
proof -
  have z: "m (f + of_nat d) = 0" using assms(1) by (simp add: format_at_def)
  note nxt = step_ok_next [OF assms(1-3)] step_ok_number [OF assms(1-3)]
  have err: "put_error putch (ld32 m ap) s \<noteq> None" using put_error_returns [OF assms(4)] by simp
  have str: "put_string putch m p padc width precision altflag s \<noteq> None" for p padc width precision altflag
    using put_string_returns [of m, OF z] by simp
  have "step_ok m f d j i (Some (Plain, f + of_nat (Suc j), ap, t))" for t :: 'a
    unfolding step_ok_def using assms(2,3) by (intro exI [of _ Plain] exI [of _ "Suc j"]) (simp add: spec_at_def)
  hence rew: "step_ok m f d j i (map_option (\<lambda>fmt. (Plain, fmt, ap, t)) (rewind m (f + of_nat i)))" for t :: 'a
    using spec_at_rewind [OF assms(2)] by simp
  have opt: "step_ok m f d j i (map_option h x)"
    if "x \<noteq> None" "\<And>t. step_ok m f d j i (Some (h t))" for x :: "'a option" and h
    using that by auto
  have pair: "step_ok m f d j i (case x of (a, b) \<Rightarrow> h a b)"
    if "\<And>a b. step_ok m f d j i (h a b)" for x :: "u64 \<times> u32" and h using that by (cases x) simp
  have dig: "c \<noteq> 0 \<and> c \<noteq> 37" if "49 \<le> c" for c :: u8 using that by (auto simp: word_le_nat_alt)
  show ?thesis
    unfolding conversion_def Let_def va_u32_def case_prod_conv
    by (intro step_ok_if) (simp_all add: byte_def nxt opt err str pair rew dig del: not_None_eq)
qed

lemma vprintfmt_loop_returns:
  assumes fmt: "format_at m f d" and lds: "\<And>a. ld32 m a \<noteq> 0x80000000"
  shows "i \<le> d \<Longrightarrow> case mode of Plain \<Rightarrow> r = d - i \<and> q = Suc d
      | Spec sp \<Rightarrow> (\<exists>j. spec_at m f j i \<and> r = d - j \<and> q = d - i) \<Longrightarrow>
    \<exists>y. vprintfmt_loop putch m mode (f + of_nat i) ap s = Some y"
proof (induction "(r, q)" arbitrary: r q mode i ap s rule: wf_induct_rule [OF wf_lex_prod [OF wf_less_than wf_less_than]])
  case 1
  note IH = 1(1) [OF _ _ _]
  show ?case
  proof (cases mode)
    case Plain
    have rq: "r = d - i" "q = Suc d" using 1(3) Plain by simp_all
    have e: "f + of_nat i + 1 = f + of_nat (Suc i)" by (simp add: ac_simps)
    show ?thesis
    proof (cases "m (f + of_nat i) = 0")
      case True
      thus ?thesis using Plain by (subst vprintfmt_loop.simps) (simp add: byte_def)
    next
      case False
      hence i: "Suc i \<le> d" using fmt 1(2) by (auto simp: format_at_def le_less)
      have p: "\<exists>y. vprintfmt_loop putch m Plain (f + of_nat (Suc i)) ap t = Some y" for t
        by (rule 1(1) [of "d - Suc i" "Suc d"]) (use i rq in auto)
      have sp: "\<exists>y. vprintfmt_loop putch m (Spec spec0) (f + of_nat (Suc i)) ap t = Some y"
        if "m (f + of_nat i) = 37" for t
        by (rule 1(1) [of "d - i" "d - Suc i"]) (use i rq that in \<open>auto simp: spec_at_def\<close>)
      show ?thesis
        using Plain False p sp by (subst vprintfmt_loop.simps) (auto simp: byte_def e Let_def simp del: of_nat_Suc)
    qed
  next
    case (Spec sp)
    then obtain j where j: "spec_at m f j i" "r = d - j" "q = d - i" using 1(3) by auto
    from conversion_step_ok [OF fmt j(1) 1(2) lds, of putch sp ap s] obtain mode' i' ap' s' where
      c: "conversion putch m sp (f + of_nat i) ap s = Some (mode', f + of_nat i', ap', s')" "i' \<le> d"
        "case mode' of Plain \<Rightarrow> j < i' | Spec sp \<Rightarrow> i < i' \<and> spec_at m f j i'"
      unfolding step_ok_def by blast
    have "\<exists>y. vprintfmt_loop putch m mode' (f + of_nat i') ap' s' = Some y"
    proof (cases mode')
      case Plain
      thus ?thesis using c(2,3) j by (intro 1(1) [of "d - i'" "Suc d"]) auto
    next
      case (Spec sp')
      thus ?thesis using c(2,3) j by (intro 1(1) [of r "d - i'"]) auto
    qed
    thus ?thesis using Spec c(1) by (subst vprintfmt_loop.simps) simp
  qed
qed

section \<open>Properties\<close>


text \<open>The format \<open>%y%d\<close> at 16.\<close>

definition demo_fmt :: mem where
  "demo_fmt = put (\<lambda>_. 0) 16 (map byte ''%y%d'')"

lemma digits_of_0: "digits_of 10 0 = [0]"
  by (subst digits_of.simps) simp

lemma demo_at:
  "demo_fmt 16 = 37" "demo_fmt 17 = 121" "demo_fmt 18 = 37" "demo_fmt 19 = 100" "demo_fmt 20 = 0"
  "ld32 demo_fmt 64 = 0" "rewind demo_fmt 17 = Some 17"
  by (simp_all add: demo_fmt_def byte_def ld32_def rewind.simps)

lemma demo_text: "vprintfmt (\<lambda>c l. l @ [c]) demo_fmt 16 64 [] = Some (map (ucast \<circ> byte) ''%y0'')"
  unfolding vprintfmt_def
  by ((subst vprintfmt_loop.simps, simp add: demo_at conversion_def getint_def put_signed_emits digits_of_0 va_u32_def spec0_def digit_char_def byte_def)+)



text \<open>C27: \<open>vsnprintf\<close> with a usable buffer of \<open>n\<close> bytes stores the longest prefix of the text that
  fits, with a final NUL, writes no byte outside the buffer, and returns the length of the whole
  text; without a buffer or with \<open>n \<le> 0\<close> it returns \<open>-E_INVAL\<close> and writes nothing.\<close>

theorem vsnprintf_spec:
  assumes "vprintfmt (\<lambda>c l. l @ [c]) m fmt ap [] = Some out" and "unat buf + unat n \<le> 2 ^ 32"
  shows "(buf = 0 \<or> n <s 1 \<longrightarrow> vsnprintf m buf n fmt ap = Some (- 3, m)) \<and>
     (\<not> (buf = 0 \<or> n <s 1) \<longrightarrow> (\<exists>m'. vsnprintf m buf n fmt ap = Some (of_nat (length out), m') \<and>
        bytes_at m' buf (map ucast (take (unat n - 1) out) @ [0]) \<and>
        (\<forall>a. unat n \<le> unat (a - buf) \<longrightarrow> m' a = m a)))"
proof (cases "buf = 0 \<or> n <s 1")
  case False
  hence "0 <s n" by (simp add: word_sless_alt)
  hence n0: "0 < unat n" by (simp add: sless_0_iff)
  hence n1: "unat (n - 1) = unat n - 1" using unat_sub_no_borrow [of 1 n] by simp
  have e: "buf + n - 1 = buf + (n - 1)" by simp
  have "unat buf + unat (n - 1) < 2 ^ LENGTH(32)" using n0 n1 assms(2) by simp
  hence ue: "unat (buf + (n - 1)) = unat buf + (unat n - 1)" using n1 by (simp only: unat_add_no_carry)
  let ?b = "\<lparr>sp_buf = buf, sp_ebuf = buf + (n - 1), sp_cnt = 0, sp_mem = m\<rparr>"
  let ?o = "map ucast (take (unat n - 1) out) :: u8 list"
  have f: "fold sprintputch out ?b = ?b\<lparr>sp_buf := buf + of_nat (min (unat n - 1) (length out)),
      sp_cnt := of_nat (length out), sp_mem := put m buf ?o\<rparr>"
    using fold_sprintputch [of ?b out] ue by (simp add: word_le_nat_alt n1 Let_def)
  have put_snoc: "(put m a bs)(a + of_nat (length bs) := x) = put m a (bs @ [x])" for m a bs and x :: u8
  proof (induction bs arbitrary: m a)
    case (Cons b bs)
    show ?case unfolding append_Cons put.simps Cons.IH [symmetric] by (simp add: add.assoc)
  qed simp
  have "vsnprintf m buf n fmt ap = Some (of_nat (length out), put m buf (?o @ [0]))"
    using False put_snoc [of m buf ?o 0]
    by (simp add: vsnprintf_def vprintfmt_text [of sprintputch] assms(1) e f Let_def min.commute)
  moreover have l: "length (?o @ [0]) \<le> unat n" using n0 by simp
  moreover have "length (?o @ [0]) \<le> 2 ^ 32" using le_trans [OF l less_imp_le [OF unat_lt_2p32]] by simp
  hence "bytes_at (put m buf (?o @ [0])) buf (?o @ [0])"
    "\<forall>a. unat n \<le> unat (a - buf) \<longrightarrow> put m buf (?o @ [0]) a = m a"
    using bytes_at_put [of "?o @ [0]"] put_nth [of "?o @ [0]"] l by auto
  ultimately show ?thesis using False by simp
qed (simp add: vsnprintf_def)

theorem vsnprintf_spec_witness:
  "\<exists>m'. vsnprintf demo_fmt 100 3 16 64 = Some (3, m') \<and> bytes_at m' 100 [37, 121, 0] \<and> m' 103 = 0"
  using vsnprintf_spec [OF demo_text, of 100 3] by (auto simp: byte_def demo_fmt_def word_sless_alt)

text \<open>the user library's \<open>cprintf\<close> hands the text to \<open>sys_cputs\<close> in pieces of 255 bytes and one
  shorter rest, in order and without loss, and returns the number of characters.\<close>

theorem user_vcprintf_chunks:
  assumes "vprintfmt (\<lambda>c l. l @ [c]) m fmt ap [] = Some out" and "length buf = 256"
  shows "\<exists>chunks. user_vcprintf m fmt ap buf = Some (of_nat (length out), chunks) \<and>
     concat chunks = map ucast out \<and> (\<forall>c \<in> set (butlast chunks). length c = 255) \<and> length (last chunks) < 255"
proof -
  have "chunked [] \<lparr>pb_idx = 0, pb_cnt = 0, pb_buf = buf, pb_sys = []\<rparr>" using assms(2) by (simp add: chunked_def)
  from chunked_fold [OF this, of out] show ?thesis
    by (auto simp: user_vcprintf_def vprintfmt_text [of user_putch] assms(1) chunked_def Let_def)
qed

theorem user_vcprintf_chunks_witness:
  "\<exists>chunks. user_vcprintf demo_fmt 16 64 (replicate 256 0) = Some (3, chunks) \<and> concat chunks = map byte ''%y0''"
proof -
  from user_vcprintf_chunks [OF demo_text, of "replicate 256 0"] show ?thesis by auto
qed

end
