(* ===== verification/Jos_Console.thy ===== *)
theory Jos_Console
  imports Jos_Str
begin

text \<open>
  The console: \<open>kern/console.c\<close> with its serial port, parallel port, text display, keyboard and input
  buffer.

  The hardware is a parameter: a \<open>bus\<close> gives the effect of \<open>inb\<close> and \<open>outb\<close> on the state \<open>'d\<close> of
  the devices, and the value that the first display cell gives back when it is written. The
  driver state is a record with the static variables of the file; the input buffer \<open>cons\<close> is a
  record of its own, as in the source. A driver loop that ends only when a device runs
  dry is a \<open>partial_function\<close>.
\<close>

record 'd bus =
  inb :: "u32 \<Rightarrow> 'd \<Rightarrow> u8 \<times> 'd"
  outb :: "u32 \<Rightarrow> u8 \<Rightarrow> 'd \<Rightarrow> 'd"
  readback :: "u16 \<Rightarrow> u16"

record 'd console =
  serial_exists :: bool
  addr_6845 :: u32
  crt_base :: u32
  crt_buf :: "u16 \<Rightarrow> u16"
  crt_pos :: u16
  kbd_shift :: u32
  devs :: 'd

definition delay :: "'d bus \<Rightarrow> 'd \<Rightarrow> 'd" where
  "delay b d = (let rd = (\<lambda>d. snd (inb b 0x84 d)) in rd (rd (rd (rd d))))"

section \<open>Serial and parallel port\<close>

definition COM1 :: u32 where [simp]: "COM1 = 0x3F8"
definition COM_RX :: u32 where [simp]: "COM_RX = 0"
definition COM_TX :: u32 where [simp]: "COM_TX = 0"
definition COM_DLL :: u32 where [simp]: "COM_DLL = 0"
definition COM_DLM :: u32 where [simp]: "COM_DLM = 1"
definition COM_IER :: u32 where [simp]: "COM_IER = 1"
definition COM_IER_RDI :: u8 where [simp]: "COM_IER_RDI = 1"
definition COM_IIR :: u32 where [simp]: "COM_IIR = 2"
definition COM_FCR :: u32 where [simp]: "COM_FCR = 2"
definition COM_LCR :: u32 where [simp]: "COM_LCR = 3"
definition COM_LCR_DLAB :: u8 where [simp]: "COM_LCR_DLAB = 0x80"
definition COM_LCR_WLEN8 :: u8 where [simp]: "COM_LCR_WLEN8 = 3"
definition COM_MCR :: u32 where [simp]: "COM_MCR = 4"
definition COM_LSR :: u32 where [simp]: "COM_LSR = 5"
definition COM_LSR_DATA :: u8 where [simp]: "COM_LSR_DATA = 1"
definition COM_LSR_TXRDY :: u8 where [simp]: "COM_LSR_TXRDY = 0x20"

text \<open>A driver polls with \<open>proc\<close>: \<open>-1\<close> when there is no data, otherwise a character, 0 for none.\<close>

definition serial_proc_data :: "'d bus \<Rightarrow> 'd console \<Rightarrow> int \<times> 'd console" where
  "serial_proc_data b s =
     (let (st, d) = inb b (COM1 + COM_LSR) (devs s) in
      if st AND COM_LSR_DATA = 0 then (-1, s\<lparr>devs := d\<rparr>)
      else (let (c, d) = inb b (COM1 + COM_RX) d in (uint c, s\<lparr>devs := d\<rparr>)))"

text \<open>Wait until a bit of a status port is set, at most \<open>k\<close> times \<open>delay\<close>.\<close>

primrec wait_ready :: "'d bus \<Rightarrow> u32 \<Rightarrow> u8 \<Rightarrow> nat \<Rightarrow> 'd \<Rightarrow> 'd" where
  "wait_ready b port bits 0 d = snd (inb b port d)"
| "wait_ready b port bits (Suc k) d =
     (let (st, d) = inb b port d in
      if st AND bits \<noteq> 0 then d else wait_ready b port bits k (delay b d))"

definition serial_putc :: "'d bus \<Rightarrow> u32 \<Rightarrow> 'd \<Rightarrow> 'd" where
  "serial_putc b c d = outb b (COM1 + COM_TX) (ucast c) (wait_ready b (COM1 + COM_LSR) COM_LSR_TXRDY 12800 d)"

definition serial_init :: "'d bus \<Rightarrow> 'd console \<Rightarrow> 'd console" where
  "serial_init b s =
     (let d = outb b (COM1 + COM_FCR) 0 (devs s);
          d = outb b (COM1 + COM_LCR) COM_LCR_DLAB d;
          d = outb b (COM1 + COM_DLL) (of_nat (115200 div 9600)) d;
          d = outb b (COM1 + COM_DLM) 0 d;
          d = outb b (COM1 + COM_LCR) (COM_LCR_WLEN8 AND NOT COM_LCR_DLAB) d;
          d = outb b (COM1 + COM_MCR) 0 d;
          d = outb b (COM1 + COM_IER) COM_IER_RDI d;
          (st, d) = inb b (COM1 + COM_LSR) d;
          d = snd (inb b (COM1 + COM_IIR) d);
          d = snd (inb b (COM1 + COM_RX) d)
      in s\<lparr>serial_exists := (st \<noteq> 0xFF), devs := d\<rparr>)"

definition lpt_putc :: "'d bus \<Rightarrow> u32 \<Rightarrow> 'd \<Rightarrow> 'd" where
  "lpt_putc b c d =
     (let d = wait_ready b (0x378 + 1) 0x80 12800 d;
          d = outb b (0x378 + 0) (ucast c) d;
          d = outb b (0x378 + 2) (0x08 OR 0x04 OR 0x01) d
      in outb b (0x378 + 2) 0x08 d)"

section \<open>Text display\<close>

definition MONO_BASE :: u32 where [simp]: "MONO_BASE = 0x3B4"
definition MONO_BUF :: u32 where [simp]: "MONO_BUF = 0xB0000"
definition CGA_BASE :: u32 where [simp]: "CGA_BASE = 0x3D4"
definition CGA_BUF :: u32 where [simp]: "CGA_BUF = 0xB8000"
definition CRT_ROWS :: u16 where [simp]: "CRT_ROWS = 25"
definition CRT_COLS :: u16 where [simp]: "CRT_COLS = 80"
definition CRT_SIZE :: u16 where [simp]: "CRT_SIZE = CRT_ROWS * CRT_COLS"

text \<open>\<open>vmem\<close> gives the words at an address of the display memory.\<close>

definition cga_init :: "'d bus \<Rightarrow> (u32 \<Rightarrow> u16 \<Rightarrow> u16) \<Rightarrow> 'd console \<Rightarrow> 'd console" where
  "cga_init b vmem s =
     (let (cp, addr) = (if readback b 0xA55A \<noteq> 0xA55A then (0xF0000000 + MONO_BUF, MONO_BASE)
                        else (0xF0000000 + CGA_BUF, CGA_BASE));
          d = outb b addr 14 (devs s);
          (hi, d) = inb b (addr + 1) d;
          d = outb b addr 15 d;
          (lo, d) = inb b (addr + 1) d;
          pos = (push_bit 8 (ucast hi) OR ucast lo :: u32)
      in s\<lparr>addr_6845 := addr, crt_base := cp, crt_buf := vmem cp, crt_pos := ucast pos, devs := d\<rparr>)"

text \<open>The end of \<open>cga_putc\<close>: scroll by one line when the position is past the screen, and move the
  cursor.\<close>

definition cga_scroll :: "'d console \<Rightarrow> 'd console" where
  "cga_scroll s =
     (if crt_pos s \<ge> CRT_SIZE then
        s\<lparr>crt_buf := (\<lambda>i. if i < CRT_SIZE - CRT_COLS then crt_buf s (i + CRT_COLS)
             else if i < CRT_SIZE then 0x0720 else crt_buf s i),
          crt_pos := crt_pos s - CRT_COLS\<rparr>
      else s)"

definition cga_cursor :: "'d bus \<Rightarrow> 'd console \<Rightarrow> 'd console" where
  "cga_cursor b s =
     (let d = outb b (addr_6845 s) 14 (devs s);
          d = outb b (addr_6845 s + 1) (ucast (drop_bit 8 (crt_pos s))) d;
          d = outb b (addr_6845 s) 15 d;
          d = outb b (addr_6845 s + 1) (ucast (crt_pos s)) d
      in s\<lparr>devs := d\<rparr>)"

definition carriage_return :: "'d console \<Rightarrow> 'd console" where
  "carriage_return s = s\<lparr>crt_pos := crt_pos s - crt_pos s mod CRT_COLS\<rparr>"

lemma low_byte_attr: "(if c AND - 256 = 0 then c OR 0x0700 else c) AND 0xFF = c AND (0xFF :: u32)"
proof -
  have "(c OR 0x0700) AND 0xFF = c AND (0xFF :: u32)" by (simp add: bit.conj_disj_distrib2)
  thus ?thesis by simp
qed

text \<open>A tab is five blanks on all output devices: \<open>cga_putc\<close> and \<open>cons_putc\<close> call each other.\<close>

function cga_putc :: "'d bus \<Rightarrow> u32 \<Rightarrow> 'd console \<Rightarrow> 'd console"
  and cons_putc :: "'d bus \<Rightarrow> u32 \<Rightarrow> 'd console \<Rightarrow> 'd console" where
  "cga_putc b c0 s =
     (let c = (if c0 AND NOT 0xFF = 0 then c0 OR 0x0700 else c0) in
      cga_cursor b (cga_scroll
       (if c AND 0xff = 8 then
          (if crt_pos s > 0
           then s\<lparr>crt_pos := crt_pos s - 1,
                  crt_buf := (crt_buf s)(crt_pos s - 1 := ucast ((c AND NOT 0xff) OR 32))\<rparr>
           else s)
        else if c AND 0xff = 10 then carriage_return (s\<lparr>crt_pos := crt_pos s + CRT_COLS\<rparr>)
        else if c AND 0xff = 13 then carriage_return s
        else if c AND 0xff = 9 then
          cons_putc b 32 (cons_putc b 32 (cons_putc b 32 (cons_putc b 32 (cons_putc b 32 s))))
        else s\<lparr>crt_buf := (crt_buf s)(crt_pos s := ucast c), crt_pos := crt_pos s + 1\<rparr>)))"
| "cons_putc b c s = cga_putc b c (s\<lparr>devs := lpt_putc b c (serial_putc b c (devs s))\<rparr>)"
  by pat_completeness auto
termination
  by (relation "measure (\<lambda>x. case x of Inl (b, c, s) \<Rightarrow> if c AND 0xFF = 9 then 2 else 0
        | Inr (b, c, s) \<Rightarrow> if c AND 0xFF = 9 then 3 else 1)")
     (auto simp: low_byte_attr)

declare cga_putc.simps [simp del] cons_putc.simps [simp del]

definition cputchar :: "'d bus \<Rightarrow> u32 \<Rightarrow> 'd console \<Rightarrow> 'd console" where
  "cputchar b c s = cons_putc b c s"

text \<open>\<open>cprintf\<close> of a constant text without conversions.\<close>

definition cons_print :: "'d bus \<Rightarrow> string \<Rightarrow> 'd console \<Rightarrow> 'd console" where
  "cons_print b str s = fold (\<lambda>c. cputchar b (ucast (byte c))) str s"

section \<open>Keyboard\<close>

definition SHIFT :: u32 where [simp]: "SHIFT = 1"
definition CTL :: u32 where [simp]: "CTL = 2"
definition ALT :: u32 where [simp]: "ALT = 4"
definition CAPSLOCK :: u32 where [simp]: "CAPSLOCK = 8"
definition NUMLOCK :: u32 where [simp]: "NUMLOCK = 16"
definition SCROLLLOCK :: u32 where [simp]: "SCROLLLOCK = 32"
definition E0ESC :: u32 where [simp]: "E0ESC = 64"

definition KEY_HOME :: u8 where [simp]: "KEY_HOME = 0xE0"
definition KEY_END :: u8 where [simp]: "KEY_END = 0xE1"
definition KEY_UP :: u8 where [simp]: "KEY_UP = 0xE2"
definition KEY_DN :: u8 where [simp]: "KEY_DN = 0xE3"
definition KEY_LF :: u8 where [simp]: "KEY_LF = 0xE4"
definition KEY_RT :: u8 where [simp]: "KEY_RT = 0xE5"
definition KEY_PGUP :: u8 where [simp]: "KEY_PGUP = 0xE6"
definition KEY_PGDN :: u8 where [simp]: "KEY_PGDN = 0xE7"
definition KEY_INS :: u8 where [simp]: "KEY_INS = 0xE8"
definition KEY_DEL :: u8 where [simp]: "KEY_DEL = 0xE9"

definition KBSTATP :: u32 where [simp]: "KBSTATP = 0x64"
definition KBS_DIB :: u8 where [simp]: "KBS_DIB = 0x01"
definition KBS_TERR :: u8 where [simp]: "KBS_TERR = 0x20"
definition KBDATAP :: u32 where [simp]: "KBDATAP = 0x60"

definition shiftcode :: "u8 list" where
  "shiftcode = (replicate 256 0)[0x1D := ucast CTL, 0x2A := ucast SHIFT, 0x36 := ucast SHIFT,
     0x38 := ucast ALT, 0x9D := ucast CTL, 0xB8 := ucast ALT]"

definition togglecode :: "u8 list" where
  "togglecode = (replicate 256 0)[0x3A := ucast CAPSLOCK, 0x45 := ucast NUMLOCK, 0x46 := ucast SCROLLLOCK]"

definition NO :: u8 where [simp]: "NO = 0"

definition normalmap :: "u8 list" where
  "normalmap = ([NO, 0x1B] @ map byte ''1234567890-='' @ [8, 9] @
     map byte ''qwertyuiop[]'' @ [10, NO] @ map byte ''asdfghjkl;'' @ [0x27, 0x60, NO, 0x5C] @
     map byte ''zxcvbnm,./'' @ [NO] @ map byte ''*'' @
     [NO] @ map byte '' '' @ replicate 6 NO @
     replicate 7 NO @ map byte ''789-456+1230.'' @ replicate 4 NO @ replicate 168 0)
     [0xC7 := KEY_HOME, 0x9C := 10, 0xB5 := byte (CHR ''/''), 0xC8 := KEY_UP, 0xC9 := KEY_PGUP, 0xCB := KEY_LF,
      0xCD := KEY_RT, 0xCF := KEY_END, 0xD0 := KEY_DN, 0xD1 := KEY_PGDN, 0xD2 := KEY_INS, 0xD3 := KEY_DEL]"

definition shiftmap :: "u8 list" where
  "shiftmap = ([NO, 0x1B] @ map byte ''!@#$%^&*()_+'' @ [8, 9] @
     map byte ''QWERTYUIOP{}'' @ [10, NO] @ map byte ''ASDFGHJKL:'' @ [0x22] @ map byte ''~'' @ [NO] @ map byte ''|'' @
     map byte ''ZXCVBNM<>?'' @ [NO] @ map byte ''*'' @
     [NO] @ map byte '' '' @ replicate 6 NO @
     replicate 7 NO @ map byte ''789-456+1230.'' @ replicate 4 NO @ replicate 168 0)
     [0xC7 := KEY_HOME, 0x9C := 10, 0xB5 := byte (CHR ''/''), 0xC8 := KEY_UP, 0xC9 := KEY_PGUP, 0xCB := KEY_LF,
      0xCD := KEY_RT, 0xCF := KEY_END, 0xD0 := KEY_DN, 0xD1 := KEY_PGDN, 0xD2 := KEY_INS, 0xD3 := KEY_DEL]"

definition Ctl :: "char \<Rightarrow> u8" where "Ctl x = byte x - byte (CHR ''@'')"

definition ctlmap :: "u8 list" where
  "ctlmap = (replicate 16 NO @
     map Ctl ''QWERTYUIOP'' @ [NO, NO, 13, NO] @ map Ctl ''ASDFGHJKL'' @ [NO,
     NO, NO, NO] @ [byte (CHR 0x5C) - byte (CHR ''@'')] @ map Ctl ''ZXCVBNM'' @ [NO, NO, Ctl (CHR ''/''), NO, NO] @ replicate 200 0)
     [0x97 := KEY_HOME, 0xB5 := Ctl (CHR ''/''), 0xC8 := KEY_UP, 0xC9 := KEY_PGUP, 0xCB := KEY_LF,
      0xCD := KEY_RT, 0xCF := KEY_END, 0xD0 := KEY_DN, 0xD1 := KEY_PGDN, 0xD2 := KEY_INS, 0xD3 := KEY_DEL]"

definition charcode :: "u8 list list" where
  "charcode = [normalmap, shiftmap, ctlmap, ctlmap]"

text \<open>What a scan code does to the modifiers, and the character it gives (0 for none).\<close>

definition kbd_decode :: "u32 \<Rightarrow> u8 \<Rightarrow> u8 \<times> u32" where
  "kbd_decode shift data =
     (if data = 0xE0 then (0, shift OR E0ESC)
      else if data AND 0x80 \<noteq> 0 then
        (let data = (if shift AND E0ESC \<noteq> 0 then data else data AND 0x7F)
         in (0, shift AND NOT (ucast (shiftcode ! unat data) OR E0ESC)))
      else
        (let (data, shift) = (if shift AND E0ESC \<noteq> 0 then (data OR 0x80, shift AND NOT E0ESC) else (data, shift));
             shift = shift OR ucast (shiftcode ! unat data);
             shift = shift XOR ucast (togglecode ! unat data);
             c = charcode ! unat (shift AND (CTL OR SHIFT)) ! unat data;
             c = (if shift AND CAPSLOCK \<noteq> 0 then
                    (if byte (CHR ''a'') \<le> c \<and> c \<le> byte (CHR ''z'') then c + (byte (CHR ''A'') - byte (CHR ''a''))
                     else if byte (CHR ''A'') \<le> c \<and> c \<le> byte (CHR ''Z'') then c + (byte (CHR ''a'') - byte (CHR ''A''))
                     else c)
                  else c)
         in (c, shift)))"

definition kbd_proc_data :: "'d bus \<Rightarrow> 'd console \<Rightarrow> int \<times> 'd console" where
  "kbd_proc_data b s =
     (let (stat, d) = inb b KBSTATP (devs s); s = s\<lparr>devs := d\<rparr> in
      if stat AND KBS_DIB = 0 then (-1, s)
      else if stat AND KBS_TERR \<noteq> 0 then (-1, s)
      else
        (let (data, d) = inb b KBDATAP d;
             (c, shift) = kbd_decode (kbd_shift s) data;
             s = s\<lparr>devs := d, kbd_shift := shift\<rparr>;
             s = (if c = KEY_DEL \<and> NOT shift AND (CTL OR ALT) = 0
                  then (let s = cons_print b (''Rebooting!'' @ [CHR 0x0A]) s in s\<lparr>devs := outb b 0x92 0x3 (devs s)\<rparr>)
                  else s)
         in (uint c, s)))"

section \<open>Input buffer\<close>

definition CONSBUFSIZE :: u32 where [simp]: "CONSBUFSIZE = 512"

record consbuf =
  cons_buf :: "u8 list"
  cons_rpos :: u32
  cons_wpos :: u32

definition cons_store :: "int \<Rightarrow> consbuf \<Rightarrow> consbuf" where
  "cons_store c q =
     (let q = q\<lparr>cons_buf := (cons_buf q)[unat (cons_wpos q) := word_of_int c], cons_wpos := cons_wpos q + 1\<rparr>
      in if cons_wpos q = CONSBUFSIZE then q\<lparr>cons_wpos := 0\<rparr> else q)"

partial_function (option) cons_intr :: "('s \<Rightarrow> int \<times> 's) \<Rightarrow> 's \<Rightarrow> consbuf \<Rightarrow> ('s \<times> consbuf) option" where
  "cons_intr proc s q =
     (let (c, s) = proc s in
      if c = -1 then Some (s, q)
      else if c = 0 then cons_intr proc s q
      else cons_intr proc s (cons_store c q))"

definition serial_intr :: "'d bus \<Rightarrow> 'd console \<Rightarrow> consbuf \<Rightarrow> ('d console \<times> consbuf) option" where
  "serial_intr b s q = (if serial_exists s then cons_intr (serial_proc_data b) s q else Some (s, q))"

definition kbd_intr :: "'d bus \<Rightarrow> 'd console \<Rightarrow> consbuf \<Rightarrow> ('d console \<times> consbuf) option" where
  "kbd_intr b s q = cons_intr (kbd_proc_data b) s q"

definition kbd_init :: "'d console \<Rightarrow> 'd console" where
  "kbd_init s = s"

definition cons_take :: "consbuf \<Rightarrow> int \<times> consbuf" where
  "cons_take q =
     (if cons_rpos q \<noteq> cons_wpos q then
        (let c = cons_buf q ! unat (cons_rpos q); q = q\<lparr>cons_rpos := cons_rpos q + 1\<rparr>;
             q = (if cons_rpos q = CONSBUFSIZE then q\<lparr>cons_rpos := 0\<rparr> else q)
         in (uint c, q))
      else (0, q))"

definition cons_getc :: "'d bus \<Rightarrow> 'd console \<Rightarrow> consbuf \<Rightarrow> (int \<times> 'd console \<times> consbuf) option" where
  "cons_getc b s q =
     (case serial_intr b s q of
        None \<Rightarrow> None
      | Some (s, q) \<Rightarrow>
          (case kbd_intr b s q of
             None \<Rightarrow> None
           | Some (s, q) \<Rightarrow> (let (c, q) = cons_take q in Some (c, s, q))))"

partial_function (option) getchar ::
  "'d bus \<Rightarrow> 'd console \<Rightarrow> consbuf \<Rightarrow> (int \<times> 'd console \<times> consbuf) option" where
  "getchar b s q =
     (case cons_getc b s q of
        None \<Rightarrow> None
      | Some (c, s, q) \<Rightarrow> if c = 0 then getchar b s q else Some (c, s, q))"

definition cons_init :: "'d bus \<Rightarrow> (u32 \<Rightarrow> u16 \<Rightarrow> u16) \<Rightarrow> 'd console \<Rightarrow> 'd console" where
  "cons_init b vmem s =
     (let s = serial_init b (kbd_init (cga_init b vmem s))
      in if \<not> serial_exists s then cons_print b (''Serial port does not exist!'' @ [CHR 0x0A]) s else s)"

definition iscons :: "u32 \<Rightarrow> u32" where
  "iscons fdnum = 1"

lemma table_lengths:
  "length normalmap = 256" "length shiftmap = 256" "length ctlmap = 256" "length shiftcode = 256" "length togglecode = 256"
  by (simp_all add: normalmap_def shiftmap_def ctlmap_def shiftcode_def togglecode_def)

section \<open>The input buffer is a queue\<close>

definition cons_wf :: "consbuf \<Rightarrow> bool" where
  "cons_wf q \<longleftrightarrow> length (cons_buf q) = 512 \<and> unat (cons_rpos q) < 512 \<and> unat (cons_wpos q) < 512"

text \<open>The characters that wait in the buffer, the oldest first.\<close>

definition pending :: "consbuf \<Rightarrow> u8 list" where
  "pending q = map (\<lambda>i. cons_buf q ! ((unat (cons_rpos q) + i) mod 512))
     [0..<(unat (cons_wpos q) + 512 - unat (cons_rpos q)) mod 512]"

text \<open>The queue it implements: it holds up to 511 characters, and the next one empties it.\<close>

definition queue_put :: "u8 \<Rightarrow> u8 list \<Rightarrow> u8 list" where
  "queue_put c l = (if length l = 511 then [] else l @ [c])"

definition queue_get :: "u8 list \<Rightarrow> int \<times> u8 list" where
  "queue_get l = (case l of [] \<Rightarrow> (0, []) | c # l \<Rightarrow> (uint c, l))"

lemma pending_eq:
  assumes "r < 512" and "n < 512" and "unat (cons_rpos q) = r" and "unat (cons_wpos q) = (r + n) mod 512"
  shows "pending q = map (\<lambda>i. cons_buf q ! ((r + i) mod 512)) [0..<n]"
proof -
  have "((r + n) mod 512 + 512 - r) mod 512 = n"
  proof (cases "r + n < 512")
    case False
    hence "(r + n) mod 512 = r + n - 512" using assms by (simp add: mod_if)
    thus ?thesis using False assms by simp
  qed (use assms in simp)
  thus ?thesis using assms by (simp add: pending_def)
qed

lemma cons_wf_pos:
  assumes "cons_wf q"
  obtains r n where "r < 512" "n < 512" "unat (cons_rpos q) = r" "unat (cons_wpos q) = (r + n) mod 512"
    "pending q = map (\<lambda>i. cons_buf q ! ((r + i) mod 512)) [0..<n]"
proof -
  define r w where "r = unat (cons_rpos q)" and "w = unat (cons_wpos q)"
  have b: "r < 512" "w < 512" using assms by (simp_all add: cons_wf_def r_def w_def)
  have "(r + (w + 512 - r) mod 512) mod 512 = (r + (w + 512 - r)) mod 512" by (rule mod_add_right_eq)
  also have "\<dots> = w" using b by simp
  finally have "(r + (w + 512 - r) mod 512) mod 512 = w" .
  hence "unat (cons_wpos q) = (r + (w + 512 - r) mod 512) mod 512" by (simp only: w_def)
  moreover from pending_eq [OF b(1) _ r_def [symmetric] this]
  have "pending q = map (\<lambda>i. cons_buf q ! ((r + i) mod 512)) [0..<(w + 512 - r) mod 512]" by simp
  ultimately show ?thesis by (intro that [OF b(1) _ r_def [symmetric]]) simp_all
qed

lemma pos_step:
  assumes "unat p < 512"
  shows "unat (if p + 1 = (512 :: u32) then 0 else p + 1) = (unat p + 1) mod 512"
proof -
  have u: "unat (p + 1) = unat p + 1" using assms by (simp add: unat_add_no_carry)
  hence "p + 1 = 512 \<longleftrightarrow> unat p + 1 = 512" using word_unat_eq_iff [of "p + 1" 512] by simp
  thus ?thesis using u assms by (cases "p + 1 = 512") (simp_all add: mod_less)
qed

lemma cons_store_pos: "cons_wf q \<Longrightarrow> unat (cons_wpos (cons_store c q)) = (unat (cons_wpos q) + 1) mod 512"
  using pos_step [of "cons_wpos q"] by (simp add: cons_wf_def cons_store_def Let_def split: if_splits)

lemma cons_store_buf:
  "cons_buf (cons_store c q) = (cons_buf q)[unat (cons_wpos q) := word_of_int c]" "cons_rpos (cons_store c q) = cons_rpos q"
  by (simp_all add: cons_store_def Let_def)

lemma cons_store_queue:
  assumes "cons_wf q"
  shows "cons_wf (cons_store c q)" and "pending (cons_store c q) = queue_put (word_of_int c) (pending q)"
proof -
  show "cons_wf (cons_store c q)"
    using assms cons_store_pos [OF assms, of c] by (simp add: cons_wf_def cons_store_buf)
  obtain r n where p: "r < 512" "n < 512" "unat (cons_rpos q) = r" "unat (cons_wpos q) = (r + n) mod 512"
    "pending q = map (\<lambda>i. cons_buf q ! ((r + i) mod 512)) [0..<n]" by (rule cons_wf_pos [OF assms])
  let ?q = "cons_store c q"
  have r: "unat (cons_rpos ?q) = r" using p by (simp add: cons_store_buf)
  have w: "unat (cons_wpos ?q) = (r + Suc n) mod 512" using cons_store_pos [OF assms, of c] p by (simp add: mod_Suc_eq)
  show "pending ?q = queue_put (word_of_int c) (pending q)"
  proof (cases "n = 511")
    case True
    hence "unat (cons_wpos ?q) = (r + 0) mod 512" using w p(1) by simp
    from pending_eq [OF p(1) _ r this] show ?thesis using True p(5) by (simp add: queue_put_def)
  next
    case False
    hence "Suc n < 512" using p(2) by simp
    note new = pending_eq [OF p(1) this r w]
    have "(r + i) mod 512 \<noteq> (r + n) mod 512" if "i < n" for i
    proof
      assume "(r + i) mod 512 = (r + n) mod 512"
      hence "512 dvd (r + n) - (r + i)" using that by (intro mod_eq_dvd_iff_nat [THEN iffD1]) auto
      thus False using that p(2) by (auto dest: dvd_imp_le)
    qed
    hence "map (\<lambda>i. cons_buf ?q ! ((r + i) mod 512)) [0..<n] = pending q"
      unfolding p(5) by (intro map_cong refl) (simp add: cons_store_buf p(4) nth_list_update_neq [OF not_sym])
    moreover have "cons_buf ?q ! ((r + n) mod 512) = word_of_int c"
      using p(4) assms by (simp add: cons_store_buf cons_wf_def)
    ultimately show ?thesis using new False p(5) by (simp add: queue_put_def)
  qed
qed

lemma cons_take_queue:
  assumes "cons_wf q" and "cons_take q = (c, q')"
  shows "cons_wf q'" and "queue_get (pending q) = (c, pending q')"
proof -
  obtain r n where p: "r < 512" "n < 512" "unat (cons_rpos q) = r" "unat (cons_wpos q) = (r + n) mod 512"
    "pending q = map (\<lambda>i. cons_buf q ! ((r + i) mod 512)) [0..<n]" by (rule cons_wf_pos [OF assms(1)])
  have "cons_wf q' \<and> queue_get (pending q) = (c, pending q')"
  proof (cases n)
    case 0
    hence "unat (cons_rpos q) = unat (cons_wpos q)" using p by simp
    hence "cons_rpos q = cons_wpos q" by (simp only: word_unat_eq_iff)
    thus ?thesis using assms 0 p by (simp add: cons_take_def queue_get_def)
  next
    case (Suc k)
    have "(r + n) mod 512 \<noteq> r"
    proof (cases "r + n < 512")
      case False
      hence "(r + n) mod 512 = r + n - 512" using p(1,2) by (simp add: mod_if)
      thus ?thesis using False p(2) by linarith
    qed (simp add: Suc)
    hence ne: "cons_rpos q \<noteq> cons_wpos q" using p(3,4) by metis
    have c: "c = uint (cons_buf q ! r)" and q': "cons_buf q' = cons_buf q" "cons_wpos q' = cons_wpos q"
      "cons_rpos q' = (if cons_rpos q + 1 = 512 then 0 else cons_rpos q + 1)"
      using assms(2) ne p(3) by (auto simp: cons_take_def Let_def)
    have r': "unat (cons_rpos q') = (r + 1) mod 512" using pos_step [of "cons_rpos q"] p(1,3) q'(3) by simp
    have w': "unat (cons_wpos q') = ((r + 1) mod 512 + k) mod 512" using p(4) q'(2) Suc by (simp add: mod_simps)
    have "pending q' = map (\<lambda>i. cons_buf q ! (((r + 1) mod 512 + i) mod 512)) [0..<k]"
      using pending_eq [OF _ _ r' w'] Suc p(2) q'(1) by simp
    also have "\<dots> = map (\<lambda>i. cons_buf q ! ((r + i) mod 512)) [Suc 0..<Suc k]"
      by (simp add: mod_simps comp_def del: upt_Suc flip: map_Suc_upt)
    finally have "pending q = (cons_buf q ! r) # pending q'"
      using p(1,5) Suc by (simp add: upt_conv_Cons del: upt_Suc)
    moreover have "cons_wf q'" using assms(1) q' r' by (simp add: cons_wf_def)
    ultimately show ?thesis by (simp add: queue_get_def c)
  qed
  thus "cons_wf q'" and "queue_get (pending q) = (c, pending q')" by blast+
qed

section \<open>Interrupts\<close>

text \<open>\<open>feeds proc s cs s'\<close>: polled with \<open>proc\<close> from \<open>s\<close>, the device gives \<open>cs\<close> and runs dry in \<open>s'\<close>.\<close>

inductive feeds :: "('s \<Rightarrow> int \<times> 's) \<Rightarrow> 's \<Rightarrow> int list \<Rightarrow> 's \<Rightarrow> bool" for proc where
  feeds_dry: "proc s = (-1, s') \<Longrightarrow> feeds proc s [] s'"
| feeds_more: "proc s = (c, s') \<Longrightarrow> c \<noteq> -1 \<Longrightarrow> feeds proc s' cs s'' \<Longrightarrow> feeds proc s (c # cs) s''"

abbreviation chars :: "int list \<Rightarrow> int list" where
  "chars \<equiv> filter (\<lambda>c. c \<noteq> 0)"

lemma cons_intr_feeds: "feeds proc s cs s' \<Longrightarrow> cons_intr proc s q = Some (s', fold cons_store (chars cs) q)"
proof (induction arbitrary: q rule: feeds.induct)
  case (feeds_dry s s')
  thus ?case by (subst cons_intr.simps) simp
next
  case (feeds_more s c s' cs s'')
  thus ?case by (subst cons_intr.simps) simp
qed

lemma cons_intr_imp_feeds:
  "cons_intr proc s q = Some y \<Longrightarrow> \<exists>cs. feeds proc s cs (fst y) \<and> snd y = fold cons_store (chars cs) q"
proof (rule cons_intr.raw_induct [where P = "\<lambda>proc s q y. \<exists>cs. feeds proc s cs (fst y) \<and> snd y = fold cons_store (chars cs) q"], goal_cases)
  case (1 f proc s q y)
  note IH = 1(2) and run = 1(3)
  obtain c s' where c: "proc s = (c, s')" by (cases "proc s")
  consider "c = -1" | "c = 0" | "c \<noteq> -1" "c \<noteq> 0" by blast
  thus ?case
  proof cases
    case 1
    hence "feeds proc s [] s'" "y = (s', q)" using c run by (auto intro: feeds_dry)
    thus ?thesis by (intro exI [of _ "[]"]) simp
  next
    case 2
    hence "f proc s' q = Some y" using c run by simp
    then obtain cs where "feeds proc s' cs (fst y)" "snd y = fold cons_store (chars cs) q"
      using IH by blast
    thus ?thesis using c 2 by (intro exI [of _ "0 # cs"]) (simp add: feeds_more)
  next
    case 3
    hence "f proc s' (cons_store c q) = Some y" using c run by simp
    then obtain cs where "feeds proc s' cs (fst y)" "snd y = fold cons_store (chars cs) (cons_store c q)"
      using IH by blast
    thus ?thesis using c 3 by (intro exI [of _ "c # cs"]) (simp add: feeds_more)
  qed
qed assumption

lemma fold_cons_store_queue:
  "cons_wf q \<Longrightarrow> cons_wf (fold cons_store cs q) \<and>
     pending (fold cons_store cs q) = fold queue_put (map word_of_int cs) (pending q)"
  by (induction cs arbitrary: q) (simp_all add: cons_store_queue)

lemma fold_queue_put: "length l + length cs < 512 \<Longrightarrow> fold queue_put cs l = l @ cs"
  by (induction cs arbitrary: l) (simp_all add: queue_put_def)

lemma uint_byte_range: "uint (c :: u8) \<in> {-1..255}"
  using uint_bounded [of c] by (simp add: order_trans [OF _ uint_ge_0])

lemma proc_data_range: "fst (serial_proc_data b s) \<in> {-1..255}" "fst (kbd_proc_data b s) \<in> {-1..255}"
  using uint_byte_range
  by (simp_all add: serial_proc_data_def kbd_proc_data_def Let_def split: prod.split del: atLeastAtMost_iff)
     (simp_all add: atLeastAtMost_iff)

lemma feeds_range: "feeds proc s cs s' \<Longrightarrow> (\<And>s. fst (proc s) \<in> {-1..255}) \<Longrightarrow> set cs \<subseteq> {0..255}"
proof (induction rule: feeds.induct)
  case (feeds_more s c s' cs s'')
  have "c \<in> {-1..255}" using feeds_more.prems [of s] feeds_more.hyps(1) by simp
  thus ?case using feeds_more by auto
qed simp

text \<open>What one round of polling takes from both devices.\<close>

definition polled :: "'d bus \<Rightarrow> 'd console \<Rightarrow> int list \<Rightarrow> 'd console \<Rightarrow> bool" where
  "polled b s cs s' \<longleftrightarrow> (\<exists>cs1 s1 cs2. cs = cs1 @ cs2 \<and>
     (if serial_exists s then feeds (serial_proc_data b) s cs1 s1 else cs1 = [] \<and> s1 = s) \<and>
     feeds (kbd_proc_data b) s1 cs2 s')"

lemma polledE:
  assumes "polled b s cs s'"
  obtains cs1 s1 cs2 where "cs = cs1 @ cs2" "feeds (kbd_proc_data b) s1 cs2 s'"
    "serial_exists s \<and> feeds (serial_proc_data b) s cs1 s1 \<or> \<not> serial_exists s \<and> cs1 = [] \<and> s1 = s"
  using assms unfolding polled_def by (metis (full_types))

lemma polled_range: "polled b s cs s' \<Longrightarrow> set cs \<subseteq> {0..255}"
proof (erule polledE)
  fix cs1 s1 cs2
  assume p: "cs = cs1 @ cs2" "feeds (kbd_proc_data b) s1 cs2 s'"
    "serial_exists s \<and> feeds (serial_proc_data b) s cs1 s1 \<or> \<not> serial_exists s \<and> cs1 = [] \<and> s1 = s"
  have "set cs1 \<subseteq> {0..255}" using p(3) feeds_range [of "serial_proc_data b" s cs1 s1, OF _ proc_data_range(1)] by auto
  moreover have "set cs2 \<subseteq> {0..255}" using feeds_range [OF p(2) proc_data_range(2)] .
  ultimately show "set cs \<subseteq> {0..255}" using p(1) by simp
qed

lemma cons_getc_polled:
  assumes "polled b s cs s'"
  shows "cons_getc b s q = (let (c, q) = cons_take (fold cons_store (chars cs) q) in Some (c, s', q))"
proof -
  obtain cs1 s1 cs2 where p: "cs = cs1 @ cs2" "feeds (kbd_proc_data b) s1 cs2 s'"
    "serial_exists s \<and> feeds (serial_proc_data b) s cs1 s1 \<or> \<not> serial_exists s \<and> cs1 = [] \<and> s1 = s"
    by (rule polledE [OF assms])
  have "serial_intr b s q = Some (s1, fold cons_store (chars cs1) q)"
    using p(3) by (auto simp: serial_intr_def cons_intr_feeds)
  thus ?thesis using cons_intr_feeds [OF p(2)] p(1) by (simp add: cons_getc_def kbd_intr_def)
qed

lemma getchar_idle:
  assumes "cons_wf q" and "pending q = []" and "polled b s cs s'" and "chars cs = []"
  shows "getchar b s q = getchar b s' q"
proof -
  obtain r n where p: "n < 512" "unat (cons_rpos q) = r" "r < 512" "unat (cons_wpos q) = (r + n) mod 512"
    "pending q = map (\<lambda>i. cons_buf q ! ((r + i) mod 512)) [0..<n]" by (rule cons_wf_pos [OF assms(1)])
  hence "unat (cons_rpos q) = unat (cons_wpos q)" using assms(2) by simp
  hence "cons_rpos q = cons_wpos q" by (simp only: word_unat_eq_iff)
  hence "cons_take q = (0, q)" by (simp add: cons_take_def)
  thus ?thesis using cons_getc_polled [OF assms(3), of q] assms(4) by (subst getchar.simps) simp
qed

section \<open>Properties\<close>

text \<open>\<open>cons_intr\<close> returns exactly when the device it polls runs dry, and then has stored every
  nonzero character, in order.\<close>

theorem cons_intr_returns_iff:
  "cons_intr proc s q = Some (s', q') \<longleftrightarrow> (\<exists>cs. feeds proc s cs s' \<and> q' = fold cons_store (chars cs) q)"
  using cons_intr_feeds cons_intr_imp_feeds by fastforce

text \<open>C21: the circular buffer refines a queue of 511 characters. After a round of polling that gives
  the characters \<open>cs\<close>, \<open>cons_getc\<close> returns the oldest waiting character, or 0 when there is none, and
  leaves the others waiting in order; a character that arrives when 511 are waiting
  empties the queue.\<close>

theorem cons_getc_refines_queue:
  assumes "cons_wf q" and "polled b s cs s'"
  shows "\<exists>c q'. cons_getc b s q = Some (c, s', q') \<and> cons_wf q' \<and>
     (c, pending q') = queue_get (fold queue_put (map word_of_int (chars cs)) (pending q))"
proof -
  obtain c q' where t: "cons_take (fold cons_store (chars cs) q) = (c, q')" by (cases "cons_take (fold cons_store (chars cs) q)")
  thus ?thesis
    using cons_getc_polled [OF assms(2), of q] fold_cons_store_queue [OF assms(1), of "chars cs"] cons_take_queue [OF _ t]
    by simp
qed

text \<open>C24: \<open>getchar\<close> does return. When the buffer is empty, \<open>n\<close> rounds of polling give nothing and the next
  one gives characters, fewer than the buffer holds, \<open>getchar\<close> returns the first of them and leaves the others waiting.\<close>

theorem getchar_returns_first_character:
  assumes "cons_wf q" and "pending q = []"
    and "\<And>i. i < n \<Longrightarrow> \<exists>cs. polled b (st i) cs (st (Suc i)) \<and> chars cs = []"
    and "polled b (st n) cs s'" and "chars cs = c # rest" and "length rest < 511"
  shows "\<exists>q'. getchar b (st 0) q = Some (c, s', q') \<and> cons_wf q' \<and> pending q' = map word_of_int rest"
proof -
  have "i \<le> n \<Longrightarrow> getchar b (st 0) q = getchar b (st i) q" for i
  proof (induction i)
    case (Suc i)
    then obtain cs where "polled b (st i) cs (st (Suc i))" "chars cs = []" using assms(3) [of i] by auto
    from getchar_idle [OF assms(1,2) this] show ?case using Suc by simp
  qed simp
  hence 0: "getchar b (st 0) q = getchar b (st n) q" by blast
  obtain c' q' where t: "cons_take (fold cons_store (chars cs) q) = (c', q')" by (cases "cons_take (fold cons_store (chars cs) q)")
  have r: "c \<in> {0..255}" "c \<noteq> 0"
    using polled_range [OF assms(4)] filter_eq_ConsD [OF assms(5)] by auto
  hence "uint (word_of_int c :: u8) = c" by (simp add: uint_word_of_int)
  hence "c' = c" "cons_wf q'" "pending q' = map word_of_int rest"
    using fold_cons_store_queue [OF assms(1), of "chars cs"] cons_take_queue [OF _ t] assms(2,5,6)
      fold_queue_put [of "[]" "map word_of_int (chars cs)"] by (simp_all add: queue_get_def)
  thus ?thesis unfolding 0 using cons_getc_polled [OF assms(4), of q] t r(2) by (subst getchar.simps) simp
qed

text \<open>A bus with a serial line on which a byte is ready or not at each look at the status; nothing
  else is connected.\<close>

definition demo_bus :: "u8 option list bus" where
  "demo_bus = \<lparr>
     inb = (\<lambda>p d. if p = 0x3FD then (case d of Some c # r \<Rightarrow> (1, d) | None # r \<Rightarrow> (0, r) | [] \<Rightarrow> (0, []))
        else if p = 0x3F8 then (case d of Some c # r \<Rightarrow> (c, r) | _ \<Rightarrow> (0, d)) else (0, d)),
     outb = (\<lambda>p v d. d), readback = (\<lambda>v. v)\<rparr>"

definition demo_console :: "u8 option list \<Rightarrow> u8 option list console" where
  "demo_console d = \<lparr>serial_exists = True, addr_6845 = 0x3D4, crt_base = 0xF00B8000, crt_buf = (\<lambda>i. 0x0720),
     crt_pos = 1998, kbd_shift = 0, devs = d\<rparr>"

definition demo_cons :: consbuf where
  "demo_cons = \<lparr>cons_buf = replicate 512 0, cons_rpos = 0, cons_wpos = 0\<rparr>"

lemma demo_cons_wf: "cons_wf demo_cons" "pending demo_cons = []"
  by (simp_all add: cons_wf_def demo_cons_def pending_def)

lemma demo_kbd: "feeds (kbd_proc_data demo_bus) (demo_console d) [] (demo_console d)"
  by (rule feeds_dry) (simp add: kbd_proc_data_def demo_bus_def demo_console_def)

lemma demo_polled:
  "polled demo_bus (demo_console [None, Some 65]) [] (demo_console [Some 65])"
  "polled demo_bus (demo_console [Some 65]) [65] (demo_console [])"
proof -
  have s: "serial_proc_data demo_bus (demo_console [None, Some 65]) = (-1, demo_console [Some 65])"
    "serial_proc_data demo_bus (demo_console [Some 65]) = (65, demo_console [])"
    "serial_proc_data demo_bus (demo_console []) = (-1, demo_console [])"
    by (simp_all add: serial_proc_data_def demo_bus_def demo_console_def)
  have "feeds (serial_proc_data demo_bus) (demo_console [None, Some 65]) [] (demo_console [Some 65])"
    "feeds (serial_proc_data demo_bus) (demo_console [Some 65]) [65] (demo_console [])"
    using s by (auto intro: feeds.intros)
  moreover have "serial_exists (demo_console d)" for d by (simp add: demo_console_def)
  ultimately show "polled demo_bus (demo_console [None, Some 65]) [] (demo_console [Some 65])"
    "polled demo_bus (demo_console [Some 65]) [65] (demo_console [])"
    unfolding polled_def using demo_kbd by force+
qed

theorem cons_getc_refines_queue_witness:
  "\<exists>q'. cons_getc demo_bus (demo_console [Some 65]) demo_cons = Some (65, demo_console [], q') \<and> pending q' = []"
  using cons_getc_refines_queue [OF demo_cons_wf(1) demo_polled(2)]
  by (auto simp: demo_cons_wf queue_put_def queue_get_def)

theorem getchar_returns_first_character_witness:
  "\<exists>q'. getchar demo_bus (demo_console [None, Some 65]) demo_cons = Some (65, demo_console [], q')"
proof -
  let ?st = "\<lambda>i :: nat. if i = 0 then demo_console [None, Some 65] else demo_console [Some 65]"
  have "\<exists>cs. polled demo_bus (?st i) cs (?st (Suc i)) \<and> chars cs = []" if "i < 1" for i
    using that demo_polled(1) by (intro exI [of _ "[]"]) simp
  moreover have "polled demo_bus (?st 1) [65] (demo_console [])" "chars [65] = 65 # []" using demo_polled(2) by simp_all
  ultimately show ?thesis
    using getchar_returns_first_character [OF demo_cons_wf, of 1 demo_bus ?st "[65]" "demo_console []" 65 "[]"] by auto
qed

section \<open>The display stays on the screen\<close>

definition same_screen :: "'d console \<Rightarrow> 'd console \<Rightarrow> bool" where
  "same_screen s s' \<longleftrightarrow> crt_pos s' < 2000 \<and> (\<forall>i \<ge> 2000. crt_buf s' i = crt_buf s i) \<and>
     addr_6845 s' = addr_6845 s \<and> crt_base s' = crt_base s \<and> serial_exists s' = serial_exists s \<and> kbd_shift s' = kbd_shift s"

lemma same_screen_trans: "same_screen s t \<Longrightarrow> same_screen t u \<Longrightarrow> same_screen s u"
  by (simp add: same_screen_def)

lemma cga_cursor_screen:
  "crt_pos (cga_cursor b s) = crt_pos s" "crt_buf (cga_cursor b s) = crt_buf s" "addr_6845 (cga_cursor b s) = addr_6845 s"
  "crt_base (cga_cursor b s) = crt_base s" "serial_exists (cga_cursor b s) = serial_exists s" "kbd_shift (cga_cursor b s) = kbd_shift s"
  by (simp_all add: cga_cursor_def Let_def)

lemma cga_scroll_screen:
  assumes "crt_pos s < 2080" and "\<forall>i \<ge> 2000. crt_buf s i = crt_buf s0 i"
    and "addr_6845 s = addr_6845 s0" "crt_base s = crt_base s0" "serial_exists s = serial_exists s0" "kbd_shift s = kbd_shift s0"
  shows "same_screen s0 (cga_cursor b (cga_scroll s))"
proof -
  have "crt_pos s - 80 < 2000" if "2000 \<le> crt_pos s"
    using assms(1) that unat_sub_no_borrow [of 80 "crt_pos s"] by (simp add: word_less_nat_alt word_le_nat_alt)
  moreover have "\<not> i < 1920" "\<not> i < 2000" if "2000 \<le> i" for i :: u16 using that by (auto simp: word_less_nat_alt word_le_nat_alt)
  ultimately show ?thesis
    using assms(2-) by (simp add: same_screen_def cga_cursor_screen cga_scroll_def linorder_not_le)
qed

lemma carriage_return_pos: "unat (crt_pos (carriage_return s)) = unat (crt_pos s) - unat (crt_pos s) mod 80"
  by (simp add: carriage_return_def unat_sub_no_borrow unat_mod)

lemma cga_putc_plain:
  assumes "crt_pos s < 2000" and "c AND 0xFF \<noteq> 9"
  shows "same_screen s (cga_putc b c s)"
proof -
  have p: "unat (crt_pos s) < 2000" using assms(1) by (simp add: word_less_nat_alt)
  have out: "i \<noteq> x" if "2000 \<le> i" "unat x < 2000" for i x :: u16 using that by (auto simp: word_le_nat_alt)
  let ?c = "if c AND NOT 0xFF = 0 then c OR 0x0700 else c"
  have low: "?c AND 0xFF = c AND 0xFF" using low_byte_attr [of c] by simp
  have "crt_pos (carriage_return s) < 2080" "crt_pos (carriage_return (s\<lparr>crt_pos := crt_pos s + 80\<rparr>)) < 2080"
    using p by (simp_all add: word_less_nat_alt carriage_return_pos unat_add_no_carry)
  moreover have "crt_pos s + 1 < 2080" using p by (simp add: word_less_nat_alt unat_add_no_carry)
  moreover have "crt_pos s < 2080" using p by (simp add: word_less_nat_alt)
  moreover have "unat (crt_pos s - 1) < 2000" if "0 < crt_pos s"
    using p that unat_sub_no_borrow [of 1 "crt_pos s"] by (simp add: word_less_nat_alt)
  moreover from this have "crt_pos s - 1 < 2080" if "0 < crt_pos s" using that by (simp add: word_less_nat_alt)
  ultimately show ?thesis
    using assms(2) p out unfolding cga_putc.simps [of b c s] Let_def low
    by (intro cga_scroll_screen) (auto simp: carriage_return_def)
qed

lemma cons_putc_plain: "crt_pos s < 2000 \<Longrightarrow> c AND 0xFF \<noteq> 9 \<Longrightarrow> same_screen s (cons_putc b c s)"
  using cga_putc_plain [of "s\<lparr>devs := lpt_putc b c (serial_putc b c (devs s))\<rparr>" c b]
  by (simp add: cons_putc.simps same_screen_def)

lemma cons_putc_blank: "same_screen s0 s \<Longrightarrow> same_screen s0 (cons_putc b 32 s)"
  using cons_putc_plain [of s 32 b] same_screen_trans [of s0 s] by (simp add: same_screen_def)

text \<open>C25: the display invariant. Whatever character is sent to the console, the cursor stays within
  the 2000 cells of the screen, nothing behind the last cell of the display memory is written, and the other driver variables are
  unchanged. This includes control characters, tabs and the scrolling at the end of the screen.\<close>

theorem cons_putc_stays_on_screen:
  assumes "crt_pos s < CRT_SIZE"
  shows "crt_pos (cons_putc b c s) < CRT_SIZE \<and> (\<forall>i. CRT_SIZE \<le> i \<longrightarrow> crt_buf (cons_putc b c s) i = crt_buf s i) \<and>
     addr_6845 (cons_putc b c s) = addr_6845 s \<and> crt_base (cons_putc b c s) = crt_base s \<and>
     serial_exists (cons_putc b c s) = serial_exists s \<and> kbd_shift (cons_putc b c s) = kbd_shift s"
proof -
  have p: "crt_pos s < 2000" using assms by simp
  have "same_screen s (cons_putc b c s)"
  proof (cases "c AND 0xFF = 9")
    case True
    let ?s = "s\<lparr>devs := lpt_putc b c (serial_putc b c (devs s))\<rparr>"
    let ?t = "cons_putc b 32 (cons_putc b 32 (cons_putc b 32 (cons_putc b 32 (cons_putc b 32 ?s))))"
    have "same_screen s ?s" using p by (simp add: same_screen_def)
    hence t: "same_screen s ?t" by (intro cons_putc_blank)
    have "(if c AND NOT 0xFF = 0 then c OR 0x0700 else c) AND 0xFF = 9" using low_byte_attr [of c] True by simp
    hence "cons_putc b c s = cga_cursor b (cga_scroll ?t)"
      unfolding cons_putc.simps [of b c s] cga_putc.simps [of b c ?s] Let_def by simp
    thus ?thesis using t cga_scroll_screen [of ?t s b] by (auto simp: same_screen_def word_less_nat_alt)
  qed (rule cons_putc_plain [OF p])
  thus ?thesis by (simp add: same_screen_def)
qed

theorem cons_putc_stays_on_screen_witness:
  "crt_pos (cons_putc demo_bus 10 (demo_console [])) < 2000"
  using cons_putc_stays_on_screen [of "demo_console []" demo_bus 10] by (simp add: demo_console_def)

section \<open>Text on the screen\<close>

lemma cons_putc_char:
  assumes "c AND NOT 0xFF = 0" and "c \<notin> {8, 9, 10, 13}" and "crt_pos s < 1999"
  shows "crt_pos (cons_putc b c s) = crt_pos s + 1"
    and "crt_buf (cons_putc b c s) = (crt_buf s)(crt_pos s := ucast (c OR 0x0700))"
proof -
  have "(c AND 0xFF) OR (c AND NOT 0xFF) = c" by (simp flip: bit.conj_disj_distrib)
  hence low: "c AND 0xFF = c" using assms(1) by simp
  hence "(c OR 0x0700) AND 0xFF = c" by (simp add: bit.conj_disj_distrib2)
  moreover have "\<not> CRT_SIZE \<le> crt_pos s + 1"
    using assms(3) by (simp add: word_less_nat_alt word_le_nat_alt unat_add_no_carry)
  ultimately show "crt_pos (cons_putc b c s) = crt_pos s + 1"
    and "crt_buf (cons_putc b c s) = (crt_buf s)(crt_pos s := ucast (c OR 0x0700))"
    using assms(1,2) by (simp_all add: cons_putc.simps cga_putc.simps Let_def cga_cursor_screen cga_scroll_def)
qed

text \<open>text on the screen. Printing characters that are no control characters, as many as fit before the last
  cell, puts them with the default attribute in consecutive cells from the cursor on, moves the cursor behind them and
  changes no other cell.\<close>

theorem cons_putc_text:
  assumes "\<forall>c \<in> set cs. c AND NOT 0xFF = 0 \<and> c \<notin> {8, 9, 10, 13}" and "unat (crt_pos s) + length cs < 2000"
  shows "unat (crt_pos (fold (cons_putc b) cs s)) = unat (crt_pos s) + length cs \<and>
     (\<forall>j. crt_buf (fold (cons_putc b) cs s) j =
        (if unat (crt_pos s) \<le> unat j \<and> unat j < unat (crt_pos s) + length cs
         then ucast (cs ! (unat j - unat (crt_pos s)) OR 0x0700) else crt_buf s j))"
  using assms
proof (induction cs arbitrary: s)
  case (Cons c cs)
  have "crt_pos s < 1999" using Cons.prems(2) by (simp add: word_less_nat_alt)
  note c = cons_putc_char [OF _ _ this, of c b]
  let ?s = "cons_putc b c s"
  have s: "crt_pos ?s = crt_pos s + 1" "crt_buf ?s = (crt_buf s)(crt_pos s := ucast (c OR 0x0700))"
    using c Cons.prems(1) by simp_all
  have u: "unat (crt_pos ?s) = unat (crt_pos s) + 1" unfolding s using Cons.prems(2) by (simp add: unat_add_no_carry)
  note IH = Cons.IH [of ?s]
  have j: "j = crt_pos s \<longleftrightarrow> unat j = unat (crt_pos s)" for j using word_unat_eq_iff by blast
  show ?case
    using IH Cons.prems u by (auto simp: s(2) j nth_Cons' Suc_le_eq)
qed auto

theorem cons_putc_text_witness:
  "crt_buf (fold (cons_putc demo_bus) [65] (demo_console [])) 1998 = 0x0741"
  using cons_putc_text [of "[65]" "demo_console []" demo_bus] by (simp add: demo_console_def)

section \<open>Keys\<close>

lemma list_all_update: "list_all P xs \<Longrightarrow> P v \<Longrightarrow> list_all P (xs[i := v])"
  using set_update_subset_insert [of xs i v] by (auto simp: list_all_iff)

lemma toggle_not_escape: "\<not> bit (togglecode ! unat k) 6" "\<not> bit (shiftcode ! unat k) 6" for k :: u8
proof -
  have "list_all (\<lambda>x. \<not> bit x 6) togglecode"
    unfolding togglecode_def by (intro list_all_update) (simp_all add: list_all_iff)
  moreover have "list_all (\<lambda>x. \<not> bit x 6) shiftcode"
    unfolding shiftcode_def by (intro list_all_update) (simp_all add: list_all_iff)
  moreover have "unat k < 256" using unsigned_less [where 'a=nat, of k] by simp
  ultimately show "\<not> bit (togglecode ! unat k) 6" "\<not> bit (shiftcode ! unat k) 6"
    using table_lengths(4,5) by (auto simp: list_all_length)
qed

lemma and_64_iff: "x AND 64 = 0 \<longleftrightarrow> \<not> bit x 6" for x :: u32
  using and_exp_eq_0_iff_not_bit [of x 6] by simp

lemma make_code:
  assumes "k < (0x80 :: u8)"
  shows "k \<noteq> 0xE0" "k AND 0x80 = 0" "(k OR 0x80) AND 0x7F = k" "k OR 0x80 = 0xE0 \<longleftrightarrow> k = 0x60" "(k OR 0x80) AND 0x80 \<noteq> 0"
proof -
  have "take_bit 7 k = k" using assms
    by (simp add: word_less_nat_alt word_unat_eq_iff unsigned_take_bit_eq take_bit_nat_eq_self)
  hence b: "k AND 0x7F = k" by (simp add: take_bit_eq_mask mask_eq_exp_minus_1)
  show "k AND 0x80 = 0" by (subst b [symmetric]) (simp add: and.assoc)
  thus "(k OR 0x80) AND 0x80 \<noteq> 0" by (simp add: bit.conj_disj_distrib2)
  show m: "(k OR 0x80) AND 0x7F = k" using b by (simp add: bit.conj_disj_distrib2)
  show "k \<noteq> 0xE0" using assms by auto
  show "k OR 0x80 = 0xE0 \<longleftrightarrow> k = 0x60"
  proof
    assume "k OR 0x80 = 0xE0"
    thus "k = 0x60" using m by simp
  qed simp
qed

text \<open>pressing and releasing a key without an escape prefix clears the modifier that belongs to the key, switches the
  lock that belongs to the key, and leaves every other modifier and lock as it was; so
  an ordinary key does not change them.\<close>

theorem kbd_press_release:
  assumes "k < 0x80" and "k \<noteq> 0x60" and "sh AND E0ESC = 0" and "kbd_decode sh k = (c, sh')"
  shows "kbd_decode sh' (k OR 0x80) = (0, (sh XOR ucast (togglecode ! unat k)) AND NOT (ucast (shiftcode ! unat k)))"
proof -
  note k = make_code [OF assms(1)] toggle_not_escape [of k]
  have sh: "\<not> bit sh 6" using assms(3) by (simp add: and_64_iff)
  have sh': "sh' = (sh OR ucast (shiftcode ! unat k)) XOR ucast (togglecode ! unat k)"
    using assms(4) k(1,2) sh by (simp add: kbd_decode_def Let_def and_64_iff)
  hence "sh' AND E0ESC = 0" using sh k by (simp add: and_64_iff bit_simps)
  hence "kbd_decode sh' (k OR 0x80) = (0, sh' AND NOT (ucast (shiftcode ! unat k) OR 64))"
    using k assms(2) by (simp add: kbd_decode_def Let_def)
  moreover have "sh' AND NOT (ucast (shiftcode ! unat k) OR 64) =
      (sh XOR ucast (togglecode ! unat k)) AND NOT (ucast (shiftcode ! unat k))"
  proof (rule bit_word_eqI)
    fix n assume n: "n < LENGTH(32)"
    have "bit ((2 :: u32) ^ 6) n \<longleftrightarrow> n = 6" unfolding bit_exp_iff using n by auto
    hence "bit (64 :: u32) n \<longleftrightarrow> n = 6" by simp
    thus "bit (sh' AND NOT (ucast (shiftcode ! unat k) OR 64)) n =
        bit ((sh XOR ucast (togglecode ! unat k)) AND NOT (ucast (shiftcode ! unat k))) n"
      using n sh k by (auto simp: sh' bit_simps)
  qed
  ultimately show ?thesis by simp
qed

theorem kbd_press_release_witness: "kbd_decode 9 0xAA = (0, 8)"
proof -
  have "kbd_decode 8 0x2A = (0, 9)" by code_simp
  from kbd_press_release [OF _ _ _ this] show ?thesis by (simp add: shiftcode_def togglecode_def)
qed

text \<open>letters. For a key whose normal character is a lower case letter, without control key, the keyboard gives the letter in lower
  case when shift and caps lock are both off or both on, in upper case otherwise, and keeps the modifiers.\<close>

theorem kbd_letters:
  assumes "k < 0x80" and "sh AND (CTL OR E0ESC) = 0" and "97 \<le> normalmap ! unat k" and "normalmap ! unat k \<le> 122"
  shows "kbd_decode sh k = (if (sh AND SHIFT \<noteq> 0) = (sh AND CAPSLOCK \<noteq> 0) then normalmap ! unat k
       else normalmap ! unat k - 32, sh)"
proof -
  have "list_all (\<lambda>k. 97 \<le> normalmap ! k \<and> normalmap ! k \<le> 122 \<longrightarrow>
      shiftmap ! k = normalmap ! k - 32 \<and> shiftcode ! k = 0 \<and> togglecode ! k = 0) [0..<128]"
    by code_simp
  moreover have "unat k \<in> set [0..<128]" using assms(1) by (simp add: word_less_nat_alt)
  ultimately have t: "shiftmap ! unat k = normalmap ! unat k - 32" "shiftcode ! unat k = 0" "togglecode ! unat k = 0"
    using assms(3,4) unfolding list_all_iff by blast+
  have "sh AND (2 OR 64) = (sh AND 2) OR (sh AND 64)" by (rule bit.conj_disj_distrib)
  hence c: "sh AND 2 = 0" "sh AND 64 = 0" using assms(2) by (simp_all add: or_eq_0_iff)
  have "sh AND (1 OR 2) = (sh AND 1) OR (sh AND 2)" by (rule bit.conj_disj_distrib)
  hence i: "sh AND 3 = sh AND 1" using c by simp
  have one: "sh AND 1 = 0 \<or> sh AND 1 = 1" by (cases "even sh") (simp_all add: and_one_eq mod_2_eq_odd)
  define l where "l = normalmap ! unat k"
  have l: "97 \<le> l" "l \<le> 122" using assms(3,4) by (simp_all add: l_def)
  have "unat (l - 32) = unat l - 32" using l unat_sub_no_borrow [of 32 l] by (simp add: word_le_nat_alt)
  hence u: "65 \<le> l - 32" "l - 32 \<le> 90" "\<not> 97 \<le> l - 32" using l by (simp_all add: word_le_nat_alt)
  have "kbd_decode sh k = (let c = charcode ! unat (sh AND 1) ! unat k in
      (if sh AND 8 \<noteq> 0 then if 97 \<le> c \<and> c \<le> 122 then c - 32 else if 65 \<le> c \<and> c \<le> 90 then c + 32 else c else c, sh))"
    using make_code(1,2) [OF assms(1)] c i t(2,3) by (simp add: kbd_decode_def Let_def)
  moreover have "charcode ! 0 ! unat k = l" "charcode ! 1 ! unat k = l - 32" using t(1) by (simp_all add: charcode_def l_def)
  ultimately show ?thesis using l u one unfolding l_def [symmetric] by (elim disjE) (simp_all add: Let_def)
qed

theorem kbd_letters_witness: "kbd_decode 9 0x10 = (113, 9) \<and> kbd_decode 8 0x10 = (81, 8)"
proof -
  have "normalmap ! 16 = 113" by code_simp
  thus ?thesis using kbd_letters [of "0x10" 9] kbd_letters [of "0x10" 8] by simp
qed

text \<open>Control and Home: the control map has no entry for the extended code of Home.\<close>

lemma ctl_home: "fst (kbd_decode (CTL OR E0ESC) 0x47) = 0" "fst (kbd_decode E0ESC 0x47) = KEY_HOME"
  by code_simp+

end
