(* ===== verification/Jos_Trap.thy ===== *)
theory Jos_Trap
  imports Jos_Env Jos_Printfmt Jos_Console
begin

text \<open>
  Traps and system calls: \<open>kern/trap.c\<close>, \<open>kern/syscall.c\<close>, \<open>env_destroy\<close> of \<open>kern/env.c\<close>, and the user side of
  system calls in \<open>lib/syscall.c\<close>, \<open>lib/exit.c\<close> and \<open>lib/console.c\<close>.

  The state of the kernel of \<open>kern/env.c\<close> is extended by the descriptor tables and the task state. What
  is printed is a result of its own: the bytes that \<open>cprintf\<close> sends to the console. After
  \<open>env_destroy\<close> the kernel stays in the monitor: the outcome \<open>Monitor\<close> carries the state it stays in.
\<close>

section \<open>Data\<close>

definition T_DIVIDE :: nat where [simp]: "T_DIVIDE = 0"
definition T_DEBUG :: nat where [simp]: "T_DEBUG = 1"
definition T_NMI :: nat where [simp]: "T_NMI = 2"
definition T_BRKPT :: nat where [simp]: "T_BRKPT = 3"
definition T_OFLOW :: nat where [simp]: "T_OFLOW = 4"
definition T_BOUND :: nat where [simp]: "T_BOUND = 5"
definition T_ILLOP :: nat where [simp]: "T_ILLOP = 6"
definition T_DEVICE :: nat where [simp]: "T_DEVICE = 7"
definition T_DBLFLT :: nat where [simp]: "T_DBLFLT = 8"
definition T_TSS :: nat where [simp]: "T_TSS = 10"
definition T_SEGNP :: nat where [simp]: "T_SEGNP = 11"
definition T_STACK :: nat where [simp]: "T_STACK = 12"
definition T_GPFLT :: nat where [simp]: "T_GPFLT = 13"
definition T_PGFLT :: nat where [simp]: "T_PGFLT = 14"
definition T_FPERR :: nat where [simp]: "T_FPERR = 16"
definition T_ALIGN :: nat where [simp]: "T_ALIGN = 17"
definition T_MCHK :: nat where [simp]: "T_MCHK = 18"
definition T_SIMDERR :: nat where [simp]: "T_SIMDERR = 19"
definition T_SYSCALL :: nat where [simp]: "T_SYSCALL = 48"

definition FL_IF :: u32 where [simp]: "FL_IF = 0x200"

text \<open>\<open>struct Taskstate\<close> and its size.\<close>

record Taskstate =
  ts_link :: u32
  ts_esp0 :: u32
  ts_ss0 :: u16
  ts_padding1 :: u16
  ts_esp1 :: u32
  ts_ss1 :: u16
  ts_padding2 :: u16
  ts_esp2 :: u32
  ts_ss2 :: u16
  ts_padding3 :: u16
  ts_cr3 :: u32
  ts_eip :: u32
  ts_eflags :: u32
  ts_eax :: u32
  ts_ecx :: u32
  ts_edx :: u32
  ts_ebx :: u32
  ts_esp :: u32
  ts_ebp :: u32
  ts_esi :: u32
  ts_edi :: u32
  ts_es :: u16
  ts_padding4 :: u16
  ts_cs :: u16
  ts_padding5 :: u16
  ts_ss :: u16
  ts_padding6 :: u16
  ts_ds :: u16
  ts_padding7 :: u16
  ts_fs :: u16
  ts_padding8 :: u16
  ts_gs :: u16
  ts_padding9 :: u16
  ts_ldt :: u16
  ts_padding10 :: u16
  ts_t :: u16
  ts_iomb :: u16

definition sizeof_Taskstate :: u32 where [simp]: "sizeof_Taskstate = 104"

text \<open>A trap frame is on the kernel stack or in the table of environments.\<close>

datatype tfptr = Stack_tf u32 | Env_tf nat

record tkern =
  ek :: ekern
  idt :: "Gatedesc list"
  ts :: Taskstate
  last_tf :: "tfptr option"
  tr :: u32
  idtr :: "Gatedesc list"

section \<open>Descriptor tables\<close>

definition trapname :: "u32 \<Rightarrow> string" where
  "trapname trapno =
     (let excnames = [''Divide error'', ''Debug'', ''Non-Maskable Interrupt'', ''Breakpoint'', ''Overflow'',
            ''BOUND Range Exceeded'', ''Invalid Opcode'', ''Device Not Available'', ''Double Fault'',
            ''Coprocessor Segment Overrun'', ''Invalid TSS'', ''Segment Not Present'', ''Stack Fault'',
            ''General Protection'', ''Page Fault'', ''(unknown trap)'', ''x87 FPU Floating-Point Error'',
            ''Alignment Check'', ''Machine-Check'', ''SIMD Floating-Point Exception'']
      in if unat trapno < length excnames then excnames ! unat trapno
         else if unat trapno = T_SYSCALL then ''System call''
         else ''(unknown trap)'')"

text \<open>\<open>ts_kva\<close> is the address of \<open>ts\<close>.\<close>

definition trap_init_percpu :: "u32 \<Rightarrow> tkern \<Rightarrow> tkern" where
  "trap_init_percpu ts_kva s =
     (let s = s\<lparr>ts := (ts s)\<lparr>ts_esp0 := KSTACKTOP, ts_ss0 := ucast GD_KD, ts_iomb := ucast sizeof_Taskstate\<rparr>\<rparr>;
          d = (SEG16 STS_T32A ts_kva (sizeof_Taskstate - 1) 0)\<lparr>sd_s := 0\<rparr>;
          s = s\<lparr>ek := (ek s)\<lparr>gdt := (gdt (ek s))[unat (drop_bit 3 GD_TSS0) := d]\<rparr>\<rparr>
      in s\<lparr>tr := GD_TSS0, idtr := idt s\<rparr>)"

text \<open>\<open>handler n\<close> is the address of the entry point for vector \<open>n\<close>.\<close>

definition setgate :: "(nat \<Rightarrow> u32) \<Rightarrow> nat \<times> u32 \<Rightarrow> Gatedesc list \<Rightarrow> Gatedesc list" where
  "setgate handler v t = (case v of (n, dpl) \<Rightarrow> t[n := SETGATE (t ! n) False GD_KT (handler n) dpl])"

definition vectors :: "(nat \<times> u32) list" where
  "vectors = [(T_DIVIDE, 0), (T_DEBUG, 0), (T_NMI, 0), (T_BRKPT, 3), (T_OFLOW, 0), (T_BOUND, 0), (T_ILLOP, 0),
     (T_DEVICE, 0), (T_DBLFLT, 0), (T_TSS, 0), (T_SEGNP, 0), (T_STACK, 0), (T_GPFLT, 0), (T_PGFLT, 0),
     (T_FPERR, 0), (T_ALIGN, 0), (T_MCHK, 0), (T_SIMDERR, 0), (T_SYSCALL, 3)]"

definition trap_init :: "(nat \<Rightarrow> u32) \<Rightarrow> u32 \<Rightarrow> tkern \<Rightarrow> tkern" where
  "trap_init handler ts_kva s =
     trap_init_percpu ts_kva (s\<lparr>idt := fold (setgate handler) vectors (idt s)\<rparr>)"

section \<open>Printing\<close>

text \<open>The texts of the formats, \<open>%08x\<close>, \<open>%04x\<close> and \<open>%p\<close>.\<close>

definition lit :: "string \<Rightarrow> u8 list" where
  "lit str = map byte str"

definition hex :: "int \<Rightarrow> u32 \<Rightarrow> u8 list" where
  "hex w v = map ucast (printnum (\<lambda>c l. l @ [c]) (ucast v) 16 w (ucast (byte (CHR ''0''))) [])"

definition pointer :: "u32 \<Rightarrow> u8 list" where
  "pointer v = lit ''0x'' @ map ucast (printnum (\<lambda>c l. l @ [c]) (ucast v) 16 (-1) 32 [])"

definition nl :: "u8 list" where "nl = [10]"

definition print_regs :: "PushRegs \<Rightarrow> u8 list" where
  "print_regs r =
     lit ''  edi  0x'' @ hex 8 (reg_edi r) @ nl @ lit ''  esi  0x'' @ hex 8 (reg_esi r) @ nl @
     lit ''  ebp  0x'' @ hex 8 (reg_ebp r) @ nl @ lit ''  oesp 0x'' @ hex 8 (reg_oesp r) @ nl @
     lit ''  ebx  0x'' @ hex 8 (reg_ebx r) @ nl @ lit ''  edx  0x'' @ hex 8 (reg_edx r) @ nl @
     lit ''  ecx  0x'' @ hex 8 (reg_ecx r) @ nl @ lit ''  eax  0x'' @ hex 8 (reg_eax r) @ nl"

text \<open>\<open>addr\<close> is the address of the frame, \<open>is_last\<close> the test \<open>tf == last_tf\<close>, \<open>cr2\<close> the register.\<close>

definition print_trapframe :: "u32 \<Rightarrow> bool \<Rightarrow> u32 \<Rightarrow> Trapframe \<Rightarrow> u8 list" where
  "print_trapframe addr is_last cr2 tf =
     lit ''TRAP frame at '' @ pointer addr @ nl @ print_regs (tf_regs tf) @
     lit ''  es   0x----'' @ hex 4 (ucast (tf_es tf)) @ nl @ lit ''  ds   0x----'' @ hex 4 (ucast (tf_ds tf)) @ nl @
     lit ''  trap 0x'' @ hex 8 (tf_trapno tf) @ lit '' '' @ lit (trapname (tf_trapno tf)) @ nl @
     (if is_last \<and> unat (tf_trapno tf) = T_PGFLT then lit ''  cr2  0x'' @ hex 8 cr2 @ nl else []) @
     lit ''  err  0x'' @ hex 8 (tf_err tf) @
     (if unat (tf_trapno tf) = T_PGFLT
      then lit '' ['' @ lit (if tf_err tf AND 4 \<noteq> 0 then ''user'' else ''kernel'') @ lit '', '' @
           lit (if tf_err tf AND 2 \<noteq> 0 then ''write'' else ''read'') @ lit '', '' @
           lit (if tf_err tf AND 1 \<noteq> 0 then ''protection'' else ''not-present'') @ lit '']'' @ nl
      else nl) @
     lit ''  eip  0x'' @ hex 8 (tf_eip tf) @ nl @ lit ''  cs   0x----'' @ hex 4 (ucast (tf_cs tf)) @ nl @
     lit ''  flag 0x'' @ hex 8 (tf_eflags tf) @ nl @
     (if tf_cs tf AND 3 \<noteq> 0
      then lit ''  esp  0x'' @ hex 8 (tf_esp tf) @ nl @ lit ''  ss   0x----'' @ hex 4 (ucast (tf_ss tf)) @ nl
      else [])"

section \<open>Handling a trap\<close>

datatype outcome = Monitor tkern | Returned tkern | Resumed Trapframe tkern

definition env_destroy :: "nat \<Rightarrow> tkern \<Rightarrow> kerr + outcome" where
  "env_destroy e s = res_bind (env_free e (ek s)) (\<lambda>k. Inr (Monitor (s\<lparr>ek := k\<rparr>)))"

definition frame :: "Trapframe \<Rightarrow> tfptr \<Rightarrow> tkern \<Rightarrow> Trapframe" where
  "frame stk p s = (case p of Stack_tf a \<Rightarrow> stk | Env_tf e \<Rightarrow> env_tf (envs (ek s) ! e))"

definition trap_dispatch :: "Trapframe \<Rightarrow> tfptr \<Rightarrow> tkern \<Rightarrow> kerr + outcome" where
  "trap_dispatch stk p s =
     (if tf_cs (frame stk p s) = ucast GD_KT then Inl (Panic ''unhandled trap in kernel'')
      else (case curenv (ek s) of None \<Rightarrow> Inl (Page_fault 72) | Some e \<Rightarrow> env_destroy e s))"

text \<open>\<open>stk\<close> is the frame at \<open>addr\<close> on the kernel stack, \<open>eflags\<close> the flags register.\<close>

definition trap :: "u32 \<Rightarrow> u32 \<Rightarrow> Trapframe \<Rightarrow> tkern \<Rightarrow> kerr + outcome" where
  "trap eflags addr stk s =
     (if eflags AND FL_IF \<noteq> 0 then Inl (Panic ''assertion failed: !(read_eflags() & FL_IF)'')
      else
        res_bind (if tf_cs stk AND 3 = 3 then
                    (case curenv (ek s) of
                       None \<Rightarrow> Inl (Panic ''assertion failed: curenv'')
                     | Some e \<Rightarrow>
                         if e < length (envs (ek s))
                         then Inr (Env_tf e, s\<lparr>ek := upd_env e (\<lambda>v. v\<lparr>env_tf := stk\<rparr>) (ek s)\<rparr>)
                         else Inl (Wild e))
                  else Inr (Stack_tf addr, s)) (\<lambda>(tf, s).
        res_bind (trap_dispatch stk tf (s\<lparr>last_tf := Some tf\<rparr>)) (\<lambda>r.
          case r of
            Returned s \<Rightarrow>
              (case curenv (ek s) of
                 None \<Rightarrow> Inl (Panic ''assertion failed: curenv && curenv->env_status == ENV_RUNNING'')
               | Some e \<Rightarrow>
                   if env_status (envs (ek s) ! e) = ENV_RUNNING
                   then res_bind (env_run e (ek s)) (\<lambda>(tf, k). Inr (Resumed tf (s\<lparr>ek := k\<rparr>)))
                   else Inl (Panic ''assertion failed: curenv && curenv->env_status == ENV_RUNNING''))
          | _ \<Rightarrow> Inr r)))"

definition page_fault_handler :: "tkern \<Rightarrow> kerr + outcome" where
  "page_fault_handler s = (case curenv (ek s) of None \<Rightarrow> Inl (Page_fault 72) | Some e \<Rightarrow> env_destroy e s)"

section \<open>System calls in the kernel\<close>

text \<open>\<open>cprintf("%.*s", len, s)\<close>: a string conversion with precision \<open>len\<close> and width 0.\<close>

definition sys_cputs :: "mem \<Rightarrow> u32 \<Rightarrow> u32 \<Rightarrow> u32 list \<Rightarrow> u32 list option" where
  "sys_cputs m s len out = put_string (\<lambda>c l. l @ [c]) m s (byte (CHR '' '')) 0 (sint len) False out"

definition sys_cgetc :: "'d bus \<Rightarrow> 'd console \<Rightarrow> consbuf \<Rightarrow> (int \<times> 'd console \<times> consbuf) option" where
  "sys_cgetc b c q = cons_getc b c q"

definition sys_getenvid :: "tkern \<Rightarrow> kerr + u32" where
  "sys_getenvid s = (case curenv (ek s) of None \<Rightarrow> Inl (Page_fault 72) | Some e \<Rightarrow> Inr (env_id (envs (ek s) ! e)))"

text \<open>The result is the return value, when the call returns, or the outcome of \<open>env_destroy\<close>.\<close>

definition sys_env_destroy :: "u32 \<Rightarrow> tkern \<Rightarrow> kerr + (int + outcome)" where
  "sys_env_destroy envid s =
     res_bind (envid2env envid True (ek s)) (\<lambda>(r, e).
       if r < 0 then Inr (Inl r)
       else (case e of
           None \<Rightarrow> Inl (Page_fault 72)
         | Some e \<Rightarrow> res_bind (env_destroy e s) (\<lambda>out. Inr (Inr out))))"

definition syscall :: "u32 \<Rightarrow> u32 \<Rightarrow> u32 \<Rightarrow> u32 \<Rightarrow> u32 \<Rightarrow> u32 \<Rightarrow> kerr + int" where
  "syscall syscallno a1 a2 a3 a4 a5 = Inl (Panic ''syscall not implemented'')"

section \<open>System calls in the user library\<close>

definition SYS_cputs :: u32 where [simp]: "SYS_cputs = 0"
definition SYS_cgetc :: u32 where [simp]: "SYS_cgetc = 1"
definition SYS_getenvid :: u32 where [simp]: "SYS_getenvid = 2"
definition SYS_env_destroy :: u32 where [simp]: "SYS_env_destroy = 3"

text \<open>\<open>kentry\<close> is the effect of the software interrupt with the registers \<open>eax\<close>, \<open>edx\<close>, \<open>ecx\<close>, \<open>ebx\<close>, \<open>edi\<close>,
  \<open>esi\<close> on the rest of the machine: the new \<open>eax\<close>, or no return. A panic of the library ends the program.\<close>

type_synonym 'w kernel_entry = "u32 list \<Rightarrow> 'w \<Rightarrow> (u32 \<times> 'w) option"

definition user_syscall :: "'w kernel_entry \<Rightarrow> u32 \<Rightarrow> bool \<Rightarrow> u32 list \<Rightarrow> 'w \<Rightarrow> (string + u32 \<times> 'w) option" where
  "user_syscall kentry num check args w =
     (case kentry (num # args) w of
        None \<Rightarrow> None
      | Some (ret, w) \<Rightarrow> if check \<and> 0 <s ret then Some (Inl ''syscall returned (> 0)'') else Some (Inr (ret, w)))"

definition user_sys_cputs :: "'w kernel_entry \<Rightarrow> u32 \<Rightarrow> u32 \<Rightarrow> 'w \<Rightarrow> (string + u32 \<times> 'w) option" where
  "user_sys_cputs kentry s len w = user_syscall kentry SYS_cputs False [s, len, 0, 0, 0] w"

definition user_sys_cgetc :: "'w kernel_entry \<Rightarrow> 'w \<Rightarrow> (string + u32 \<times> 'w) option" where
  "user_sys_cgetc kentry w = user_syscall kentry SYS_cgetc False [0, 0, 0, 0, 0] w"

definition user_sys_env_destroy :: "'w kernel_entry \<Rightarrow> u32 \<Rightarrow> 'w \<Rightarrow> (string + u32 \<times> 'w) option" where
  "user_sys_env_destroy kentry envid w = user_syscall kentry SYS_env_destroy True [envid, 0, 0, 0, 0] w"

definition user_sys_getenvid :: "'w kernel_entry \<Rightarrow> 'w \<Rightarrow> (string + u32 \<times> 'w) option" where
  "user_sys_getenvid kentry w = user_syscall kentry SYS_getenvid False [0, 0, 0, 0, 0] w"

definition user_exit :: "'w kernel_entry \<Rightarrow> 'w \<Rightarrow> (string + u32 \<times> 'w) option" where
  "user_exit kentry w = user_sys_env_destroy kentry 0 w"

partial_function (option) user_getchar :: "'w kernel_entry \<Rightarrow> 'w \<Rightarrow> (string + u32 \<times> 'w) option" where
  "user_getchar kentry w =
     (case user_sys_cgetc kentry w of
        None \<Rightarrow> None
      | Some (Inl e) \<Rightarrow> Some (Inl e)
      | Some (Inr (r, w)) \<Rightarrow> if r = 0 then user_getchar kentry w else Some (Inr (r, w)))"

section \<open>Lemmas\<close>

lemma fold_setgate:
  "length t = 256 \<Longrightarrow> distinct (map fst vs) \<Longrightarrow> \<forall>v \<in> set vs. fst v < 256 \<Longrightarrow> n < 256 \<Longrightarrow>
   fold (setgate handler) vs t ! n =
     (case map_of vs n of None \<Rightarrow> t ! n | Some dpl \<Rightarrow> SETGATE (t ! n) False GD_KT (handler n) dpl)"
proof (induction vs arbitrary: t)
  case (Cons v vs)
  obtain k dpl where v: "v = (k, dpl)" by (cases v)
  have "length (setgate handler v t) = 256" using Cons.prems(1) by (simp add: setgate_def v)
  hence "fold (setgate handler) vs (setgate handler v t) ! n =
      (case map_of vs n of None \<Rightarrow> setgate handler v t ! n
       | Some dpl \<Rightarrow> SETGATE (setgate handler v t ! n) False GD_KT (handler n) dpl)"
    using Cons.prems by (intro Cons.IH) auto
  moreover have "map_of vs k = None" using Cons.prems(2) v by (auto simp: map_of_eq_None_iff)
  moreover have "setgate handler v t ! n = (if n = k then SETGATE (t ! n) False GD_KT (handler n) dpl else t ! n)"
    using Cons.prems(1,4) v by (simp add: setgate_def)
  ultimately show ?case using v by (auto split: option.split)
qed simp

lemma hex_length: "length (hex 8 v) = 8"
proof -
  have "unat v < 16 ^ Suc 7" using unat_lt_2p32 [of v] by simp
  hence "length (digits_of 16 (unat v)) \<le> 8" using digits_of_length [of 16 "unat v" 7] by simp
  moreover have "unat (ucast v :: u64) = unat v"
    using less_trans [OF unat_lt_2p32 [of v], of "2 ^ 64"] by (simp add: unsigned_ucast_eq take_bit_nat_eq_self)
  ultimately show ?thesis by (simp add: hex_def printnum_emits)
qed

lemma save_frame_wf:
  assumes "env_wf k efl" and "e < length (envs k)"
  shows "env_wf (upd_env e (\<lambda>v. v\<lparr>env_tf := stk\<rparr>) k) efl"
proof -
  have nth: "env_status (envs (upd_env e (\<lambda>v. v\<lparr>env_tf := stk\<rparr>) k) ! j) = env_status (envs k ! j)"
    "env_id (envs (upd_env e (\<lambda>v. v\<lparr>env_tf := stk\<rparr>) k) ! j) = env_id (envs k ! j)"
    "env_link (envs (upd_env e (\<lambda>v. v\<lparr>env_tf := stk\<rparr>) k) ! j) = env_link (envs k ! j)" for j
    using assms(2) by (auto simp: upd_env_def nth_list_update)
  show ?thesis using assms(1) unfolding env_wf_def nth upd_env_simps .
qed

section \<open>Properties\<close>


definition demo_tkern :: "ekern \<Rightarrow> tkern" where
  "demo_tkern k = \<lparr>ek = k, idt = replicate 256 (SETGATE \<lparr>gd_off_15_0 = 0, gd_sel = 0, gd_args = 0, gd_rsv1 = 0, gd_type = 0,
      gd_s = 0, gd_dpl = 0, gd_p = 0, gd_off_31_16 = 0\<rparr> False 0 0 0), ts = \<lparr>ts_link = 0, ts_esp0 = 0, ts_ss0 = 0, ts_padding1 = 0, ts_esp1 = 0, ts_ss1 = 0, ts_padding2 = 0,
       ts_esp2 = 0, ts_ss2 = 0, ts_padding3 = 0, ts_cr3 = 0, ts_eip = 0, ts_eflags = 0, ts_eax = 0, ts_ecx = 0,
       ts_edx = 0, ts_ebx = 0, ts_esp = 0, ts_ebp = 0, ts_esi = 0, ts_edi = 0, ts_es = 0, ts_padding4 = 0, ts_cs = 0,
       ts_padding5 = 0, ts_ss = 0, ts_padding6 = 0, ts_ds = 0, ts_padding7 = 0, ts_fs = 0, ts_padding8 = 0, ts_gs =
       0, ts_padding9 = 0, ts_ldt = 0, ts_padding10 = 0, ts_t = 0, ts_iomb = 0\<rparr>,
     last_tf = None, tr = 0, idtr = []\<rparr>"


lemma trap_user:
  assumes "eflags AND FL_IF = 0" and "env_wf (ek s) efl" and "curenv (ek s) = Some e" and "e \<notin> set efl"
    and "env_pgdir (envs (ek s) ! e) = page_kva d" and "frees (krn (ek s)) fl" and "aspace (krn (ek s)) d"
    and "kern_pgdir (krn (ek s)) = page_kva kd" and "kd < 0x10000" and cs: "tf_cs stk AND 3 = 3"
  obtains s' fl' where "trap eflags addr stk s = Inr (Monitor s')" "last_tf s' = Some (Env_tf e)" "env_wf (ek s') (e # efl)"
    "env_status (envs (ek s') ! e) = ENV_FREE" "frees (krn (ek s')) fl'"
    "\<And>q. unat (ref_of (krn (ek s')) q) + (nmaps (krn (ek s)) d q + ntabs (krn (ek s)) d q + (if q = d then 1 else 0)) =
       unat (ref_of (krn (ek s)) q)"
    "\<And>j. j < NENV \<Longrightarrow> j \<noteq> e \<Longrightarrow> envs (ek s') ! j = envs (ek s) ! j"
proof -
  have e: "e < 1024" "e < length (envs (ek s))" using env_wfD(1,8) [OF assms(2)] assms(3) by auto
  let ?k = "upd_env e (\<lambda>v. v\<lparr>env_tf := stk\<rparr>) (ek s)"
  have nth: "envs ?k ! j = (if j = e then (envs (ek s) ! e)\<lparr>env_tf := stk\<rparr> else envs (ek s) ! j)" for j
    using e(2) by (simp add: upd_env_def nth_list_update)
  have "env_wf ?k efl" using save_frame_wf [OF assms(2) e(2)] .
  moreover have "env_pgdir (envs ?k ! e) = page_kva d" using assms(5) nth by simp
  ultimately obtain k fl' where k: "env_free e ?k = Inr k" "env_wf k (e # efl)" "frees (krn k) fl'"
    "\<And>q. unat (ref_of (krn k) q) + (nmaps (krn (ek s)) d q + ntabs (krn (ek s)) d q + (if q = d then 1 else 0)) = unat (ref_of (krn (ek s)) q)"
    "\<And>j. j < 1024 \<Longrightarrow> j \<noteq> e \<Longrightarrow> envs k ! j = envs ?k ! j" "env_status (envs k ! e) = ENV_FREE"
    by (rule env_free_ok [OF _ e(1) assms(4) _ _ _ _ assms(9)]) (use assms in simp_all)
  have "tf_cs stk \<noteq> 8" using cs by auto
  hence "trap eflags addr stk s = Inr (Monitor (s\<lparr>ek := k, last_tf := Some (Env_tf e)\<rparr>))"
    using k(1) e(2) assms(1,3) cs nth by (simp add: trap_def trap_dispatch_def frame_def env_destroy_def)
  thus thesis by (rule that) (use k(2-6) nth in \<open>simp_all del: NENV_def add: NENV_1024\<close>)
qed


lemma aspace_tlb: "aspace (k\<lparr>tlb := t\<rparr>) d = aspace k d"
  using kmem_cong [of "k\<lparr>tlb := t\<rparr>" k] by (simp add: aspace_def ref_of_def)


text \<open>C32: \<open>sys_env_destroy\<close> only destroys what the caller may destroy. For an identifier other than 0, it
  destroys an environment exactly when that environment has the identifier, is not free, and is the caller or a
  child of the caller; otherwise it returns \<open>-E_BAD_ENV\<close>. The identifier 0 stands for the caller.\<close>

theorem sys_env_destroy_permission:
  assumes "env_wf (ek s) efl" and "curenv (ek s) = Some c"
  shows "sys_env_destroy 0 s = res_bind (env_destroy c s) (\<lambda>out. Inr (Inr out)) \<and>
     (envid \<noteq> 0 \<longrightarrow>
       (if \<exists>e. env_accessible (ek s) envid True e
        then \<exists>e. env_accessible (ek s) envid True e \<and> sys_env_destroy envid s = res_bind (env_destroy e s) (\<lambda>out. Inr (Inr out))
        else sys_env_destroy envid s = Inr (Inl (- E_BAD_ENV))))"
proof -
  let ?e = "unat (ENVX envid)"
  have "sys_env_destroy 0 s = res_bind (env_destroy c s) (\<lambda>out. Inr (Inr out))"
    using assms(2) by (simp add: sys_env_destroy_def envid2env_def)
  moreover have "if \<exists>e. env_accessible (ek s) envid True e
      then \<exists>e. env_accessible (ek s) envid True e \<and> sys_env_destroy envid s = res_bind (env_destroy e s) (\<lambda>out. Inr (Inr out))
      else sys_env_destroy envid s = Inr (Inl (- E_BAD_ENV))" if nz: "envid \<noteq> 0"
  proof -
    note eq = envid2env_accessible(1) [OF assms(1) nz assms(2), of True] and u = envid2env_accessible(2) [OF assms(1) nz assms(2)]
    show ?thesis
    proof (cases "env_accessible (ek s) envid True ?e")
      case True
      thus ?thesis using eq by (auto simp: sys_env_destroy_def)
    next
      case False
      hence "\<not> env_accessible (ek s) envid True e" for e using u by metis
      thus ?thesis using eq by (simp add: sys_env_destroy_def)
    qed
  qed
  ultimately show ?thesis by blast
qed

theorem sys_env_destroy_permission_witness:
  "\<exists>s. sys_env_destroy 0 s = res_bind (env_destroy 0 s) (\<lambda>out. Inr (Inr out))"
proof (rule demo_env_alloc)
  fix k assume k: "env_wf k [1..<1024]" "env_pgdir (envs k ! 0) = page_kva 3"
  have pa: "PADDR (env_pgdir (envs k ! 0)) = Inr (page2pa 3)" using k(2) PADDR_page_kva [of 3] by simp
  show ?thesis
  proof (rule env_run_wf [OF k(1) _ _ pa])
    fix k' assume "env_wf k' [1..<1024]" "curenv k' = Some 0"
    thus ?thesis using sys_env_destroy_permission [of "demo_tkern k'" "[1..<1024]" 0] by (auto simp: demo_tkern_def)
  qed simp_all
qed

end
