(* ===== verification/Jos_Monitor.thy ===== *)
theory Jos_Monitor
  imports Jos_Kdebug Jos_Trap
begin

text \<open>
  The kernel monitor: \<open>kern/monitor.c\<close> and \<open>lib/readline.c\<close>, which is linked into the kernel and into user
  programs and so has \<open>getchar\<close> and \<open>cputchar\<close> as parameters.
\<close>

section \<open>readline\<close>

definition BUFLEN :: nat where [simp]: "BUFLEN = 1024"

text \<open>
  \<open>buf\<close> is the address of the static buffer in the memory \<open>m\<close>, \<open>s\<close> the state of the terminal, which
  \<open>getc\<close> reads from and \<open>putc\<close> writes to. The result holds the returned pointer, 0 for NULL.
\<close>

definition read_error :: "(u32 \<Rightarrow> 's \<Rightarrow> 's) \<Rightarrow> int \<Rightarrow> 's \<Rightarrow> 's option" where
  "read_error putc c s =
     map_option (putc 10) (put_error putc (word_of_int c) (fold putc (map (ucast \<circ> byte) ''read error: '') s))"

partial_function (option) readline_loop ::
  "('s \<Rightarrow> (int \<times> 's) option) \<Rightarrow> (u32 \<Rightarrow> 's \<Rightarrow> 's) \<Rightarrow> bool \<Rightarrow> u32 \<Rightarrow> nat \<Rightarrow> mem \<Rightarrow> 's \<Rightarrow> (u32 \<times> mem \<times> 's) option" where
  "readline_loop getc putc echoing buf i m s =
     (case getc s of
        None \<Rightarrow> None
      | Some (c, s) \<Rightarrow>
          if c < 0 then map_option (\<lambda>s. (0, m, s)) (read_error putc c s)
          else if (c = 8 \<or> c = 0x7f) \<and> i > 0 then
            readline_loop getc putc echoing buf (i - 1) m (if echoing then putc 8 s else s)
          else if c \<ge> 32 \<and> i < BUFLEN - 1 then
            readline_loop getc putc echoing buf (i + 1) (m(buf + of_nat i := word_of_int c))
              (if echoing then putc (word_of_int c) s else s)
          else if c = 10 \<or> c = 13 then
            Some (buf, m(buf + of_nat i := 0), if echoing then putc 10 s else s)
          else readline_loop getc putc echoing buf i m s)"

definition readline ::
  "('s \<Rightarrow> (int \<times> 's) option) \<Rightarrow> (u32 \<Rightarrow> 's \<Rightarrow> 's) \<Rightarrow> u32 \<Rightarrow> string \<Rightarrow> mem \<Rightarrow> 's \<Rightarrow> (u32 \<times> mem \<times> 's) option" where
  "readline getc putc buf prompt m s =
     readline_loop getc putc (iscons 0 \<noteq> 0) buf 0 m (fold putc (map (ucast \<circ> byte) prompt) s)"

text \<open>In the kernel, with the console of \<open>kern/console.c\<close>.\<close>

definition kern_readline ::
  "'d bus \<Rightarrow> u32 \<Rightarrow> string \<Rightarrow> mem \<Rightarrow> 'd console \<times> consbuf \<Rightarrow> (u32 \<times> mem \<times> 'd console \<times> consbuf) option" where
  "kern_readline b buf prompt m t =
     readline (\<lambda>(s, q). getchar b s q) (\<lambda>c (s, q). (cputchar b c s, q)) buf prompt m t"

section \<open>Commands\<close>

definition MAXARGS :: nat where [simp]: "MAXARGS = 16"

definition is_white :: "u8 \<Rightarrow> bool" where
  "is_white c \<longleftrightarrow> c \<in> {9, 13, 10, 32}"

partial_function (option) gobble :: "mem \<Rightarrow> u32 \<Rightarrow> (mem \<times> u32) option" where
  "gobble m buf = (if m buf \<noteq> 0 \<and> is_white (m buf) then gobble (m(buf := 0)) (buf + 1) else Some (m, buf))"

partial_function (option) scan_arg :: "mem \<Rightarrow> u32 \<Rightarrow> u32 option" where
  "scan_arg m buf = (if m buf \<noteq> 0 \<and> \<not> is_white (m buf) then scan_arg m (buf + 1) else Some buf)"

text \<open>The arguments found, or \<open>None\<close> when there are too many.\<close>

partial_function (option) parse_args :: "mem \<Rightarrow> u32 \<Rightarrow> u32 list \<Rightarrow> (mem \<times> u32 list option) option" where
  "parse_args m buf argv =
     (case gobble m buf of
        None \<Rightarrow> None
      | Some (m, buf) \<Rightarrow>
          if m buf = 0 then Some (m, Some argv)
          else if length argv = MAXARGS - 1 then Some (m, None)
          else (case scan_arg m buf of
              None \<Rightarrow> None
            | Some buf' \<Rightarrow> parse_args m buf' (argv @ [buf])))"

datatype command = Help | Kerninfo | Backtrace

definition commands :: "(string \<times> string \<times> command) list" where
  "commands = [(''help'', ''Display this list of commands'', Help),
     (''kerninfo'', ''Display information about the kernel'', Kerninfo),
     (''backtrace'', ''print information for each stack frame'', Backtrace)]"

definition mon_help :: "u8 list" where
  "mon_help = concat (map (\<lambda>(name, desc, f). lit name @ lit '' - '' @ lit desc @ nl) commands)"

definition decimal :: "u32 \<Rightarrow> u8 list" where
  "decimal v = map ucast (put_signed (\<lambda>c l. l @ [c]) (scast v) (-1) (byte (CHR '' '')) [])"

text \<open>The addresses are those of the linker symbols. Their difference is a signed number.\<close>

definition mon_kerninfo :: "u32 \<Rightarrow> u32 \<Rightarrow> u32 \<Rightarrow> u32 \<Rightarrow> u32 \<Rightarrow> u8 list" where
  "mon_kerninfo start kentry etext edata kend =
     (let line = (\<lambda>name a. lit ''  '' @ lit name @ lit ''  '' @ hex 8 a @ lit '' (virt)  '' @ hex 8 (a - KERNBASE) @ lit '' (phys)'' @ nl)
      in lit ''Special kernel symbols:'' @ nl @
         lit ''  _start                  '' @ hex 8 start @ lit '' (phys)'' @ nl @
         line ''entry'' kentry @ line ''etext'' etext @ line ''edata'' edata @ line ''end  '' kend @
         lit ''Kernel executable memory footprint: '' @ decimal (let n = ROUNDUP (kend - kentry) 1024 in if n <s 0 then - (- n div 1024) else n div 1024) @ lit ''KB'' @ nl)"

text \<open>What \<open>mon_backtrace\<close> prints for a frame: \<open>ebp\<close>, \<open>eip\<close>, five arguments, and what is known about \<open>eip\<close>.\<close>

record frame_info =
  fr_ebp :: u32
  fr_eip :: u32
  fr_args :: "u32 list"
  fr_info :: Eipdebuginfo
  fr_offset :: u32

definition frame_at :: "mem \<Rightarrow> UserStabData \<Rightarrow> u32 \<Rightarrow> frame_info option" where
  "frame_at m ksd ebp =
     (let eip = ld32 m (ebp + 4) in
      case debuginfo_eip m ksd eip of
        None \<Rightarrow> None
      | Some (r, info) \<Rightarrow>
          Some \<lparr>fr_ebp = ebp, fr_eip = eip, fr_args = map (\<lambda>i. ld32 m (ebp + 8 + 4 * of_nat i)) [0..<5],
            fr_info = info, fr_offset = (eip - eip_fn_addr info) div 8\<rparr>)"

partial_function (option) mon_backtrace :: "mem \<Rightarrow> UserStabData \<Rightarrow> u32 \<Rightarrow> frame_info list option" where
  "mon_backtrace m ksd ebp =
     (if ebp = 0 then Some []
      else (case frame_at m ksd ebp of
          None \<Rightarrow> None
        | Some f \<Rightarrow>
            Option.bind (mon_backtrace m ksd (ld32 m ebp)) (\<lambda>fs. Some (f # fs))))"

text \<open>\<open>strcmp (argv[0], name) = 0\<close> for a constant name: the bytes of the name and a NUL.\<close>

datatype action = Nothing | Too_many | Unknown u32 | Run command "u32 list"

definition lookup_command :: "mem \<Rightarrow> u32 \<Rightarrow> command option" where
  "lookup_command m a =
     map_option (\<lambda>(name, desc, f). f) (List.find (\<lambda>(name, desc, f). bytes_at m a (lit name @ [0])) commands)"

definition runcmd :: "mem \<Rightarrow> u32 \<Rightarrow> (mem \<times> action) option" where
  "runcmd m buf =
     (case parse_args m buf [] of
        None \<Rightarrow> None
      | Some (m, None) \<Rightarrow> Some (m, Too_many)
      | Some (m, Some argv) \<Rightarrow>
          Some (m, case argv of
             [] \<Rightarrow> Nothing
           | a # rest \<Rightarrow> (case lookup_command m a of None \<Rightarrow> Unknown a | Some f \<Rightarrow> Run f argv)))"

text \<open>One turn of the loop in \<open>monitor\<close>. No command returns a negative number, so the loop never ends.\<close>

definition monitor_turn ::
  "('s \<Rightarrow> (int \<times> 's) option) \<Rightarrow> (u32 \<Rightarrow> 's \<Rightarrow> 's) \<Rightarrow> u32 \<Rightarrow> mem \<Rightarrow> 's \<Rightarrow> (action \<times> mem \<times> 's) option" where
  "monitor_turn getc putc buf m s =
     (case readline getc putc buf ''K> '' m s of
        None \<Rightarrow> None
      | Some (p, m, s) \<Rightarrow>
          if p \<noteq> 0 then map_option (\<lambda>(m, a). (a, m, s)) (runcmd m p) else Some (Nothing, m, s))"

section \<open>Reading a line\<close>

text \<open>
  The line editor without a buffer: the line typed so far and the keys still to come. Rubbing out
  takes the last character away; on an empty line the key is no command, and so Delete is a character
  like the others.
\<close>

fun edit :: "u8 list \<Rightarrow> int list \<Rightarrow> (u8 list \<times> int list) option" where
  "edit line [] = None"
| "edit line (c # cs) =
     (if (c = 8 \<or> c = 0x7f) \<and> line \<noteq> [] then edit (butlast line) cs
      else if c \<ge> 32 \<and> length line < 1023 then edit (line @ [word_of_int c]) cs
      else if c = 10 \<or> c = 13 then Some (line, cs)
      else edit line cs)"

text \<open>What the editor echoes.\<close>

fun echo :: "u8 list \<Rightarrow> int list \<Rightarrow> u32 list" where
  "echo line [] = []"
| "echo line (c # cs) =
     (if (c = 8 \<or> c = 0x7f) \<and> line \<noteq> [] then 8 # echo (butlast line) cs
      else if c \<ge> 32 \<and> length line < 1023 then word_of_int c # echo (line @ [word_of_int c]) cs
      else if c = 10 \<or> c = 13 then [10]
      else echo line cs)"

text \<open>A terminal with a list of keys to come and a list of characters shown.\<close>

type_synonym tty = "int list \<times> u32 list"

fun tty_getc :: "tty \<Rightarrow> (int \<times> tty) option" where
  "tty_getc ([], out) = None"
| "tty_getc (c # cs, out) = Some (c, cs, out)"

definition tty_putc :: "u32 \<Rightarrow> tty \<Rightarrow> tty" where
  "tty_putc c t = (fst t, snd t @ [c])"

lemma bytes_at_upd: "bytes_at m s xs \<Longrightarrow> length xs < 2 ^ 32 \<Longrightarrow> bytes_at (m(s + of_nat (length xs) := c)) s (xs @ [c])"
proof (rule bytes_atI)
  fix i assume h: "bytes_at m s xs" "length xs < 2 ^ 32" "i < length (xs @ [c])"
  show "(m(s + of_nat (length xs) := c)) (s + of_nat i) = (xs @ [c]) ! i"
  proof (cases "i = length xs")
    case False
    hence "i < length xs" using h(3) by simp
    hence "unat (of_nat i :: u32) \<noteq> unat (of_nat (length xs) :: u32)" using h(2) by (simp add: unat_of_nat_small)
    hence "s + of_nat i \<noteq> s + (of_nat (length xs) :: u32)" by auto
    thus ?thesis using bytes_at_nth [OF h(1) \<open>i < length xs\<close>] \<open>i < length xs\<close> by (simp add: nth_append)
  qed simp
qed

lemma readline_loop_edit:
  assumes "bytes_at m buf line" and "0 \<notin> set line" and "length line \<le> 1023"
    and "\<forall>c \<in> set keys. 0 \<le> c \<and> c < 256" and "edit line keys = Some (res, rest)"
  shows "\<exists>m'. readline_loop tty_getc tty_putc True buf (length line) m (keys, out) = Some (buf, m', rest, out @ echo line keys) \<and>
     cstr m' buf res \<and> length res \<le> 1023 \<and> (\<forall>a. 1024 \<le> unat (a - buf) \<longrightarrow> m' a = m a)"
  using assms
proof (induction line keys arbitrary: m out rule: edit.induct)
  case (2 line c cs)
  have c: "0 \<le> c" "c < 256" using 2(7) by simp_all
  have same: "(m(buf + of_nat (length line) := x)) a = m a" if "1024 \<le> unat (a - buf)" for a x
    using that 2(6) by (auto simp: unat_of_nat_small)
  consider (rub) "(c = 8 \<or> c = 0x7f) \<and> line \<noteq> []"
    | (ins) "\<not> ((c = 8 \<or> c = 0x7f) \<and> line \<noteq> [])" "c \<ge> 32 \<and> length line < 1023"
    | (ret) "\<not> ((c = 8 \<or> c = 0x7f) \<and> line \<noteq> [])" "\<not> (c \<ge> 32 \<and> length line < 1023)" "c = 10 \<or> c = 13"
    | (other) "\<not> ((c = 8 \<or> c = 0x7f) \<and> line \<noteq> [])" "\<not> (c \<ge> 32 \<and> length line < 1023)" "\<not> (c = 10 \<or> c = 13)"
    by blast
  thus ?case
  proof cases
    case rub
    have "bytes_at m buf (butlast line @ [last line])" using 2(4) rub by simp
    hence "bytes_at m buf (butlast line)" by (simp only: bytes_at_append)
    hence "\<exists>m'. readline_loop tty_getc tty_putc True buf (length (butlast line)) m (cs, out @ [8]) =
          Some (buf, m', rest, (out @ [8]) @ echo (butlast line) cs) \<and>
        cstr m' buf res \<and> length res \<le> 1023 \<and> (\<forall>a. 1024 \<le> unat (a - buf) \<longrightarrow> m' a = m a)"
      using 2(5,6,7,8) rub by (intro 2(1)) (auto dest: in_set_butlastD)
    thus ?thesis using rub by (subst readline_loop.simps) (auto simp: tty_putc_def)
  next
    case ins
    have "uint (word_of_int c :: u8) = c" using c by (simp add: uint_word_of_int)
    hence "word_of_int c \<noteq> (0 :: u8)" using ins(2) by auto
    moreover have "bytes_at (m(buf + of_nat (length line) := word_of_int c)) buf (line @ [word_of_int c])"
      using 2(4) ins(2) by (intro bytes_at_upd) simp_all
    ultimately have "\<exists>m'. readline_loop tty_getc tty_putc True buf (length (line @ [word_of_int c])) (m(buf + of_nat (length line) := word_of_int c))
          (cs, out @ [word_of_int c]) =
          Some (buf, m', rest, (out @ [word_of_int c]) @ echo (line @ [word_of_int c]) cs) \<and>
        cstr m' buf res \<and> length res \<le> 1023 \<and>
        (\<forall>a. 1024 \<le> unat (a - buf) \<longrightarrow> m' a = (m(buf + of_nat (length line) := word_of_int c)) a)"
      using 2(5-8) ins by (intro 2(2)) (auto split: if_splits simp del: fun_upd_apply)
    thus ?thesis using ins c same by (cases "c = 0x7f") (subst readline_loop.simps, force simp: tty_putc_def)+
  next
    case ret
    have "bytes_at (m(buf + of_nat (length line) := 0)) buf (line @ [0])" using 2(4,6) by (intro bytes_at_upd) simp_all
    thus ?thesis using ret c 2(5,6,8) same by (subst readline_loop.simps) (auto simp: tty_putc_def cstr_iff)
  next
    case other
    hence "\<exists>m'. readline_loop tty_getc tty_putc True buf (length line) m (cs, out) = Some (buf, m', rest, out @ echo line cs) \<and>
        cstr m' buf res \<and> length res \<le> 1023 \<and> (\<forall>a. 1024 \<le> unat (a - buf) \<longrightarrow> m' a = m a)"
      using 2(4-8) by (intro 2(3)) auto
    thus ?thesis using other c by (subst readline_loop.simps) auto
  qed
qed simp

section \<open>Splitting a line\<close>

text \<open>The words of a line, split at white space.\<close>

fun words_of :: "nat \<Rightarrow> u8 list \<Rightarrow> u8 list list" where
  "words_of 0 cs = []"
| "words_of (Suc n) cs =
     (case dropWhile is_white cs of
        [] \<Rightarrow> []
      | ds \<Rightarrow> takeWhile (\<lambda>c. \<not> is_white c) ds # words_of n (dropWhile (\<lambda>c. \<not> is_white c) ds))"

lemma is_white_0 [simp]: "\<not> is_white 0"
  by (simp add: is_white_def)

lemma gobble_cstr:
  assumes "cstr m buf cs" and "length cs < 2 ^ 32"
  shows "\<exists>m'. gobble m buf = Some (m', buf + of_nat (length (takeWhile is_white cs))) \<and>
     cstr m' (buf + of_nat (length (takeWhile is_white cs))) (dropWhile is_white cs) \<and>
     (\<forall>a. length (takeWhile is_white cs) \<le> unat (a - buf) \<longrightarrow> m' a = m a) \<and>
     (takeWhile is_white cs \<noteq> [] \<longrightarrow> m' buf = 0)"
  using assms
proof (induction cs arbitrary: m buf)
  case Nil
  thus ?case by (subst gobble.simps) simp
next
  case (Cons c cs)
  show ?case
  proof (cases "is_white c")
    case True
    let ?k = "length (takeWhile is_white cs)"
    have ne: "buf + 1 + of_nat i \<noteq> buf" if "i \<le> length cs" for i
    proof
      assume "buf + 1 + of_nat i = buf"
      hence "of_nat (Suc i) = (0 :: u32)" by simp
      hence "unat (of_nat (Suc i) :: u32) = 0" by simp
      thus False using that Cons.prems(2) by (simp add: unat_of_nat_small del: of_nat_Suc)
    qed
    have "cstr (m(buf := 0)) (buf + 1) cs = cstr m (buf + 1) cs" by (rule cstr_cong) (use ne in simp)
    hence 1: "cstr (m(buf := 0)) (buf + 1) cs" using Cons.prems(1) by simp
    have 2: "length cs < 2 ^ 32" using Cons.prems(2) by simp
    obtain m' where m': "gobble (m(buf := 0)) (buf + 1) = Some (m', buf + 1 + of_nat ?k)"
      "cstr m' (buf + 1 + of_nat ?k) (dropWhile is_white cs)" "\<forall>a. ?k \<le> unat (a - (buf + 1)) \<longrightarrow> m' a = (m(buf := 0)) a"
      using Cons.IH [OF 1 2] by blast
    have "unat (buf - (buf + 1)) = 2 ^ 32 - 1" by (simp add: unsigned_minus_1_eq_mask mask_eq_exp_minus_1)
    moreover have "?k \<le> length cs" by (rule length_takeWhile_le)
    ultimately have "m' buf = 0" using m'(3) Cons.prems(2) by simp
    moreover have "m' a = m a" if "Suc ?k \<le> unat (a - buf)" for a
    proof -
      have "a \<noteq> buf" using that by auto
      moreover have "?k \<le> unat (a - (buf + 1))" using unat_diff_step [OF \<open>a \<noteq> buf\<close>] that by simp
      ultimately show ?thesis using m'(3) by simp
    qed
    ultimately show ?thesis using m'(1,2) True Cons.prems by (subst gobble.simps) (simp add: add.assoc)
  qed (use Cons.prems in \<open>subst gobble.simps, simp\<close>)
qed

lemma scan_arg_cstr:
  "cstr m buf cs \<Longrightarrow> scan_arg m buf = Some (buf + of_nat (length (takeWhile (\<lambda>c. \<not> is_white c) cs))) \<and>
     cstr m (buf + of_nat (length (takeWhile (\<lambda>c. \<not> is_white c) cs))) (dropWhile (\<lambda>c. \<not> is_white c) cs)"
proof (induction cs arbitrary: buf)
  case Nil
  thus ?case by (subst scan_arg.simps) simp
next
  case (Cons c cs)
  thus ?case using Cons.IH [of "buf + 1"] by (subst scan_arg.simps) (auto simp: add.assoc)
qed

text \<open>The words are found where they stand in the line, and the line is cut behind each of them.\<close>

lemma words_of_enough: "length cs \<le> n \<Longrightarrow> length cs \<le> k \<Longrightarrow> words_of n cs = words_of k cs"
proof (induction n arbitrary: cs k)
  case 0
  thus ?case by (cases k) simp_all
next
  case (Suc n)
  show ?case
  proof (cases "dropWhile is_white cs")
    case Nil
    thus ?thesis by (cases k) (simp_all del: dropWhile_eq_Nil_conv)
  next
    case (Cons d ds)
    have "length (dropWhile is_white cs) \<le> length cs" by (rule length_dropWhile_le)
    hence l: "Suc (length ds) \<le> length cs" using Cons by simp
    have w: "\<not> is_white d" using Cons by (metis dropWhile_eq_Cons_conv)
    then obtain j where k: "k = Suc j" using l Suc.prems by (cases k) auto
    have "length (dropWhile (\<lambda>c. \<not> is_white c) ds) \<le> length ds" by (rule length_dropWhile_le)
    hence "words_of n (dropWhile (\<lambda>c. \<not> is_white c) ds) = words_of j (dropWhile (\<lambda>c. \<not> is_white c) ds)"
      using l Suc.prems k by (intro Suc.IH) simp_all
    thus ?thesis using Cons w k by simp
  qed
qed

lemma unat_before: "i < j \<Longrightarrow> j < 2 ^ 32 \<Longrightarrow> unat ((p + of_nat i) - (p + of_nat j) :: u32) = 2 ^ 32 + i - j"
  by (simp add: unat_sub_if' unat_of_nat_small)

lemma unat_after: "n \<le> unat (a - p :: u32) \<Longrightarrow> unat (a - (p + of_nat n)) = unat (a - p) - n"
proof -
  assume n: "n \<le> unat (a - p)"
  have "unat (a - p) < 2 ^ 32" by simp
  hence "n < 2 ^ 32" using n by (rule le_less_trans [rotated])
  hence "unat (of_nat n :: u32) = n" by (simp add: unat_of_nat_small)
  moreover have "a - (p + of_nat n) = (a - p) - of_nat n" by simp
  ultimately show ?thesis using n by (simp only: unat_sub_no_borrow)
qed

definition args_at :: "mem \<Rightarrow> u32 list \<Rightarrow> u8 list list \<Rightarrow> bool" where
  "args_at m = list_all2 (cstr m)"

lemma parse_args_words:
  assumes "cstr m buf cs" and "length cs < 2 ^ 32" and "length cs \<le> n" and "length argv \<le> 15"
  shows "\<exists>m' args. parse_args m buf argv =
       Some (m', if length argv + length (words_of n cs) \<le> 15 then Some (argv @ args) else None) \<and>
     (length argv + length (words_of n cs) \<le> 15 \<longrightarrow> args_at m' args (words_of n cs)) \<and>
     (cs = [] \<or> is_white (hd cs) \<longrightarrow> m' buf = 0) \<and> (\<forall>a. length cs \<le> unat (a - buf) \<longrightarrow> m' a = m a)"
  using assms
proof (induction n arbitrary: m buf cs argv)
  case 0
  thus ?case by (subst parse_args.simps, subst gobble.simps) (auto simp: args_at_def)
next
  case (Suc n)
  let ?k = "length (takeWhile is_white cs)" and ?ds = "dropWhile is_white cs"
  let ?b = "buf + of_nat ?k"
  obtain m1 where m1: "gobble m buf = Some (m1, ?b)" "cstr m1 ?b ?ds"
    "\<forall>a. ?k \<le> unat (a - buf) \<longrightarrow> m1 a = m a" "takeWhile is_white cs \<noteq> [] \<longrightarrow> m1 buf = 0"
    using gobble_cstr [OF Suc.prems(1,2)] by blast
  have split: "length cs = ?k + length ?ds"
    by (metis length_append takeWhile_dropWhile_id)
  show ?case
  proof (cases ?ds)
    case Nil
    hence "m1 ?b = 0" using m1(2) by (simp del: dropWhile_eq_Nil_conv)
    moreover have "m1 buf = 0" using m1(4) \<open>m1 ?b = 0\<close> by (cases "takeWhile is_white cs") simp_all
    ultimately show ?thesis using m1(1,3) Nil split Suc.prems(4)
      by (intro exI [of _ m1] exI [of _ "[]"]) (subst parse_args.simps, simp add: args_at_def del: dropWhile_eq_Nil_conv)
  next
    case (Cons d ds)
    let ?tok = "takeWhile (\<lambda>c. \<not> is_white c) ?ds" and ?rest = "dropWhile (\<lambda>c. \<not> is_white c) ?ds"
    have d: "\<not> is_white d" using Cons by (metis dropWhile_eq_Cons_conv)
    have w: "words_of (Suc n) cs = ?tok # words_of n ?rest" using Cons by simp
    have md: "m1 ?b \<noteq> 0" using m1(2) Cons by simp
    have k0: "m1 buf = 0" if "cs = [] \<or> is_white (hd cs)" using that m1(4) Cons by (cases cs) auto
    show ?thesis
    proof (cases "length argv = 15")
      case True
      hence "parse_args m buf argv = Some (m1, None)" using m1(1) md by (subst parse_args.simps) simp
      thus ?thesis using w m1(3) k0 split True by auto
    next
      case False
      let ?e = "?b + of_nat (length ?tok)"
      have scan: "scan_arg m1 ?b = Some ?e" "cstr m1 ?e ?rest" using scan_arg_cstr [OF m1(2)] by blast+
      have ls: "length ?ds = length ?tok + length ?rest" by (metis length_append takeWhile_dropWhile_id)
      have lt: "0 < length ?tok" using Cons d by simp
      have e: "?e = buf + of_nat (?k + length ?tok)" by (simp add: add.assoc)
      have run: "parse_args m buf argv = parse_args m1 ?e (argv @ [?b])"
        using m1(1) md False scan(1) by (subst parse_args.simps) simp
      have "length ?rest < 2 ^ 32" "length ?rest \<le> n" "length (argv @ [?b]) \<le> 15"
        using ls lt split Suc.prems(2,3,4) False by (linarith, linarith, simp)
      from Suc.IH [OF scan(2) this] obtain m' args where m':
        "parse_args m1 ?e (argv @ [?b]) =
           Some (m', if length (argv @ [?b]) + length (words_of n ?rest) \<le> 15 then Some ((argv @ [?b]) @ args) else None)"
        "length (argv @ [?b]) + length (words_of n ?rest) \<le> 15 \<longrightarrow> args_at m' args (words_of n ?rest)"
        "?rest = [] \<or> is_white (hd ?rest) \<longrightarrow> m' ?e = 0" "\<forall>a. length ?rest \<le> unat (a - ?e) \<longrightarrow> m' a = m1 a" by blast
      have "m' ?e = 0" using m'(3) hd_dropWhile [of "\<lambda>c. \<not> is_white c" ?ds] by blast
      moreover have "m' (?b + of_nat i) = ?tok ! i" if "i < length ?tok" for i
      proof -
        have "length ?rest \<le> unat ((?b + of_nat i) - ?e)"
          using that ls split Suc.prems(2) by (subst unat_before) simp_all
        hence "m' (?b + of_nat i) = m1 (?b + of_nat i)" using m'(4) by blast
        moreover have "bytes_at m1 ?b (?tok @ ?rest)" using m1(2) by (simp add: cstr_iff bytes_at_append)
        hence "bytes_at m1 ?b ?tok" by (simp only: bytes_at_append)
        ultimately show ?thesis using bytes_at_nth [OF _ that] by simp
      qed
      ultimately have "bytes_at m' ?b (?tok @ [0])" by (simp add: bytes_at_append bytes_atI)
      moreover have "0 \<notin> set ?tok" using cstr_nonzero [OF m1(2)] by (metis set_takeWhileD)
      ultimately have tok: "cstr m' ?b ?tok" by (simp add: cstr_iff)
      have "m' buf = 0" if "cs = [] \<or> is_white (hd cs)"
      proof -
        have "unat (buf + of_nat 0 - (buf + of_nat (?k + length ?tok))) = 2 ^ 32 + 0 - (?k + length ?tok)"
          using lt ls split Suc.prems(2) by (intro unat_before) simp_all
        hence "length ?rest \<le> unat (buf - ?e)" using e ls split Suc.prems(2) by simp
        thus ?thesis using m'(4) k0 [OF that] by simp
      qed
      moreover have "m' a = m a" if "length cs \<le> unat (a - buf)" for a
      proof -
        have "length ?rest \<le> unat (a - ?e)" using that ls split by (simp only: e) (subst unat_after, simp_all)
        thus ?thesis using m'(4) m1(3) that split by simp
      qed
      ultimately show ?thesis using run m'(1,2) tok w
        by (intro exI [of _ m'] exI [of _ "?b # args"]) (simp add: args_at_def)
    qed
  qed
qed

section \<open>Properties\<close>

lemma fold_tty_putc: "fold tty_putc cs (keys, out) = (keys, out @ cs)"
  by (induction cs arbitrary: out) (simp_all add: tty_putc_def)

lemma strcmp_name:
  assumes "cstr m a xs" and "0 \<notin> set ys"
  shows "bytes_at m a (ys @ [0]) \<longleftrightarrow> xs = ys"
  using assms cstr_unique [of m a xs ys] by (auto simp: cstr_iff)

text \<open>\<open>readline\<close> returns, for every sequence of keys that ends a line, with the buffer holding the
  line that the editor without a buffer makes of the keys, a string of at most 1023 characters; it has
  shown the prompt and the echo, left the keys behind the line, and written only the 1024 bytes of the buffer.\<close>

lemma readline_edits:
  assumes "\<forall>c \<in> set keys. 0 \<le> c \<and> c < 256" and "edit [] keys = Some (line, rest)"
  shows "\<exists>m'. readline tty_getc tty_putc buf prompt m (keys, out) =
       Some (buf, m', rest, out @ map (ucast \<circ> byte) prompt @ echo [] keys) \<and>
     cstr m' buf line \<and> length line \<le> 1023 \<and> (\<forall>a. 1024 \<le> unat (a - buf) \<longrightarrow> m' a = m a)"
  using readline_loop_edit [of m buf "[]" keys line rest "out @ map (ucast \<circ> byte) prompt"] assms
  by (simp add: readline_def fold_tty_putc iscons_def)

text \<open>\<open>runcmd\<close> on a line splits it at white space. With no word it does nothing; with more than
  fifteen it gives the command up; otherwise the arguments are the words in their order, each a string
  of its own, and the command of the table with the name of the first word runs, if there is one.\<close>

lemma runcmd_spec:
  assumes "cstr m buf line" and "length line < 2 ^ 32"
  shows "\<exists>m' a. runcmd m buf = Some (m', a) \<and> (\<forall>x. length line \<le> unat (x - buf) \<longrightarrow> m' x = m x) \<and>
     (case words_of (length line) line of
        [] \<Rightarrow> a = Nothing
      | w # ws \<Rightarrow>
          if length ws \<ge> 15 then a = Too_many
          else \<exists>p args. args_at m' (p # args) (w # ws) \<and>
            a = (case List.find (\<lambda>(name, desc, f). lit name = w) commands of
                   None \<Rightarrow> Unknown p
                 | Some (name, desc, f) \<Rightarrow> Run f (p # args)))"
proof -
  obtain m' args where 1: "parse_args m buf [] =
      Some (m', if length (words_of (length line) line) \<le> 15 then Some args else None)"
    "length (words_of (length line) line) \<le> 15 \<longrightarrow> args_at m' args (words_of (length line) line)"
    "\<forall>a. length line \<le> unat (a - buf) \<longrightarrow> m' a = m a"
    using parse_args_words [OF assms order_refl, of "[]"] by auto
  show ?thesis
  proof (cases "words_of (length line) line")
    case Nil
    thus ?thesis using 1 by (simp add: runcmd_def args_at_def)
  next
    case (Cons w ws)
    show ?thesis
    proof (cases "length ws \<ge> 15")
      case False
      then obtain p ps where p: "args = p # ps" "cstr m' p w" "args_at m' args (w # ws)"
        using 1(2) Cons by (auto simp: args_at_def list_all2_Cons2)
      have "bytes_at m' p (lit name @ [0]) \<longleftrightarrow> lit name = w" if "(name, desc, f) \<in> set commands" for name desc f
        using that strcmp_name [OF p(2), of "lit name"] by (auto simp: commands_def lit_def byte_def)
      hence "List.find (\<lambda>(name, desc, f). bytes_at m' p (lit name @ [0])) commands =
          List.find (\<lambda>(name, desc, f). lit name = w) commands" by (intro find_cong) auto
      thus ?thesis using 1 Cons False p
        by (auto simp: runcmd_def lookup_command_def split: option.splits)
    qed (use 1 Cons in \<open>simp add: runcmd_def\<close>)
  qed
qed

text \<open>C34: A turn of the monitor. For every sequence of keys that ends a line it returns, having shown the
  prompt and the echo of the editor, with the keys behind the line left. It then has split the
  edited line at white space: with no word it does nothing, with more than fifteen it gives up, and
  otherwise the arguments are strings, the words in their order, and the command that has the name
  of the first word runs, if there is one. Only the 1024 bytes of the buffer change.\<close>

theorem monitor_turn_spec:
  assumes "\<forall>c \<in> set keys. 0 \<le> c \<and> c < 256" and "edit [] keys = Some (line, rest)" and "buf \<noteq> 0"
  shows "\<exists>a m'. monitor_turn tty_getc tty_putc buf m (keys, out) =
       Some (a, m', rest, out @ map (ucast \<circ> byte) ''K> '' @ echo [] keys) \<and>
     (\<forall>x. 1024 \<le> unat (x - buf) \<longrightarrow> m' x = m x) \<and>
     (case words_of (length line) line of
        [] \<Rightarrow> a = Nothing
      | w # ws \<Rightarrow>
          if length ws \<ge> 15 then a = Too_many
          else \<exists>p args. args_at m' (p # args) (w # ws) \<and>
            a = (case List.find (\<lambda>(name, desc, f). lit name = w) commands of
                   None \<Rightarrow> Unknown p
                 | Some (name, desc, f) \<Rightarrow> Run f (p # args)))"
proof -
  obtain m1 where m1: "readline tty_getc tty_putc buf ''K> '' m (keys, out) =
       Some (buf, m1, rest, out @ map (ucast \<circ> byte) ''K> '' @ echo [] keys)"
    "cstr m1 buf line" "length line \<le> 1023" "\<forall>a. 1024 \<le> unat (a - buf) \<longrightarrow> m1 a = m a"
    using readline_edits [OF assms(1,2)] by blast
  have "length line < 2 ^ 32" using m1(3) by simp
  from runcmd_spec [OF m1(2) this] obtain m' a where m': "runcmd m1 buf = Some (m', a)"
    "\<forall>x. length line \<le> unat (x - buf) \<longrightarrow> m' x = m1 x"
    "case words_of (length line) line of
        [] \<Rightarrow> a = Nothing
      | w # ws \<Rightarrow>
          if length ws \<ge> 15 then a = Too_many
          else \<exists>p args. args_at m' (p # args) (w # ws) \<and>
            a = (case List.find (\<lambda>(name, desc, f). lit name = w) commands of
                   None \<Rightarrow> Unknown p
                 | Some (name, desc, f) \<Rightarrow> Run f (p # args))" by blast
  have "monitor_turn tty_getc tty_putc buf m (keys, out) =
      Some (a, m', rest, out @ map (ucast \<circ> byte) ''K> '' @ echo [] keys)"
    using m1(1) m'(1) assms(3) by (simp add: monitor_turn_def)
  moreover have "\<forall>x. 1024 \<le> unat (x - buf) \<longrightarrow> m' x = m x" using m'(2) m1(3,4) by auto
  ultimately show ?thesis using m'(3) by blast
qed

lemma words_of_step:
  "0 < n \<Longrightarrow> words_of n cs =
     (case dropWhile is_white cs of
        [] \<Rightarrow> []
      | ds \<Rightarrow> takeWhile (\<lambda>c. \<not> is_white c) ds # words_of (n - 1) (dropWhile (\<lambda>c. \<not> is_white c) ds))"
  by (cases n) (simp_all split: list.split del: dropWhile_eq_Nil_conv)

theorem monitor_turn_spec_witness:
  "\<exists>m' p q. monitor_turn tty_getc tty_putc 64 (\<lambda>_. 7) ([104, 101, 108, 113, 127, 112, 32, 120, 13, 121], []) =
     Some (Run Help [p, q], m', [121], [75, 62, 32, 104, 101, 108, 113, 8, 112, 32, 120, 10]) \<and> cstr m' q [120]"
proof -
  let ?keys = "[104, 101, 108, 113, 127, 112, 32, 120, 13, 121] :: int list"
  have e: "edit [] ?keys = Some ([104, 101, 108, 112, 32, 120], [121])" by simp
  have w: "words_of (length [104, 101, 108, 112, 32, 120 :: u8]) [104, 101, 108, 112, 32, 120] = [[104, 101, 108, 112], [120]]"
    by (simp add: is_white_def words_of_step del: words_of.simps(2))
  have f: "List.find (\<lambda>(name, desc, f). lit name = [104, 101, 108, 112]) commands = Some (''help'', ''Display this list of commands'', Help)"
    by (simp add: commands_def lit_def byte_def)
  show ?thesis
    using monitor_turn_spec [OF _ e, of 64 "\<lambda>_. 7" "[]"] unfolding w
    by (simp add: f byte_def args_at_def list_all2_Cons2) (fastforce simp: list_all2_Cons2)
qed

end
