(* ===== verification/Jos_Init.thy ===== *)
theory Jos_Init
  imports Jos_Lifecycle Jos_MemInit Jos_Monitor
begin

text \<open>
  The start of the kernel and of user programs, and the end of both: \<open>kern/init.c\<close>, \<open>lib/libmain.c\<close> and \<open>lib/panic.c\<close>.

  The messages that \<open>mem_init\<close> and \<open>env_create\<close> print are not part of the model: the console of the result of
  \<open>i386_init\<close> is the one that \<open>mem_init\<close> finds.
\<close>

section \<open>State\<close>

text \<open>The whole kernel: memory, environments and descriptor tables, the console and its input buffer, and \<open>panicstr\<close>.\<close>

record 'd machine =
  tk :: tkern
  con :: "'d console"
  cbuf :: consbuf
  panicstr :: u32

text \<open>What the linker decides: the symbols \<open>edata\<close> and \<open>end\<close>, the addresses of the boot stack, of \<open>ts\<close>, of the executable of
  \<open>user/hello\<close>, of the trap entry points and of the debugging information.\<close>

record image =
  im_edata :: u32
  im_end :: u32
  im_bootstack :: u32
  im_ts :: u32
  im_hello :: u32
  im_handler :: "nat \<Rightarrow> u32"
  im_stabs :: UserStabData

definition zero_gate :: Gatedesc where
  "zero_gate = \<lparr>gd_off_15_0 = 0, gd_sel = 0, gd_args = 0, gd_rsv1 = 0, gd_type = 0, gd_s = 0, gd_dpl = 0, gd_p = 0, gd_off_31_16 = 0\<rparr>"

definition zero_ts :: Taskstate where
  "zero_ts = \<lparr>ts_link = 0, ts_esp0 = 0, ts_ss0 = 0, ts_padding1 = 0, ts_esp1 = 0, ts_ss1 = 0, ts_padding2 = 0,
     ts_esp2 = 0, ts_ss2 = 0, ts_padding3 = 0, ts_cr3 = 0, ts_eip = 0, ts_eflags = 0, ts_eax = 0, ts_ecx = 0,
     ts_edx = 0, ts_ebx = 0, ts_esp = 0, ts_ebp = 0, ts_esi = 0, ts_edi = 0, ts_es = 0, ts_padding4 = 0, ts_cs = 0,
     ts_padding5 = 0, ts_ss = 0, ts_padding6 = 0, ts_ds = 0, ts_padding7 = 0, ts_fs = 0, ts_padding8 = 0,
     ts_gs = 0, ts_padding9 = 0, ts_ldt = 0, ts_padding10 = 0, ts_t = 0, ts_iomb = 0\<rparr>"

text \<open>\<open>memset(edata, 0, end - edata)\<close>: the bytes, and with them the variables without an initial value. \<open>gdt\<close> has one; the cells of
  the display (\<open>crt_buf\<close>) are not in the image.\<close>

definition clear_bss :: "image \<Rightarrow> 'd machine \<Rightarrow> 'd machine" where
  "clear_bss im m =
     (let e = ek (tk m);
          k = \<lparr>npages = 0, npages_basemem = 0, kern_pgdir = 0, pages_kva = 0, pages = [], page_free_list = None, nextfree = 0,
            kmem = memset (kmem (krn e)) (im_edata im) 0 (im_end im - im_edata im), tlb = tlb (krn e)\<rparr>;
          e = e\<lparr>krn := k, envs := [], curenv := None, env_free_list := None\<rparr>
      in m\<lparr>tk := (tk m)\<lparr>ek := e, idt := replicate 256 zero_gate, ts := zero_ts, last_tf := None\<rparr>,
           con := (con m)\<lparr>serial_exists := False, addr_6845 := 0, crt_base := 0, crt_pos := 0, kbd_shift := 0\<rparr>,
           cbuf := \<lparr>cons_buf = replicate (unat CONSBUFSIZE) 0, cons_rpos = 0, cons_wpos = 0\<rparr>,
           panicstr := 0\<rparr>)"

section \<open>Messages\<close>

text \<open>A message is a list of the codes that \<open>putch\<close> gets: those of a string conversion are sign-extended bytes. \<open>%o\<close>, and \<open>%s\<close> and
  \<open>%.*s\<close> for the string at \<open>p\<close>; a precision of -1 is none.\<close>

definition codes :: "u8 list \<Rightarrow> u32 list" where
  "codes t = map ucast t"

definition octal :: "u32 \<Rightarrow> u32 list" where
  "octal v = printnum (\<lambda>c l. l @ [c]) (ucast v) 8 (-1) (ucast (byte (CHR '' ''))) []"

definition cstring :: "mem \<Rightarrow> u32 \<Rightarrow> int \<Rightarrow> u32 list option" where
  "cstring m p precision = put_string (\<lambda>c l. l @ [c]) m p (byte (CHR '' '')) (if precision < 0 then -1 else 0) precision False []"

definition put_text :: "'d bus \<Rightarrow> u32 list \<Rightarrow> 'd machine \<Rightarrow> 'd machine" where
  "put_text b t m = m\<lparr>con := fold (cputchar b) t (con m)\<rparr>"

text \<open>The text of \<open>mon_backtrace\<close>.\<close>

definition info_string :: "mem \<Rightarrow> u32 option \<Rightarrow> int \<Rightarrow> u32 list option" where
  "info_string m p precision = (case p of None \<Rightarrow> Some (codes (lit ''<unknown>'')) | Some p \<Rightarrow> cstring m p precision)"

definition frame_text :: "mem \<Rightarrow> frame_info \<Rightarrow> u32 list option" where
  "frame_text m f =
     Option.bind (info_string m (eip_file (fr_info f)) (-1)) (\<lambda>file.
     Option.bind (info_string m (eip_fn_name (fr_info f)) (eip_fn_namelen (fr_info f))) (\<lambda>fn.
     Some (codes (lit ''  ebp '' @ hex 8 (fr_ebp f) @ lit ''  eip '' @ hex 8 (fr_eip f) @ lit ''  args'' @
         concat (map (\<lambda>a. lit '' '' @ hex 8 a) (fr_args f)) @ nl @ lit ''         '') @
       file @ codes (lit '':'' @ decimal (word_of_int (eip_line (fr_info f))) @ lit '': '') @ fn @
       codes (lit ''+'' @ decimal (fr_offset f) @ nl))))"

fun frames_text :: "mem \<Rightarrow> frame_info list \<Rightarrow> u32 list option" where
  "frames_text m [] = Some []"
| "frames_text m (f # fs) =
     Option.bind (frame_text m f) (\<lambda>t. Option.bind (frames_text m fs) (\<lambda>ts. Some (t @ ts)))"

definition backtrace_text :: "mem \<Rightarrow> UserStabData \<Rightarrow> u32 \<Rightarrow> u32 list option" where
  "backtrace_text m ksd ebp =
     Option.bind (mon_backtrace m ksd ebp) (\<lambda>fs. map_option (\<lambda>t. codes (lit ''Stack backtrace:'' @ nl) @ t) (frames_text m fs))"

section \<open>kern/init.c\<close>

text \<open>What \<open>test_backtrace\<close> prints; \<open>bt\<close> is the text of the call of \<open>mon_backtrace\<close>.\<close>

function test_backtrace :: "u32 list option \<Rightarrow> u32 \<Rightarrow> u32 list option" where
  "test_backtrace bt x =
     map_option (\<lambda>t. codes (lit ''entering test_backtrace '' @ decimal x @ nl) @ t @ codes (lit ''leaving test_backtrace '' @ decimal x @ nl))
       (if 0 <s x then test_backtrace bt (x - 1) else bt)"
  by pat_completeness auto
termination
proof (relation "measure (\<lambda>(bt, x). nat (sint x))", simp)
  fix bt :: "u32 list option" and x :: u32
  assume "0 <s x"
  hence "sint (x - 1) = sint x - 1" and "0 < sint x"
    using sint_lt [of x] by (auto simp: word_sless_alt sint_word_ariths signed_take_bit_int_eq_self)
  thus "((bt, x - 1), (bt, x)) \<in> measure (\<lambda>(bt, x). nat (sint x))" by simp
qed

declare test_backtrace.simps [simp del]

text \<open>\<open>vmem\<close> is the display memory and \<open>cmos\<close> the firmware's memory, \<open>sm\<close> the memory with the frames that are on the stack in
  the call of \<open>mon_backtrace\<close>, and \<open>ebp\<close> the frame pointer there.\<close>

definition i386_init ::
  "'d bus \<Rightarrow> (u32 \<Rightarrow> u16 \<Rightarrow> u16) \<Rightarrow> (u8 \<Rightarrow> u8) \<Rightarrow> image \<Rightarrow> mem \<Rightarrow> u32 \<Rightarrow> 'd machine \<Rightarrow> (kerr + (Trapframe \<times> 'd machine)) option" where
  "i386_init b vmem cmos im sm ebp m =
     (let m = clear_bss im m;
          m = m\<lparr>con := cons_init b vmem (con m)\<rparr>;
          m = put_text b (codes (lit ''6828 decimal is '') @ octal 6828 @ codes (lit '' octal!'' @ nl)) m
      in case test_backtrace (backtrace_text sm (im_stabs im) ebp) 5 of
           None \<Rightarrow> None
         | Some t \<Rightarrow>
             let m = put_text b t m
             in then_do (mem_init cmos (im_end im) (im_bootstack im) (ek (tk m))) (\<lambda>k.
                  let s = (tk m)\<lparr>ek := env_init k\<rparr>;
                      s = trap_init (im_handler im) (im_ts im) s
                  in then_do (Some (env_create (im_hello im) ENV_TYPE_USER (ek s))) (\<lambda>k.
                     then_do (Some (env_run 0 k)) (\<lambda>(tf, k).
                     Some (Inr (tf, m\<lparr>tk := s\<lparr>ek := k\<rparr>\<rparr>))))))"

text \<open>What \<open>_panic\<close> and \<open>_warn\<close> have in common, and the two functions: \<open>_panic\<close> up to its loop, which enters the monitor.
  \<open>file\<close> and \<open>fmt\<close> are addresses of strings, \<open>ap\<close> is the address of the arguments. The interrupt flag is not modelled.\<close>

definition report :: "'d bus \<Rightarrow> string \<Rightarrow> u32 \<Rightarrow> u32 \<Rightarrow> u32 \<Rightarrow> u32 \<Rightarrow> 'd machine \<Rightarrow> 'd machine option" where
  "report b what file line fmt ap m =
     (let mm = kmem (krn (ek (tk m))) in
      case cstring mm file (-1) of
        None \<Rightarrow> None
      | Some name \<Rightarrow>
          (case kern_vcprintf mm fmt ap [] of
             None \<Rightarrow> None
           | Some (n, out) \<Rightarrow>
               let m = put_text b (codes (lit ''kernel '' @ lit what @ lit '' at '') @ name @ codes (lit '':'' @ decimal line @ lit '': '')) m;
                   m = put_text b out m
               in Some (put_text b (codes nl) m)))"

definition kern_panic :: "'d bus \<Rightarrow> u32 \<Rightarrow> u32 \<Rightarrow> u32 \<Rightarrow> u32 \<Rightarrow> 'd machine \<Rightarrow> 'd machine option" where
  "kern_panic b file line fmt ap m =
     (if panicstr m \<noteq> 0 then Some m else report b ''panic'' file line fmt ap (m\<lparr>panicstr := fmt\<rparr>))"

definition kern_warn :: "'d bus \<Rightarrow> u32 \<Rightarrow> u32 \<Rightarrow> u32 \<Rightarrow> u32 \<Rightarrow> 'd machine \<Rightarrow> 'd machine option" where
  "kern_warn b file line fmt ap m = report b ''warning'' file line fmt ap m"

section \<open>lib/libmain.c and lib/panic.c\<close>

text \<open>The globals of the user library: the pointer \<open>thisenv\<close> and the address of \<open>binaryname\<close>.\<close>

record ulib =
  thisenv :: u32
  binaryname :: u32

text \<open>\<open>umain\<close> is the program, on the globals and the state \<open>'w\<close> behind the system calls. The memory \<open>um\<close> holds \<open>argv\<close>.\<close>

definition libmain ::
  "(u32 \<Rightarrow> u32 \<Rightarrow> ulib \<times> 'w \<Rightarrow> (ulib \<times> 'w) option) \<Rightarrow> 'w kernel_entry \<Rightarrow> mem \<Rightarrow> u32 \<Rightarrow> u32 \<Rightarrow> ulib \<times> 'w \<Rightarrow> (string + u32 \<times> 'w) option" where
  "libmain umain kentry um argc argv s =
     (let (l, w) = s;
          l = l\<lparr>thisenv := 0\<rparr>;
          l = (if 0 <s argc then l\<lparr>binaryname := ld32 um argv\<rparr> else l)
      in case umain argc argv (l, w) of
           None \<Rightarrow> None
         | Some (l, w) \<Rightarrow> user_exit kentry w)"

text \<open>\<open>cputchar\<close> passes the address \<open>loc\<close> of its local variable; \<open>store\<close> writes a byte of the memory of the program.\<close>

definition user_cputchar :: "'w kernel_entry \<Rightarrow> (u32 \<Rightarrow> u8 \<Rightarrow> 'w \<Rightarrow> 'w) \<Rightarrow> u32 \<Rightarrow> u32 \<Rightarrow> 'w \<Rightarrow> (string + u32 \<times> 'w) option" where
  "user_cputchar kentry store loc ch w = user_sys_cputs kentry loc 1 (store loc (ucast ch) w)"

text \<open>The system calls of one \<open>cprintf\<close> with the given text, and of \<open>_panic\<close> before its breakpoints; \<open>buf\<close> is what the buffer
  on the stack held before.\<close>

definition user_text :: "u8 list \<Rightarrow> u32 list \<Rightarrow> u8 list list" where
  "user_text buf t =
     (let b = fold user_putch t \<lparr>pb_idx = 0, pb_cnt = 0, pb_buf = buf, pb_sys = []\<rparr>
      in pb_sys b @ [take (pb_idx b) (pb_buf b)])"

definition user_panic ::
  "'w kernel_entry \<Rightarrow> mem \<Rightarrow> u8 list \<Rightarrow> u32 \<Rightarrow> u32 \<Rightarrow> u32 \<Rightarrow> u32 \<Rightarrow> ulib \<times> 'w \<Rightarrow> (string + u8 list list \<times> 'w) option" where
  "user_panic kentry um buf file line fmt ap s =
     (let (l, w) = s in
      case user_sys_getenvid kentry w of
        None \<Rightarrow> None
      | Some (Inl e) \<Rightarrow> Some (Inl e)
      | Some (Inr (envid, w)) \<Rightarrow>
          Option.bind (cstring um (binaryname l) (-1)) (\<lambda>prog.
          Option.bind (cstring um file (-1)) (\<lambda>name.
          Option.bind (user_vcprintf um fmt ap buf) (\<lambda>(n, out).
          Some (Inr (user_text buf (codes (lit ''['' @ hex 8 envid @ lit ''] user panic in '') @ prog @ codes (lit '' at '') @ name @
              codes (lit '':'' @ decimal line @ lit '': '')) @ out @ user_text buf (codes nl), w))))))"

section \<open>Lemmas\<close>

text \<open>The descriptor tables change nothing that the memory and the environments depend on.\<close>

lemma trap_init_ek:
  "krn (ek (trap_init handler a s)) = krn (ek s)" "envs (ek (trap_init handler a s)) = envs (ek s)"
  "curenv (ek (trap_init handler a s)) = curenv (ek s)" "env_free_list (ek (trap_init handler a s)) = env_free_list (ek s)"
  "hw (ek (trap_init handler a s)) = hw (ek s)"
  by (simp_all add: trap_init_def trap_init_percpu_def Let_def)

lemma env_run_result:
  assumes "env_wf s efl" and "e < 1024" and "e \<notin> set efl" and "env_pgdir (envs s ! e) = page_kva x" and "x < 0x10000"
    and "curenv s = None"
  obtains t where "env_run e s = Inr (env_tf (envs s ! e), t)" "env_wf t efl" "curenv t = Some e" "cr3 (hw t) = page2pa x"
    "krn t = (krn s)\<lparr>tlb := (\<lambda>_. False)\<rparr>"
    "envs t ! e = (envs s ! e)\<lparr>env_status := ENV_RUNNING, env_runs := env_runs (envs s ! e) + 1\<rparr>"
    "\<And>j. j \<noteq> e \<Longrightarrow> envs t ! j = envs s ! j"
proof -
  have pa: "PADDR (env_pgdir (envs s ! e)) = Inr (page2pa x)" using PADDR_page_kva [OF assms(5)] assms(4) by simp
  obtain t where t: "env_run e s = Inr (env_tf (envs s ! e), t)" "env_wf t efl" "curenv t = Some e" "cr3 (hw t) = page2pa x"
    by (rule env_run_wf [OF assms(1,2,3) pa])
  have len: "e < length (envs s)" using env_wfD(1) [OF assms(1)] assms(2) by simp
  have "envs t ! j = (if j = e then (envs s ! e)\<lparr>env_status := ENV_RUNNING, env_runs := env_runs (envs s ! e) + 1\<rparr> else envs s ! j)" for j
    using t(1) len assms(6) by (auto simp: env_run_def Let_def res_simps upd_env_def lcr3_def nth_list_update split: if_splits)
  thus thesis using that t env_run_krn [OF t(1)] by simp
qed

lemma test_backtrace_nest:
  assumes "n < 2 ^ 31"
  shows "test_backtrace (Some t) (of_nat n) =
    Some (concat (map (\<lambda>i. codes (lit ''entering test_backtrace '' @ decimal (of_nat i) @ nl)) (rev [0..<Suc n])) @ t @
      concat (map (\<lambda>i. codes (lit ''leaving test_backtrace '' @ decimal (of_nat i) @ nl)) [0..<Suc n]))"
  using assms
proof (induction n)
  case 0
  show ?case by (subst test_backtrace.simps) simp
next
  case (Suc n)
  have "sint (of_nat (Suc n) :: u32) = int (Suc n)" using Suc.prems by (transfer fixing: n) (simp add: signed_take_bit_int_eq_self)
  hence "0 <s (of_nat (Suc n) :: u32)" by (simp add: word_sless_alt)
  moreover have "of_nat (Suc n) - 1 = (of_nat n :: u32)" by simp
  ultimately show ?case using Suc by (subst test_backtrace.simps) simp
qed

text \<open>The kernel that \<open>mem_init\<close> finds.\<close>

abbreviation cleared :: "image \<Rightarrow> 'd machine \<Rightarrow> kern" where
  "cleared im m \<equiv> krn (ek (tk (clear_bss im m)))"

lemma clear_bss_simps:
  "kmem (cleared im m) = memset (kmem (krn (ek (tk m)))) (im_edata im) 0 (im_end im - im_edata im)"
  "nextfree (cleared im m) = 0" "page_free_list (cleared im m) = None"
  "curenv (ek (tk (clear_bss im m))) = None" "env_free_list (ek (tk (clear_bss im m))) = None"
  "tk (put_text b t m) = tk m"
  by (simp_all add: clear_bss_def put_text_def Let_def)

lemma loading_flush: "loading s d fl \<Longrightarrow> loading (s\<lparr>tlb := x\<rparr>) d fl"
  using flush_kept(1) [of s d fl x] by (simp add: kept_def)

lemma program_in_flush: "loading s d fl \<Longrightarrow> program_in m binary (s\<lparr>tlb := x\<rparr>) d = program_in m binary s d"
  by (simp add: program_in_def flush_kept(2))

lemma env_init_first:
  assumes "length (envs s) = NENV" and "env_free_list s = None" and "curenv s = None"
  shows "env_id (envs (env_init s) ! 0) = 0" and "curenv (env_init s) = None"
proof -
  have "env_id (envs (env_init_loop NENV s) ! 0) = 0 \<and> curenv (env_init_loop NENV s) = None"
    using env_init_loop_spec [of NENV s NENV, unfolded Let_def] assms by (simp del: upt_rec_numeral)
  thus "env_id (envs (env_init s) ! 0) = 0" "curenv (env_init s) = None" by (simp_all add: env_init_def env_init_percpu_def)
qed

text \<open>The part after \<open>mem_init\<close>: \<open>s\<close> is the kernel that it returns.\<close>

lemma first_env:
  assumes len: "length (envs s) = NENV" and en: "env_free_list s = None" "curenv s = None"
    and ready: "memory_ready (krn s) d e b fl"
    and prog: "program_ok (kmem (krn s)) (\<lambda>q. q < 0x10000 \<and> q \<notin> set fl) (length fl - 1) binary"
    and s': "s' = trap_init handler a (z\<lparr>ek := env_init s\<rparr>)"
  obtains k x fl' t where "env_create binary ENV_TYPE_USER (ek s') = Inr k" "env_run 0 k = Inr (env_tf (envs t ! 0), t)"
    "env_wf t [1..<NENV]" "loading (krn t) x fl'" "program_in (kmem (krn s)) binary (krn t) x"
    "curenv t = Some 0" "cr3 (hw t) = page2pa x" "env_id (envs t ! 0) = 0x1000" "env_pgdir (envs t ! 0) = page_kva x"
    "env_status (envs t ! 0) = ENV_RUNNING" "env_tf (envs t ! 0) = user_tf\<lparr>tf_eip := e_entry (read_Elf (kmem (krn s)) binary)\<rparr>"
    "kern_pgdir (krn t) = page_kva d" "sys_ok t"
proof -
  note i = env_init_wf [OF len en] and f = env_init_first [OF len en]
  have k: "krn (ek s') = krn s" "envs (ek s') = envs (env_init s)" "curenv (ek s') = None" "env_free_list (ek s') = env_free_list (env_init s)"
    using i(2) f(2) by (simp_all add: s' trap_init_ek)
  have wf: "env_wf (ek s') (0 # [1..<1024])"
    using i(1) env_wf_cong [of "ek s'" "env_init s"] k f(2) unfolding upt_1024 by simp
  have fr: "frees (krn s) fl" and kd: "kern_pgdir (krn s) = page_kva d" and as: "aspace (krn s) d"
    and p0: "\<forall>i < 955. pde (krn s) d i = 0" and l3: "3 \<le> length fl"
    using ready by (simp_all add: memory_ready_def)
  obtain x r where fl: "fl = x # r" using l3 by (cases fl) auto
  have d: "d < length (pages (krn s))" "d \<notin> set fl" "\<forall>i < 955. \<not> present (pde (krn s) d i)"
    using as fr p0 by (auto simp: aspace_def frees_def present_def)
  obtain k' r' where c: "env_create binary ENV_TYPE_USER (ek s') = Inr k'" "env_wf k' [1..<1024]" "loading (krn k') x r'"
    "program_in (kmem (krn s)) binary (krn k') x" "curenv k' = None" "globals_of (krn k') = globals_of (krn s)"
    "env_id (envs k' ! 0) = next_generation 0 OR of_nat 0" "env_pgdir (envs k' ! 0) = page_kva x" "env_status (envs k' ! 0) = ENV_RUNNABLE"
    "env_tf (envs k' ! 0) = user_tf\<lparr>tf_eip := e_entry (read_Elf (kmem (krn s)) binary)\<rparr>"
  proof (rule env_create_ok [of "ek s'" 0 "[1..<1024]" x r d binary ENV_TYPE_USER, unfolded k,
        OF wf fr [unfolded fl] kd d(1) d(2) [unfolded fl] d(3)])
    show "program_ok (kmem (krn s)) (\<lambda>q. q < 0x10000 \<and> q \<notin> set (x # r)) (length r) binary" using prog fl by simp
  next
    fix k' r'
    assume c: "env_create binary ENV_TYPE_USER (ek s') = Inr k'" "env_wf k' [1..<1024]" "loading (krn k') x r'"
      "program_in (kmem (krn s)) binary (krn k') x" "curenv k' = None" "globals_of (krn k') = globals_of (krn s)"
      "envs k' ! 0 = (envs (env_init s) ! 0)\<lparr>env_pgdir := page_kva x,
         env_id := next_generation (env_id (envs (env_init s) ! 0)) OR of_nat 0, env_parent_id := 0, env_type := ENV_TYPE_USER,
         env_status := ENV_RUNNABLE, env_runs := 0, env_tf := user_tf\<lparr>tf_eip := e_entry (read_Elf (kmem (krn s)) binary)\<rparr>\<rparr>"
    show thesis by (rule that [OF c(1-6)]) (simp_all add: c(7) f(1))
  qed
  have x: "x < 0x10000" using frees_bounds(4) [OF fr, of x] fl by simp
  have z: "(0 :: nat) < 1024" "(0 :: nat) \<notin> set [1..<1024]" by simp_all
  obtain t where t: "env_run 0 k' = Inr (env_tf (envs k' ! 0), t)" "env_wf t [1..<1024]" "curenv t = Some 0" "cr3 (hw t) = page2pa x"
    "krn t = (krn k')\<lparr>tlb := (\<lambda>_. False)\<rparr>"
    "envs t ! 0 = (envs k' ! 0)\<lparr>env_status := ENV_RUNNING, env_runs := env_runs (envs k' ! 0) + 1\<rparr>"
    by (rule env_run_result [OF c(2) z c(8) x c(5)])
  have g: "next_generation 0 OR of_nat 0 = 0x1000" by (simp add: next_generation_def push_bit_eq_mult)
  have "sys_ok (env_init s)" by (rule env_init_sys_ok [OF len en fr kd d(1,2)]) (use d(3) in simp)
  hence so: "sys_ok (ek s')" using sys_ok_cong [of "ek s'" "env_init s"] k i(2) f(2) by simp
  have fe: "env_free_list (ek s') = Some 0" using env_wfD(4) [OF wf] by (simp only: linked.simps)
  have "env_step (ek s') (Some 0) k'"
    by (rule env_step.create [OF c(1) fe]) (use fr prog fl k(1) in simp_all)
  moreover have "live k' 0" using c(9) by (simp add: live_def)
  ultimately have st: "sys_ok t" using environments.step_ok env_step.run [OF _ t(1)] so by blast
  show thesis
  proof (rule that [of k' t x r'])
    show "loading (krn t) x r'" unfolding t(5) by (rule loading_flush [OF c(3)])
    show "program_in (kmem (krn s)) binary (krn t) x" unfolding t(5) program_in_flush [OF c(3)] by (rule c(4))
    show "kern_pgdir (krn t) = page_kva d" using globals_ofD(3) [OF c(6)] kd by (simp add: t(5))
  qed (use c t g st in \<open>simp_all del: NENV_def add: NENV_1024\<close>)
qed

text \<open>The whole of \<open>i386_init\<close>.\<close>

lemma i386_init_ok:
  assumes bt: "backtrace_text sm (im_stabs im) ebp = Some txt"
    and ok: "bootable cmos (im_end im) (cleared im m) d e" and b: "im_bootstack im = page_kva st" "st < 0x10000"
    and n: "512 dvd unat (npages (i386_detect_memory cmos (cleared im m)))"
    and prog: "program_ok (kmem (cleared im m)) (\<lambda>q. 256 \<le> q \<and> q < d)
      (unat (npages (i386_detect_memory cmos (cleared im m))) - (e + 92)) (im_hello im)"
  obtains m' x fl where "i386_init b vmem cmos im sm ebp m = Some (Inr (env_tf (envs (ek (tk m')) ! 0), m'))"
    "env_wf (ek (tk m')) [1..<NENV]" "loading (krn (ek (tk m'))) x fl" "program_in (kmem (cleared im m)) (im_hello im) (krn (ek (tk m'))) x"
    "curenv (ek (tk m')) = Some 0" "cr3 (hw (ek (tk m'))) = page2pa x" "env_id (envs (ek (tk m')) ! 0) = 0x1000"
    "env_pgdir (envs (ek (tk m')) ! 0) = page_kva x" "env_status (envs (ek (tk m')) ! 0) = ENV_RUNNING"
    "env_tf (envs (ek (tk m')) ! 0) = user_tf\<lparr>tf_eip := e_entry (read_Elf (kmem (cleared im m)) (im_hello im))\<rparr>"
    "kern_pgdir (krn (ek (tk m'))) = page_kva d" "sys_ok (ek (tk m'))" "panicstr m' = 0" "tr (tk m') = GD_TSS0"
proof -
  let ?e = "ek (tk (clear_bss im m))" and ?m = "kmem (cleared im m)" and ?h = "im_hello im"
  let ?c = "clear_bss im m\<lparr>con := cons_init b vmem (con (clear_bss im m))\<rparr>"
  have "test_backtrace (backtrace_text sm (im_stabs im) ebp) (of_nat 5) \<noteq> None" unfolding bt by (subst test_backtrace_nest) simp_all
  then obtain nest where nest: "test_backtrace (backtrace_text sm (im_stabs im) ebp) 5 = Some nest" by auto
  define m1 where "m1 = put_text b nest (put_text b (codes (lit ''6828 decimal is '') @ octal 6828 @ codes (lit '' octal!'' @ nl)) ?c)"
  have m1: "tk m1 = tk (clear_bss im m)" "panicstr m1 = 0" by (simp_all add: m1_def put_text_def clear_bss_def Let_def)
  obtain u fl hw' where u: "mem_init cmos (im_end im) (im_bootstack im) ?e = Some (Inr (?e\<lparr>krn := u, envs := replicate NENV zero_env, hw := hw'\<rparr>))"
    "memory_ready u d e st fl" "image_kept d fl (krn ?e) u"
    "unat (npages (i386_detect_memory cmos (cleared im m))) \<le> length fl + (e + 91)"
    using mem_init_result(1) [OF ok b(2) n] unfolding b(1) by blast
  define s where "s = ?e\<lparr>krn := u, envs := replicate NENV zero_env, hw := hw'\<rparr>"
  define s' where "s' = trap_init (im_handler im) (im_ts im) ((tk m1)\<lparr>ek := env_init s\<rparr>)"
  have s: "length (envs s) = NENV" "env_free_list s = None" "curenv s = None" "krn s = u"
    by (simp_all add: s_def clear_bss_simps del: NENV_def)
  have ag: "agree (\<lambda>q. 256 \<le> q \<and> q < d) ?m (kmem u)" using u(3) unfolding agree_def image_kept_def by blast
  have d: "d < 0x10000" using ok by (auto simp: bootable_def Let_def)
  have Q: "q < 0x10000 \<and> q \<notin> set fl" if "256 \<le> q \<and> q < d" for q using u(3) that d unfolding image_kept_def by auto
  have le: "unat (npages (i386_detect_memory cmos (cleared im m))) - (e + 92) \<le> length fl - 1" using u(4) by linarith
  have po: "program_ok (kmem (krn s)) (\<lambda>q. q < 0x10000 \<and> q \<notin> set fl) (length fl - 1) ?h"
    unfolding s(4) by (rule program_agree(3) [OF prog ag Q le])
  have elf: "read_Elf (kmem u) ?h = read_Elf ?m ?h" by (rule program_agree(1) [OF prog ag])
  obtain k x fl' t where f: "env_create ?h ENV_TYPE_USER (ek s') = Inr k" "env_run 0 k = Inr (env_tf (envs t ! 0), t)"
    "env_wf t [1..<NENV]" "loading (krn t) x fl'" "program_in (kmem (krn s)) ?h (krn t) x"
    "curenv t = Some 0" "cr3 (hw t) = page2pa x" "env_id (envs t ! 0) = 0x1000" "env_pgdir (envs t ! 0) = page_kva x"
    "env_status (envs t ! 0) = ENV_RUNNING" "env_tf (envs t ! 0) = user_tf\<lparr>tf_eip := e_entry (read_Elf (kmem (krn s)) ?h)\<rparr>"
    "kern_pgdir (krn t) = page_kva d" "sys_ok t"
    by (rule first_env [OF s(1,2,3) u(2) [folded s(4)] po s'_def])
  have s'_eq: "trap_init (im_handler im) (im_ts im) ((tk (clear_bss im m))\<lparr>ek := env_init s\<rparr>) = s'" by (simp add: s'_def m1(1))
  let ?m' = "m1\<lparr>tk := s'\<lparr>ek := t\<rparr>\<rparr>"
  show thesis
  proof (rule that [of ?m' x fl'])
    show "i386_init b vmem cmos im sm ebp m = Some (Inr (env_tf (envs (ek (tk ?m')) ! 0), ?m'))"
      using u(1) f(1,2) nest by (simp add: i386_init_def Let_def m1_def [symmetric] m1(1) s_def [symmetric] s'_eq del: NENV_def)
    show "program_in ?m ?h (krn (ek (tk ?m'))) x" using program_in_agree [OF prog ag] f(5) by (simp add: s(4))
    show "tr (tk ?m') = GD_TSS0" by (simp add: s'_def trap_init_def trap_init_percpu_def Let_def)
  qed (use f m1 elf s(4) in simp_all)
qed

text \<open>C2: the kernel boots. On a machine as for \<open>mem_init\<close>, with an executable in its image whose segments fit in the memory that is
  left, and with a chain of stack frames that ends, \<open>i386_init\<close> ends in \<open>env_run\<close>: the first environment is
  the current and the only one, the processor resumes at the entry point of the program on its stack, at user privilege and
  on its page directory, and the program's segments are in memory as the kernel's image held them when \<open>mem_init\<close> began. The invariant
  behind the isolation of environments holds.\<close>

theorem i386_init_spec:
  assumes "backtrace_text sm (im_stabs im) ebp = Some txt"
    and "bootable cmos (im_end im) (cleared im m) d e" and "im_bootstack im = page_kva st" and "st < 0x10000"
    and "512 dvd unat (npages (i386_detect_memory cmos (cleared im m)))"
    and "program_ok (kmem (cleared im m)) (\<lambda>q. 256 \<le> q \<and> q < d)
      (unat (npages (i386_detect_memory cmos (cleared im m))) - (e + 92)) (im_hello im)"
  shows "\<exists>tf m' x fl. i386_init b vmem cmos im sm ebp m = Some (Inr (tf, m')) \<and>
    env_wf (ek (tk m')) [1..<NENV] \<and> curenv (ek (tk m')) = Some 0 \<and>
    env_status (envs (ek (tk m')) ! 0) = ENV_RUNNING \<and> env_id (envs (ek (tk m')) ! 0) = 0x1000 \<and>
    sys_ok (ek (tk m')) \<and> frees (krn (ek (tk m'))) fl \<and> aspace (krn (ek (tk m'))) x \<and> cr3 (hw (ek (tk m'))) = page2pa x \<and>
    program_in (kmem (cleared im m)) (im_hello im) (krn (ek (tk m'))) x \<and>
    tf_eip tf = e_entry (read_Elf (kmem (cleared im m)) (im_hello im)) \<and> tf_esp tf = USTACKTOP \<and> tf_cs tf = ucast (GD_UT OR 3)"
proof (rule i386_init_ok [OF assms, of b vmem], goal_cases)
  case (1 m' x fl)
  note l = loadingD(1,2) [OF 1(3)]
  show ?case
    by (intro exI [of _ "env_tf (envs (ek (tk m')) ! 0)"] exI [of _ m'] exI [of _ x] exI [of _ fl])
       (use 1 l in \<open>simp add: user_tf_def del: NENV_def\<close>)
qed


text \<open>\<open>_panic\<close> prints its message once: the first call writes the place, the formatted message and the end of the line to the
  console and marks the kernel as panicked; any later call changes nothing before it enters the monitor.\<close>

theorem kern_panic_once:
  assumes "kern_panic b file line fmt ap m = Some m'" and "panicstr m = 0" and "fmt \<noteq> 0"
  shows "(\<exists>name n out. cstring (kmem (krn (ek (tk m)))) file (-1) = Some name \<and>
       kern_vcprintf (kmem (krn (ek (tk m)))) fmt ap [] = Some (n, out) \<and>
       m' = m\<lparr>panicstr := fmt, con := fold (cputchar b)
         (codes (lit ''kernel panic at '') @ name @ codes (lit '':'' @ decimal line @ lit '': '') @ out @ codes nl) (con m)\<rparr>) \<and>
     kern_panic b file' line' fmt' ap' m' = Some m'"
proof -
  have r: "report b ''panic'' file line fmt ap (m\<lparr>panicstr := fmt\<rparr>) = Some m'" using assms(1,2) by (simp add: kern_panic_def)
  then obtain name n out where o: "cstring (kmem (krn (ek (tk m)))) file (-1) = Some name"
    "kern_vcprintf (kmem (krn (ek (tk m)))) fmt ap [] = Some (n, out)"
    by (auto simp: report_def Let_def split: option.splits)
  hence "m' = m\<lparr>panicstr := fmt, con := fold (cputchar b)
         (codes (lit ''kernel panic at '') @ name @ codes (lit '':'' @ decimal line @ lit '': '') @ out @ codes nl) (con m)\<rparr>"
    using r by (simp add: report_def put_text_def Let_def) (simp add: codes_def lit_def)
  thus ?thesis using o assms(3) by (simp add: kern_panic_def)
qed

text \<open>A program that reads \<open>thisenv->env_id\<close>, 72 bytes into the structure, as \<open>user/hello\<close> does, does not get past it: \<open>libmain\<close>
  leaves the pointer 0, and nothing is mapped there.\<close>

lemma libmain_thisenv_fault:
  assumes "program_in mem binary k x" and "0 \<notin> (\<Union>ph \<in> set (program mem binary). seg_range ph)"
  shows "libmain (\<lambda>argc argv (l, w). if user_byte k x (thisenv l + 72) = None then None else Some (l, w)) kentry um argc argv s = None"
proof -
  have "unat (PGNUM 72) = 0" "stack_page \<noteq> 0" by (simp_all add: unat_PGNUM stack_page_def)
  moreover have "(72 :: u32) < UTOP" by simp
  ultimately have "user_byte k x 72 = None" using assms unfolding program_in_def by metis
  thus ?thesis by (simp add: libmain_def Let_def split: prod.split)
qed

section \<open>A machine that boots\<close>

text \<open>128 MB of memory and a kernel image that ends at 0xF0118000, with the executable of \<open>demo_image\<close> in page 270, a name of a file
  at 0xF010F000 and a message at 0xF010F010.\<close>

definition demo_boot_mem :: mem where
  "demo_boot_mem a = (if 0xF010E000 \<le> a \<and> a < 0xF010E058 then demo_image ! unat (a - 0xF010E000)
     else if a = 0xF010F000 then 102 else if a = 0xF010F010 then 33 else 0)"

definition demo_machine :: "u8 option list machine" where
  "demo_machine = \<lparr>tk = demo_tkern (demo_ekern\<lparr>krn := demo_start\<lparr>kmem := demo_boot_mem\<rparr>\<rparr>), con = demo_console [],
     cbuf = \<lparr>cons_buf = [], cons_rpos = 0, cons_wpos = 0\<rparr>, panicstr = 0\<rparr>"

definition demo_layout :: image where
  "demo_layout = \<lparr>im_edata = 0xF0117FF0, im_end = 0xF0118000, im_bootstack = page_kva 0x110, im_ts = 0xF0117FF0,
     im_hello = 0xF010E000, im_handler = (\<lambda>n. 0xF0103000 + 6 * of_nat n),
     im_stabs = \<lparr>ud_stabs = 0, ud_stab_end = 0, ud_stabstr = 0, ud_stabstr_end = 0\<rparr>\<rparr>"

lemma demo_cleared: "kmem (cleared demo_layout demo_machine) = demo_boot_mem"
proof -
  have "stosl demo_boot_mem 0xF0117FF0 0 (Suc (Suc (Suc (Suc 0)))) = demo_boot_mem"
    by (simp add: st32_def fun_upd_idem demo_boot_mem_def)
  moreover have "Suc (Suc (Suc (Suc 0))) = 4" by simp
  ultimately show ?thesis by (simp add: clear_bss_simps demo_layout_def demo_machine_def demo_tkern_def memset_def)
qed

lemma demo_boots: "bootable (demo_cmos False) (im_end demo_layout) (cleared demo_layout demo_machine) 280 345"
  by (simp add: bootable_def Let_def clear_bss_simps demo_detect demo_kend array_pages_def) (simp add: demo_layout_def demo_kend)

lemma demo_boot_program:
  "read_Elf demo_boot_mem 0xF010E000 = \<lparr>e_magic = ELF_MAGIC, e_entry = 0x800020, e_phoff = 52, e_phnum = 1\<rparr>"
  "program demo_boot_mem 0xF010E000 =
     [\<lparr>p_type = ELF_PROG_LOAD, p_offset = 0x54, p_va = 0x800020, p_pa = 0x800020, p_filesz = 4, p_memsz = 8\<rparr>]"
proof -
  show e: "read_Elf demo_boot_mem 0xF010E000 = \<lparr>e_magic = ELF_MAGIC, e_entry = 0x800020, e_phoff = 52, e_phnum = 1\<rparr>"
    by (simp add: read_Elf_def ld32_def ld16_def demo_boot_mem_def demo_image_def nth_append)
  have "read_Proghdr demo_boot_mem 0xF010E034 =
      \<lparr>p_type = ELF_PROG_LOAD, p_offset = 0x54, p_va = 0x800020, p_pa = 0x800020, p_filesz = 4, p_memsz = 8\<rparr>"
    by (simp add: read_Proghdr_def ld32_def demo_boot_mem_def demo_image_def nth_append)
  thus "program demo_boot_mem 0xF010E000 =
     [\<lparr>p_type = ELF_PROG_LOAD, p_offset = 0x54, p_va = 0x800020, p_pa = 0x800020, p_filesz = 4, p_memsz = 8\<rparr>]"
    by (simp add: program_def e)
qed

lemma demo_boot_ok: "program_ok demo_boot_mem (\<lambda>q. 256 \<le> q \<and> q < 280) (32768 - (345 + 92)) 0xF010E000"
proof -
  have st: "stored (\<lambda>q. 256 \<le> q \<and> q < 280) a n" if "unat a div 4096 = 0xF0000 + 270" "unat a mod 4096 + n \<le> 4096" for a n
    by (rule stored_page [of _ 270]) (use that in simp_all)
  show ?thesis
    unfolding program_ok_def Let_def demo_boot_program
    by (simp add: st seg_fits_def seg_pages_def npages_of_def seg_range_def stack_page_def unat_PGNUM)
qed

lemma demo_boot_hyps:
  "backtrace_text (\<lambda>_. 0) (im_stabs demo_layout) 0 = Some (codes (lit ''Stack backtrace:'' @ nl))"
  "im_bootstack demo_layout = page_kva 0x110"
  "512 dvd unat (npages (i386_detect_memory (demo_cmos False) (cleared demo_layout demo_machine)))"
  "program_ok (kmem (cleared demo_layout demo_machine)) (\<lambda>q. 256 \<le> q \<and> q < 280)
     (unat (npages (i386_detect_memory (demo_cmos False) (cleared demo_layout demo_machine))) - (345 + 92)) (im_hello demo_layout)"
  using demo_boot_ok mon_backtrace.simps [of "\<lambda>_. 0" _ 0]
  by (simp_all add: demo_cleared demo_detect backtrace_text_def) (simp_all add: demo_layout_def)

theorem i386_init_spec_witness:
  "\<exists>tf m' x. i386_init demo_bus (\<lambda>_ _. 0) (demo_cmos False) demo_layout (\<lambda>_. 0) 0 demo_machine = Some (Inr (tf, m')) \<and>
     tf_eip tf = 0x800020 \<and> curenv (ek (tk m')) = Some 0 \<and> user_byte (krn (ek (tk m'))) x 0x800024 = Some 0"
proof -
  obtain tf m' x where r: "i386_init demo_bus (\<lambda>_ _. 0) (demo_cmos False) demo_layout (\<lambda>_. 0) 0 demo_machine = Some (Inr (tf, m'))"
    "curenv (ek (tk m')) = Some 0" "program_in demo_boot_mem 0xF010E000 (krn (ek (tk m'))) x" "tf_eip tf = 0x800020"
    using i386_init_spec [OF demo_boot_hyps(1) demo_boots demo_boot_hyps(2) _ demo_boot_hyps(3,4), of demo_bus "\<lambda>_ _. 0"]
    unfolding demo_cleared by (auto simp: demo_layout_def demo_boot_program)
  have "user_byte (krn (ek (tk m'))) x 0x800024 = Some 0"
    using r(3) unfolding program_in_def demo_boot_program by (simp add: between_def seg_byte_def)
  thus ?thesis using r by blast
qed


theorem kern_panic_once_witness:
  "\<exists>m'. kern_panic demo_bus 0xF010F000 42 0xF010F010 0 demo_machine = Some m' \<and> panicstr m' = 0xF010F010 \<and>
     kern_panic demo_bus 0xF010F000 43 0xF010F010 0 m' = Some m'"
proof -
  have n: "cstring demo_boot_mem 0xF010F000 (-1) = Some [102]"
    by (simp add: cstring_def put_string_def put_chars.simps demo_boot_mem_def)
  have o: "kern_vcprintf demo_boot_mem 0xF010F010 0 [] = Some (0, [33])"
    by (simp add: kern_vcprintf_def vprintfmt_def vprintfmt_loop.simps demo_boot_mem_def kern_putch_def byte_def)
  have k: "kmem (krn (ek (tk demo_machine))) = demo_boot_mem" "panicstr demo_machine = 0" by (simp_all add: demo_machine_def demo_tkern_def)
  obtain m' where m: "kern_panic demo_bus 0xF010F000 42 0xF010F010 0 demo_machine = Some m'"
    by (simp add: kern_panic_def k report_def n o Let_def)
  show ?thesis using kern_panic_once [OF m k(2), of "0xF010F000" 43 "0xF010F010" 0] m by auto
qed

end
