(* ===== verification/Jos_EntryPgdir.thy ===== *)
theory Jos_EntryPgdir
  imports Jos_MemInit
begin

text \<open>
  \<open>kern/entrypgdir.c\<close>: the page directory and the page table that \<open>entry.S\<close> loads before any C code runs, what they map, and
  that the kernel finds itself at the same physical addresses when \<open>mem_init\<close> installs its own directory.
\<close>

section \<open>The tables\<close>

text \<open>\<open>pgtable\<close> is the link address of \<open>entry_pgtable\<close>.\<close>

definition entry_pgdir :: "u32 \<Rightarrow> u32 list" where
  "entry_pgdir pgtable =
     (replicate (unat NPDENTRIES) 0)
       [0 := (pgtable - KERNBASE) + PTE_P,
        unat (drop_bit PDXSHIFT KERNBASE) := (pgtable - KERNBASE) + PTE_P + PTE_W]"

definition entry_pgtable :: "u32 list" where
  "entry_pgtable = map (\<lambda>i. of_nat i * 0x1000 OR PTE_P OR PTE_W) [0..<unat NPTENTRIES]"

text \<open>The walk of the processor: \<open>tables\<close> gives the table at a physical address, \<open>root\<close> is the contents of \<open>%cr3\<close>. The result is the physical address and
  whether it may be written.\<close>

definition translate :: "(u32 \<Rightarrow> u32 list) \<Rightarrow> u32 \<Rightarrow> u32 \<Rightarrow> (u32 \<times> bool) option" where
  "translate tables root va =
     (let pde = tables root ! unat (PDX va) in
      if \<not> present pde then None
      else
        let pte = tables (PTE_ADDR pde) ! unat (PTX va) in
        if \<not> present pte then None
        else Some (PTE_ADDR pte + PGOFF va, pde AND PTE_W \<noteq> 0 \<and> pte AND PTE_W \<noteq> 0))"

section \<open>What they map\<close>

lemma entry_pgtable_nth: "i < 1024 \<Longrightarrow> entry_pgtable ! i = of_nat i * 0x1000 OR 3"
  by (simp add: entry_pgtable_def or.assoc)

lemma aligned_and_flags:
  fixes pa f :: u32
  assumes "4096 dvd unat pa" and "f < 4096"
  shows "pa AND f = 0"
proof (rule bit_word_eqI)
  fix n assume "n < LENGTH(32)"
  have "pa AND mask 12 = 0" using assms(1) by (simp add: word_unat_eq_iff unat_and_mask dvd_imp_mod_0)
  hence "\<not> bit (pa AND mask 12) n" by simp
  moreover have "n < 12" if "bit f n" using bit_word_lessD [OF that, of 12] assms(2) by simp
  ultimately show "bit (pa AND f) n = bit (0 :: u32) n" by (auto simp: bit_simps)
qed

lemma aligned_flags:
  fixes pa f :: u32
  assumes "4096 dvd unat pa" and "f < 4096"
  shows "pa + f = pa OR f" and "PTE_ADDR (pa OR f) = pa" and "present (pa OR f) = present f" and "(pa OR f) AND PTE_W = f AND PTE_W"
proof -
  show "pa + f = pa OR f" by (rule disjunctive_add_eq_or) (rule aligned_and_flags [OF assms])
  show "PTE_ADDR (pa OR f) = pa" by (rule PTE_ADDR_or_flags [OF assms])
  have "(pa OR f) AND c = f AND c" if "c < 4096" for c
    using aligned_and_flags [OF assms(1) that] by (simp add: bit.conj_disj_distrib2)
  thus "present (pa OR f) = present f" "(pa OR f) AND PTE_W = f AND PTE_W" by (simp_all add: present_def)
qed

lemma entry_pgtable_entry:
  assumes "i < 1024"
  shows "present (entry_pgtable ! i)" and "entry_pgtable ! i AND PTE_W \<noteq> 0" and "PTE_ADDR (entry_pgtable ! i) = of_nat i * 0x1000"
proof -
  have "4096 dvd unat (of_nat i * 0x1000 :: u32)" using assms by (simp add: unat_word_ariths unat_of_nat)
  note fl = aligned_flags [OF this, of 3]
  show "present (entry_pgtable ! i)" "entry_pgtable ! i AND PTE_W \<noteq> 0" "PTE_ADDR (entry_pgtable ! i) = of_nat i * 0x1000"
    using entry_pgtable_nth [OF assms] fl by (simp_all add: present_def)
qed

lemma entry_pgdir_nth:
  "i < 1024 \<Longrightarrow> entry_pgdir p ! i = (if i = 0 then p - KERNBASE + 1 else if i = 960 then p - KERNBASE + 3 else 0)"
  by (simp add: entry_pgdir_def nth_list_update)

lemma table_offset: "(of_nat (unat (PTX va)) * 0x1000 :: u32) + PGOFF va = va - PDX va * 0x400000"
proof -
  have "unat va = unat va div 0x400000 * 0x400000 + (unat va div 4096 mod 1024 * 4096 + unat va mod 4096)"
    using div_mult_mod_eq [of "unat va" 4096] div_mult_mod_eq [of "unat va div 4096" 1024]
      div_mult2_eq [of "unat va" 4096 1024, simplified] by linarith
  hence "word_of_nat (unat va) = (word_of_nat (unat (PDX va) * 0x400000 + (unat (PTX va) * 4096 + unat (PGOFF va))) :: u32)"
    by (simp add: unat_simps)
  thus ?thesis by (simp add: algebra_simps)
qed

lemma translate_entry_table:
  assumes tab: "tables root = entry_pgdir p" "tables (p - KERNBASE) = entry_pgtable" and p: "4096 dvd unat (p - KERNBASE)"
  shows "translate tables root va =
    (if PDX va = 0 then Some (va, False) else if PDX va = 960 then Some (va - KERNBASE, True) else None)"
proof -
  have i: "unat (PDX va) < 1024" "unat (PTX va) < 1024" using unat_lt_2p32 [of va] by (simp_all add: unat_simps div_less_iff_less_mult)
  have c: "unat (PDX va) = 0 \<longleftrightarrow> PDX va = 0" "unat (PDX va) = 960 \<longleftrightarrow> PDX va = 960"
    by (auto simp: word_unat_eq_iff)
  have e: "tables root ! unat (PDX va) = (if PDX va = 0 then (p - KERNBASE) OR 1 else if PDX va = 960 then (p - KERNBASE) OR 3 else 0)"
    using entry_pgdir_nth [OF i(1), of p] c aligned_flags(1) [OF p, of 1] aligned_flags(1) [OF p, of 3] tab(1) by simp
  note f = aligned_flags(2-4) [OF p]
  have pos: "(of_nat (unat (PTX va)) * 0x1000 :: u32) + PGOFF va = va - PDX va * 0x400000" by (rule table_offset)
  show ?thesis
    using e f [of 1] f [of 3] entry_pgtable_entry [OF i(2)] tab(2) pos by (simp add: translate_def Let_def present_def)
qed

lemma PDX_0_iff: "PDX va = 0 \<longleftrightarrow> va < PTSIZE"
  by (simp add: word_unat_eq_iff word_less_nat_alt unat_PDX div_eq_0_iff)

lemma PDX_960_iff: "PDX va = 960 \<longleftrightarrow> KERNBASE \<le> va \<and> va < KERNBASE + PTSIZE"
proof -
  have "unat va div 0x400000 = 960 \<longleftrightarrow> 960 * 0x400000 \<le> unat va \<and> unat va < 961 * 0x400000"
    by (simp add: div_nat_eqI dividend_less_div_times flip: less_eq_div_iff_mult_less_eq) linarith
  thus ?thesis by (simp add: word_unat_eq_iff word_less_nat_alt word_le_nat_alt unat_PDX)
qed

text \<open>C39: through the first directory the processor finds the first 4 MB of physical memory twice: read-only from address 0
  on, writable from \<open>KERNBASE\<close> on; every other address faults.\<close>

theorem entry_pgdir_maps:
  assumes "tables root = entry_pgdir p" and "tables (p - KERNBASE) = entry_pgtable" and "4096 dvd unat (p - KERNBASE)"
  shows "translate tables root va =
    (if va < PTSIZE then Some (va, False)
     else if KERNBASE \<le> va \<and> va < KERNBASE + PTSIZE then Some (va - KERNBASE, True) else None)"
  using translate_entry_table [OF assms] unfolding PDX_0_iff PDX_960_iff .

definition demo_tables :: "u32 \<Rightarrow> u32 list" where
  "demo_tables pa = (if pa = 0x113000 then entry_pgdir 0xF0114000 else entry_pgtable)"

lemma demo_tables: "demo_tables 0x113000 = entry_pgdir 0xF0114000" "demo_tables (0xF0114000 - KERNBASE) = entry_pgtable"
  "4096 dvd unat (0xF0114000 - KERNBASE)"
  by (simp_all add: demo_tables_def)

theorem entry_pgdir_maps_witness:
  "translate demo_tables 0x113000 0xF0100040 = Some (0x100040, True) \<and> translate demo_tables 0x113000 0x400000 = None"
  using entry_pgdir_maps [OF demo_tables, of "0xF0100040"] entry_pgdir_maps [OF demo_tables, of "0x400000"] by simp

section \<open>From the first tables to those of mem_init\<close>

lemma nth_page_of:
  assumes "KERNBASE \<le> va"
  defines "k \<equiv> unat (va - KERNBASE) div 4096"
  shows "k < 0x10000" and "PDX (nth_page KERNBASE k) = PDX va" and "PTX (nth_page KERNBASE k) = PTX va"
    and "of_nat k * PGSIZE + PGOFF va = va - KERNBASE"
proof -
  have v: "unat (va - KERNBASE) = unat va - unat KERNBASE" "unat KERNBASE \<le> unat va" "unat va < 2 ^ 32"
    using assms(1) unat_lt_2p32 [of va] by (simp_all add: word_le_nat_alt unat_sub)
  have "unat va < 4294967296" by (rule unat_lt_2p32 [of va, THEN less_le_trans]) simp
  moreover have "unat KERNBASE = 4026531840" by simp
  ultimately have "unat va - unat KERNBASE < 0x10000000" by linarith
  thus k: "k < 0x10000" using v(1) by (simp add: k_def div_less_iff_less_mult)
  have u: "unat va = unat (va - KERNBASE) + 983040 * 4096" using v(1,2) by simp
  have o: "unat (PGOFF va) = unat (va - KERNBASE) mod 4096" unfolding unat_PGOFF u by (rule mod_mult_self1)
  have "word_of_nat (unat (va - KERNBASE)) = (word_of_nat (k * 4096 + unat (PGOFF va)) :: u32)" unfolding o k_def by simp
  thus e: "of_nat k * PGSIZE + PGOFF va = va - KERNBASE" by simp
  have "unat (nth_page KERNBASE k) = 0xF0000000 + k * 4096" using k by (simp add: nth_page_def unat_word_ariths unat_of_nat)
  moreover have "unat va div 4096 = 983040 + k" unfolding u k_def by (rule div_mult_self1) simp
  ultimately have "PGNUM (nth_page KERNBASE k) = PGNUM va" by (simp add: word_unat_eq_iff unat_PGNUM)
  thus "PDX (nth_page KERNBASE k) = PDX va" "PTX (nth_page KERNBASE k) = PTX va" by (simp_all add: page_eq_iff)
qed

lemma kernel_window:
  assumes r: "memory_ready s d e b fl" and va: "KERNBASE \<le> va"
  shows "\<exists>pte. entry s d (PDX va) (PTX va) = Some pte \<and> PTE_ADDR pte + PGOFF va = va - KERNBASE \<and> pte AND PTE_W \<noteq> 0"
proof -
  let ?k = "unat (va - KERNBASE) div 4096"
  note k = nth_page_of [OF va]
  have "region s d KERNBASE 0x10000 0 (PTE_W OR PTE_P)" using r by (simp add: memory_ready_def kernel_maps_def)
  hence e: "entry s d (PDX va) (PTX va) = Some ((0 + of_nat ?k * PGSIZE) OR (PTE_W OR PTE_P) OR PTE_P)"
    unfolding region_def using k(1-3) by metis
  have "4096 dvd unat (of_nat ?k * PGSIZE)" using k(1) by (simp add: unat_word_ariths unat_of_nat)
  note f = aligned_flags [OF this, of 3]
  show ?thesis using e f k(4) by (simp add: or.assoc)
qed



end
