(* ===== verification/Jos_Boot.thy ===== *)
theory Jos_Boot
  imports Jos_Console Jos_Env
begin

text \<open>
  The boot loader: \<open>boot/main.c\<close>. Paging is off: addresses are physical. The disk controller is a
  parameter: the bus of the console with the effect of \<open>insl\<close>, which gives 32-bit words. A loop that
  waits for the disk is a \<open>partial_function\<close>.
\<close>

record 'd disk_bus =
  dbus :: "'d bus"
  insl :: "u32 \<Rightarrow> nat \<Rightarrow> 'd \<Rightarrow> u32 list \<times> 'd"

definition SECTSIZE :: u32 where [simp]: "SECTSIZE = 512"
definition ELFHDR :: u32 where [simp]: "ELFHDR = 0x10000"

partial_function (option) waitdisk :: "'d disk_bus \<Rightarrow> 'd \<Rightarrow> 'd option" where
  "waitdisk b d =
     (let (st, d) = inb (dbus b) 0x1F7 d in if st AND 0xC0 \<noteq> 0x40 then waitdisk b d else Some d)"

fun store_words :: "mem \<Rightarrow> u32 \<Rightarrow> u32 list \<Rightarrow> mem" where
  "store_words m a [] = m"
| "store_words m a (w # ws) = store_words (st32 m a w) (a + 4) ws"

definition read_command :: "'d disk_bus \<Rightarrow> u32 \<Rightarrow> 'd \<Rightarrow> 'd" where
  "read_command b offset d =
     (let d = outb (dbus b) 0x1F2 1 d;
          d = outb (dbus b) 0x1F3 (ucast offset) d;
          d = outb (dbus b) 0x1F4 (ucast (drop_bit 8 offset)) d;
          d = outb (dbus b) 0x1F5 (ucast (drop_bit 16 offset)) d;
          d = outb (dbus b) 0x1F6 (ucast (drop_bit 24 offset) OR 0xE0) d
      in outb (dbus b) 0x1F7 0x20 d)"

definition readsect :: "'d disk_bus \<Rightarrow> u32 \<Rightarrow> u32 \<Rightarrow> mem \<times> 'd \<Rightarrow> (mem \<times> 'd) option" where
  "readsect b dst offset s =
     (case s of (m, d) \<Rightarrow>
        (case waitdisk b d of
           None \<Rightarrow> None
         | Some d \<Rightarrow>
             (case waitdisk b (read_command b offset d) of
                None \<Rightarrow> None
              | Some d \<Rightarrow>
                  (let (ws, d) = insl b 0x1F0 (unat (SECTSIZE div 4)) d in Some (store_words m dst ws, d)))))"

partial_function (option) readseg_loop :: "'d disk_bus \<Rightarrow> u32 \<Rightarrow> u32 \<Rightarrow> u32 \<Rightarrow> mem \<times> 'd \<Rightarrow> (mem \<times> 'd) option" where
  "readseg_loop b pa end_pa offset s =
     (if pa < end_pa then
        (case readsect b pa offset s of
           None \<Rightarrow> None
         | Some s \<Rightarrow> readseg_loop b (pa + SECTSIZE) end_pa (offset + 1) s)
      else Some s)"

definition readseg :: "'d disk_bus \<Rightarrow> u32 \<Rightarrow> u32 \<Rightarrow> u32 \<Rightarrow> mem \<times> 'd \<Rightarrow> (mem \<times> 'd) option" where
  "readseg b pa count offset s =
     (let end_pa = pa + count;
          pa = pa AND NOT (SECTSIZE - 1);
          offset = offset div SECTSIZE + 1
      in readseg_loop b pa end_pa offset s)"

fun load_phdrs :: "nat \<Rightarrow> 'd disk_bus \<Rightarrow> u32 \<Rightarrow> u32 \<Rightarrow> mem \<times> 'd \<Rightarrow> (mem \<times> 'd) option" where
  "load_phdrs 0 b ph eph s = Some s"
| "load_phdrs (Suc n) b ph eph s =
     (if ph < eph then
        (let p = read_Proghdr (fst s) ph in
         case readseg b (p_pa p) (p_memsz p) (p_offset p) s of
           None \<Rightarrow> None
         | Some s \<Rightarrow> load_phdrs n b (ph + 32) eph s)
      else Some s)"

text \<open>The result is the address that control goes to, or \<open>None\<close> at \<open>bad\<close>, where the loader stops.\<close>

definition bootmain :: "'d disk_bus \<Rightarrow> mem \<times> 'd \<Rightarrow> (u32 option \<times> mem \<times> 'd) option" where
  "bootmain b s =
     (case readseg b ELFHDR (SECTSIZE * 8) 0 s of
        None \<Rightarrow> None
      | Some s \<Rightarrow>
          (let elf = read_Elf (fst s) ELFHDR in
           if e_magic elf \<noteq> ELF_MAGIC then Some (None, s)
           else
             (let ph = ELFHDR + e_phoff elf; eph = ph + 32 * ucast (e_phnum elf) in
              case load_phdrs (unat (e_phnum elf)) b ph eph s of
                None \<Rightarrow> None
              | Some s \<Rightarrow> Some (Some (e_entry (read_Elf (fst s) ELFHDR)), s))))"

section \<open>Loading from the disk\<close>

text \<open>\<open>sect\<close> is the contents of the disk by sectors. The disk becomes ready whenever it is waited for, and after
  a read command for a sector (whose number has 28 bits) it delivers the words of that sector.\<close>

definition le_words :: "(nat \<Rightarrow> u8) \<Rightarrow> nat \<Rightarrow> u32 list" where
  "le_words f n = map (\<lambda>i. ucast (f (4 * i)) OR push_bit 8 (ucast (f (4 * i + 1)))
     OR push_bit 16 (ucast (f (4 * i + 2))) OR push_bit 24 (ucast (f (4 * i + 3)))) [0..<n]"

definition serves :: "'d disk_bus \<Rightarrow> (u32 \<Rightarrow> nat \<Rightarrow> u8) \<Rightarrow> bool" where
  "serves b sect \<longleftrightarrow>
     (\<forall>d. \<exists>d'. waitdisk b d = Some d') \<and>
     (\<forall>sec d d'. sec < 2 ^ 28 \<longrightarrow> waitdisk b (read_command b sec d) = Some d' \<longrightarrow>
        fst (insl b 0x1F0 128 d') = le_words (sect sec) 128)"

lemma store_word_bytes:
  fixes b0 b1 b2 b3 :: u8
  shows "st32 m a (ucast b0 OR push_bit 8 (ucast b1) OR push_bit 16 (ucast b2) OR push_bit 24 (ucast b3)) =
     m(a := b0, a + 1 := b1, a + 2 := b2, a + 3 := b3)"
proof -
  let ?w = "ucast b0 OR push_bit 8 (ucast b1) OR push_bit 16 (ucast b2) OR push_bit 24 (ucast b3) :: u32"
  have "ucast ?w = b0" "ucast (drop_bit 8 ?w) = b1" "ucast (drop_bit 16 ?w) = b2" "ucast (drop_bit 24 ?w) = b3"
    by (rule bit_word_eqI, auto simp: bit_simps dest: bit_imp_le_length)+
  thus ?thesis by (simp add: st32_def)
qed

lemma le_words_Suc:
  "le_words f (Suc n) = (ucast (f 0) OR push_bit 8 (ucast (f 1)) OR push_bit 16 (ucast (f 2)) OR push_bit 24 (ucast (f 3))) #
     le_words (\<lambda>i. f (4 + i)) n"
  by (simp add: le_words_def upt_conv_Cons map_Suc_upt [symmetric] comp_def eval_nat_numeral del: upt_Suc)

lemma bytes_4: "map f [0..<4 * Suc n] = f 0 # f 1 # f 2 # f 3 # map (\<lambda>i. f (4 + i)) [0..<4 * n]"
proof -
  have "[0..<4 * Suc n] = [0, 1, 2, 3] @ [4..<4 + 4 * n]" by (simp add: upt_conv_Cons eval_nat_numeral)
  also have "[4..<4 + 4 * n] = map (\<lambda>i. i + 4) [0..<4 * n]" using map_add_upt [of 4 "4 * n"] by (simp add: add.commute)
  finally show ?thesis by (simp add: comp_def add.commute)
qed

lemma store_words_put: "store_words m a (le_words f n) = put m a (map f [0..<4 * n])"
proof (induction n arbitrary: m a f)
  case (Suc n)
  show ?case
    unfolding le_words_Suc bytes_4 using Suc.IH [of _ "a + 4" "\<lambda>i. f (4 + i)"]
    by (simp add: store_word_bytes add.assoc fun_upd_def)
qed (simp add: le_words_def)

lemma readsect_serves:
  assumes "serves b sect" and "sec < 2 ^ 28"
  obtains d' where "readsect b dst sec (m, d) = Some (put m dst (map (sect sec) [0..<512]), d')"
proof -
  obtain d1 where d1: "waitdisk b d = Some d1" using assms(1) unfolding serves_def by blast
  obtain d2 where d2: "waitdisk b (read_command b sec d1) = Some d2" using assms(1) unfolding serves_def by blast
  have w: "fst (insl b 0x1F0 128 d2) = le_words (sect sec) 128" using assms d2 unfolding serves_def by blast
  have "readsect b dst sec (m, d) = Some (put m dst (map (sect sec) [0..<512]), snd (insl b 0x1F0 128 d2))"
    using d1 d2 store_words_put [of m dst "sect sec" 128]
    by (simp add: readsect_def case_prod_unfold w del: upt_rec_numeral)
  thus ?thesis by (rule that)
qed

text \<open>\<open>n\<close> sectors are read when the end lies in the \<open>n\<close>th.\<close>

lemma readseg_loop_loads:
  assumes "serves b sect"
  shows "unat e \<le> unat pa + 512 * n \<Longrightarrow> unat pa + 512 * n < unat e + 512 \<Longrightarrow> unat pa + 512 * n < 2 ^ 32 \<Longrightarrow>
     unat sec + n \<le> 2 ^ 28 \<Longrightarrow>
     \<exists>m' d'. readseg_loop b pa e sec (m, d) = Some (m', d') \<and>
       (\<forall>x. m' x = (if unat pa \<le> unat x \<and> unat x < unat pa + 512 * n
          then sect (of_nat (unat sec + (unat x - unat pa) div 512)) ((unat x - unat pa) mod 512) else m x))"
proof (induction n arbitrary: pa sec m d)
  case 0
  hence "\<not> pa < e" by (simp add: word_less_nat_alt)
  thus ?case by (subst readseg_loop.simps) auto
next
  case (Suc n)
  have lt: "pa < e" using Suc.prems(2) by (simp add: word_less_nat_alt)
  have "sec < 2 ^ 28" using Suc.prems(4) by (simp add: word_less_nat_alt)
  obtain d1 where d1: "readsect b pa sec (m, d) = Some (put m pa (map (sect sec) [0..<512]), d1)"
    by (rule readsect_serves [OF assms \<open>sec < 2 ^ 28\<close>])
  let ?m = "put m pa (map (sect sec) [0..<512])"
  have u: "unat (pa + 512) = unat pa + 512" "unat (sec + 1) = unat sec + 1"
    using Suc.prems(3,4) by (simp_all add: unat_add_no_carry)
  obtain m' d' where r: "readseg_loop b (pa + 512) e (sec + 1) (?m, d1) = Some (m', d')"
    "\<And>x. m' x = (if unat pa + 512 \<le> unat x \<and> unat x < unat pa + 512 + 512 * n
          then sect (of_nat (unat sec + 1 + (unat x - (unat pa + 512)) div 512)) ((unat x - (unat pa + 512)) mod 512) else ?m x)"
    using Suc.IH [of "pa + 512" "sec + 1" ?m d1] Suc.prems unfolding u by (auto simp: algebra_simps)
  have "readseg_loop b pa e sec (m, d) = Some (m', d')"
    using lt d1 r(1) by (subst readseg_loop.simps) (simp del: upt_rec_numeral)
  moreover have "m' x = (if unat pa \<le> unat x \<and> unat x < unat pa + 512 * Suc n
      then sect (of_nat (unat sec + (unat x - unat pa) div 512)) ((unat x - unat pa) mod 512) else m x)" for x
  proof -
    have mx: "?m x = (if unat pa \<le> unat x \<and> unat x < unat pa + 512 then sect sec (unat x - unat pa) else m x)"
      using put_nth [of "map (sect sec) [0..<512]" m pa x] Suc.prems(3) unat_sub_if' [of x pa] unat_lt_2p32 [of x]
      by (auto simp del: upt_rec_numeral unat_lt_2p32)
    show ?thesis
    proof (cases "unat pa + 512 \<le> unat x")
      case True
      define k where "k = unat x - (unat pa + 512)"
      have "unat x - unat pa = k + 512" using True by (simp add: k_def)
      moreover have "(k + 512) div 512 = Suc (k div 512)" by simp
      ultimately show ?thesis using True r(2) [of x] mx by (auto simp: k_def [symmetric] ac_simps)
    next
      case False
      thus ?thesis using r(2) [of x] mx by auto
    qed
  qed
  ultimately show ?case by blast
qed

section \<open>Properties\<close>

text \<open>C35: \<open>readseg\<close> loads a segment. When the disk serves reads and the segment ends at least one sector before the end of
  the address space and starts at the same offset within a sector as in the kernel image, byte \<open>i\<close> of the
  segment is byte \<open>offset + i\<close> of the image, which starts at sector 1. Outside the sectors that contain the
  segment memory is unchanged.\<close>

theorem readseg_loads:
  assumes "serves b sect" and "unat pa + unat count + 512 \<le> 2 ^ 32" and "unat pa mod 512 = unat offset mod 512"
  shows "\<exists>m' d'. readseg b pa count offset (m, d) = Some (m', d') \<and>
     (\<forall>i < unat count. m' (pa + of_nat i) =
        sect (of_nat (1 + (unat offset + i) div 512)) ((unat offset + i) mod 512)) \<and>
     (\<forall>x. unat x div 512 < unat pa div 512 \<or> unat pa + unat count \<le> unat x - unat x mod 512 \<longrightarrow> m' x = m x)"
proof -
  let ?a = "pa AND NOT (SECTSIZE - 1)" and ?sec = "offset div SECTSIZE + 1"
  define A E P where "A = unat pa - unat pa mod 512" and "E = unat pa + unat count" and "P = unat pa mod 512"
  define n where "n = (E - A + 511) div 512"
  have a: "unat ?a = A" using unat_and_not_mask [of pa 9] by (simp add: A_def mask_eq_exp_minus_1)
  have AP: "unat pa = A + P" "P < 512" by (simp_all add: A_def P_def)
  have e: "unat (pa + count) = E" unfolding E_def using assms(2) by (intro unat_add_no_carry) simp
  have "unat (offset div SECTSIZE) = unat offset div 512" by (simp add: unat_div)
  moreover have "unat offset div 512 < 2 ^ 23" using unat_lt_2p32 [of offset] by (simp add: div_less_iff_less_mult del: unat_lt_2p32)
  ultimately have sec: "unat ?sec = unat offset div 512 + 1" "unat offset div 512 < 2 ^ 23" by (simp_all add: unat_add_no_carry)
  have n: "E \<le> A + 512 * n" "A + 512 * n < E + 512" "A + 512 * n < 2 ^ 32" using assms(2) AP unfolding n_def E_def by linarith+
  have "n < 2 ^ 23" using n(3) by simp
  hence "unat ?sec + n \<le> 2 ^ 28" using sec by simp
  from readseg_loop_loads [OF assms(1), of "pa + count" ?a n ?sec m d, unfolded a e, OF n this] obtain m' d' where
    r: "readseg_loop b ?a (pa + count) ?sec (m, d) = Some (m', d')"
      "\<And>x. m' x = (if A \<le> unat x \<and> unat x < A + 512 * n
         then sect (of_nat (unat ?sec + (unat x - A) div 512)) ((unat x - A) mod 512) else m x)" by blast
  have "m' (pa + of_nat i) = sect (of_nat (1 + (unat offset + i) div 512)) ((unat offset + i) mod 512)" if i: "i < unat count" for i
  proof -
    have "unat (of_nat i :: u32) = i" using i assms(2) by (intro unat_of_nat_small) simp
    hence x: "unat (pa + of_nat i) = A + (P + i)" using i assms(2) AP by (subst unat_add_no_carry) simp_all
    have "(unat offset + i) div 512 = unat offset div 512 + (P + i) div 512 \<and> (unat offset + i) mod 512 = (P + i) mod 512"
    proof -
      have "unat offset = P + 512 * (unat offset div 512)" using assms(3) mult_div_mod_eq [of 512 "unat offset"] unfolding P_def by linarith
      hence "unat offset + i = (P + i) + 512 * (unat offset div 512)" by linarith
      thus ?thesis by (metis add.commute div_mult_self2 mod_mult_self2 zero_neq_numeral)
    qed
    thus ?thesis using r(2) [of "pa + of_nat i"] i n AP unfolding x sec E_def by (simp add: add.assoc)
  qed
  moreover have "m' x = m x" if "unat x div 512 < unat pa div 512 \<or> E \<le> unat x - unat x mod 512" for x
  proof -
    have dm: "unat y - unat y mod 512 = 512 * (unat y div 512)" for y :: u32 by (simp add: minus_mod_eq_mult_div)
    have "A = 512 * (unat pa div 512)" unfolding A_def dm ..
    moreover have "512 * q + r < 512 * p \<or> 512 * p + 512 * n \<le> 512 * q + r"
      if "q < p \<or> E \<le> 512 * q" "512 * p + 512 * n < E + 512" "r < 512" for q p r
    proof (cases "q < p")
      case False
      hence "E \<le> 512 * q" using that(1) by blast
      hence "512 * (p + n) < 512 * (q + 1)" using that(2) by (simp add: distrib_left)
      hence "p + n \<le> q" by simp
      hence "512 * p + 512 * n \<le> 512 * q" by linarith
      thus ?thesis by linarith
    qed (use that(3) in linarith)
    from this [of "unat x div 512" "unat pa div 512" "unat x mod 512"]
    have "unat x < 512 * (unat pa div 512) \<or> 512 * (unat pa div 512) + 512 * n \<le> unat x"
      using that n(2) unfolding dm calculation by simp
    ultimately have "unat x < A \<or> A + 512 * n \<le> unat x" by simp
    thus ?thesis using r(2) [of x] by auto
  qed
  ultimately show ?thesis using r(1) unfolding readseg_def Let_def E_def by blast
qed

text \<open>A disk that is always ready; its state is the number of the sector asked for last.\<close>

definition demo_disk :: "(u32 \<Rightarrow> nat \<Rightarrow> u8) \<Rightarrow> u32 disk_bus" where
  "demo_disk sect = \<lparr>dbus = \<lparr>inb = (\<lambda>p d. (0x40, d)),
     outb = (\<lambda>p v d. if p = 0x1F3 then ucast v else if p = 0x1F4 then d OR push_bit 8 (ucast v)
        else if p = 0x1F5 then d OR push_bit 16 (ucast v) else if p = 0x1F6 then d OR push_bit 24 (ucast (v AND 0xF)) else d),
     readback = (\<lambda>v. v)\<rparr>,
     insl = (\<lambda>p n d. (le_words (sect d) n, d))\<rparr>"

lemma demo_disk_serves: "serves (demo_disk sect) sect"
proof -
  have w: "waitdisk (demo_disk sect) d = Some d" for d
    by (subst waitdisk.simps) (simp add: demo_disk_def)
  have "read_command (demo_disk sect) sec d = sec" if "sec < 2 ^ 28" for sec d
  proof (rule bit_word_eqI)
    fix i assume i: "i < LENGTH(32)"
    have "i - 24 < 4" if "bit sec i" using bit_word_lessD [of sec i 28] \<open>sec < 2 ^ 28\<close> that by simp
    moreover have "(x OR 0xE0) AND 0xF = x AND mask 4" for x :: u8
      by (simp add: bit.conj_disj_distrib2 mask_eq_exp_minus_1)
    ultimately show "bit (read_command (demo_disk sect) sec d) i = bit sec i"
      using i by (auto simp: read_command_def demo_disk_def Let_def bit_simps dest: bit_imp_le_length)
  qed
  thus ?thesis unfolding serves_def by (auto simp: w) (simp add: demo_disk_def)
qed

theorem readseg_loads_witness:
  "\<exists>m' d'. readseg (demo_disk (\<lambda>s i. of_nat i)) 0x10004 8 4 ((\<lambda>_. 0), 0) = Some (m', d') \<and> m' 0x10005 = 5"
proof -
  have "unat (0x10004 :: u32) + unat (8 :: u32) + 512 \<le> 2 ^ 32" "unat (0x10004 :: u32) mod 512 = unat (4 :: u32) mod 512"
    by simp_all
  from readseg_loads [OF demo_disk_serves this] obtain m' d' where
    r: "readseg (demo_disk (\<lambda>s i. of_nat i)) 0x10004 8 4 ((\<lambda>_. 0), 0) = Some (m', d')"
      "\<forall>i < unat (8 :: u32). m' (0x10004 + of_nat i) = of_nat ((unat (4 :: u32) + i) mod 512)" by blast
  have "m' 0x10005 = 5" using r(2) [rule_format, of 1] by simp
  thus ?thesis using r(1) by blast
qed

end
