(* ===== verification/Spec2Isabelle.thy ===== *)
theory Spec2Isabelle
  imports Jos_Init Jos_EntryPgdir Jos_Boot
begin

text \<open>
  A verification library for JOS, the teaching kernel under \<open>src/jos-code-with-comments\<close>. File names below
  are relative to that directory.

  \<^bold>\<open>The program.\<close> The boot loader (\<open>boot/main.c\<close>) reads the kernel image from the disk and jumps to it. The
  kernel detects its memory, builds the array of physical pages and its free list, maps them by two-level page
  tables (\<open>kern/pmap.c\<close>), creates environments, which are processes with an address space of their own, loads
  programs into them and runs them (\<open>kern/env.c\<close>). Traps come back through the interrupt descriptor table
  (\<open>kern/trap.c\<close>, \<open>kern/syscall.c\<close>) and end in the monitor (\<open>kern/monitor.c\<close>), which talks to the
  user through the console (\<open>kern/console.c\<close>) and prints stack frames with debugging information
  (\<open>kern/kdebug.c\<close>). Kernel and user programs share string routines, formatted output and line input
  (\<open>lib/\<close>); user programs enter the kernel through \<open>lib/syscall.c\<close>.

  \<^bold>\<open>Theories\<close>, in the order they import each other:

  \<^item> \<open>Jos_Prelude\<close>: machine integers, results of code that may panic, lemmas on words and lists.
  \<^item> \<open>Jos_Mmu\<close>: \<open>inc/types.h\<close>, \<open>inc/mmu.h\<close>, \<open>inc/memlayout.h\<close>: rounding, parts of a linear address, descriptors, constants.
  \<^item> \<open>Jos_Mem\<close>: a byte memory and the memory routines of \<open>lib/string.c\<close> in the variant with string instructions.
  \<^item> \<open>Jos_Str\<close>: the string routines of \<open>lib/string.c\<close> and \<open>strtol\<close>.
  \<^item> \<open>Jos_PageAlloc\<close>: \<open>kern/pmap.h\<close>, \<open>kern/kclock.c\<close> and the physical pages of \<open>kern/pmap.c\<close>. The record \<open>kern\<close> holds the
    globals of \<open>kern/pmap.c\<close>; a pointer into \<open>pages\<close> is an index.
  \<^item> \<open>Jos_PageTable\<close>: the page tables of \<open>kern/pmap.c\<close>, in the byte memory of the kernel, and the translations that
    the processor may have cached.
  \<^item> \<open>Jos_Env\<close>: \<open>kern/env.c\<close> with \<open>inc/env.h\<close>, \<open>inc/elf.h\<close>, the frames of \<open>inc/trap.h\<close>, and \<open>user_mem_check\<close>. The
    record \<open>ekern\<close> adds the table of environments, its free list, \<open>curenv\<close>, the descriptor table and \<open>cr3\<close>.
  \<^item> \<open>Jos_Printfmt\<close>: \<open>lib/printfmt.c\<close> with the output functions of \<open>kern/printf.c\<close> and \<open>lib/printf.c\<close>.
  \<^item> \<open>Jos_Console\<close>: \<open>kern/console.c\<close> with \<open>inc/kbdreg.h\<close>, over a bus of ports that is a parameter.
  \<^item> \<open>Jos_Kdebug\<close>: \<open>kern/kdebug.c\<close> with \<open>inc/stab.h\<close>.
  \<^item> \<open>Jos_Trap\<close>: \<open>kern/trap.c\<close>, \<open>kern/syscall.c\<close>, \<open>env_destroy\<close>, and the stubs of \<open>lib/syscall.c\<close>. The record \<open>tkern\<close>
    adds the descriptor tables and the task state to \<open>ekern\<close>.
  \<^item> \<open>Jos_Monitor\<close>: \<open>kern/monitor.c\<close> and \<open>lib/readline.c\<close>.
  \<^item> \<open>Jos_Boot\<close>: \<open>boot/main.c\<close>, over a disk that is a parameter.
  \<^item> \<open>Jos_Checks\<close>: the tests of \<open>kern/pmap.c\<close> that run at boot time, as programs on the record \<open>kern\<close>; \<open>Jos_Outside\<close>: what the page
    table operations leave alone in memory; \<open>Jos_CheckPage\<close>, \<open>Jos_CheckAlloc\<close>, \<open>Jos_CheckInstalled\<close>: \<open>check_page\<close>,
    \<open>check_page_free_list\<close> with \<open>check_page_alloc\<close>, and \<open>check_page_installed_pgdir\<close> pass.
  \<^item> \<open>Jos_BootMap\<close>: the regions that \<open>mem_init\<close> maps and \<open>check_kern_pgdir\<close>; \<open>Jos_MemInit\<close>: \<open>mem_init\<close> as a whole.
  \<^item> \<open>Jos_EntryPgdir\<close>: \<open>kern/entrypgdir.c\<close>, the translation of the processor, and the change to the tables of \<open>mem_init\<close>.
  \<^item> \<open>Jos_Load\<close>: \<open>load_icode\<close> byte by byte; \<open>Jos_EnvCreate\<close>: \<open>env_create\<close> as a whole; \<open>Jos_Lifecycle\<close>: environments that are created, run,
    write and are freed, as a step relation.
  \<^item> \<open>Jos_Init\<close>: \<open>kern/init.c\<close>, \<open>lib/libmain.c\<close>, \<open>lib/panic.c\<close>. The record \<open>machine\<close> adds the console and \<open>panicstr\<close> to \<open>tkern\<close>, the
    record \<open>image\<close> holds the symbols of the linker.

  A definition has the name of the C function it models; where user library and kernel use the same name it
  carries the prefix \<open>user_\<close> or \<open>kern_\<close>. A loop or a block of a function that has a definition of its own is listed with the
  lines it models.

  \<^bold>\<open>How code is modelled.\<close> Integers are words of their width; signed comparisons are written as such. Memory is a
  function from addresses to bytes, so that page tables, the cleared pages and the ELF images that the code reads
  and writes are the bytes it reads and writes. A function that may panic or fault returns a sum, with the panic or fault on the left.
  A loop that ends only when memory, a device or the user makes it end is a \<open>partial_function\<close>, whose value \<open>None\<close>
  stands for not returning; properties of such a loop state that it returns. Other loops are structural or come with a
  termination proof. Fuel occurs in \<open>load_phdrs\<close> (the number of program headers, which is the number
  of rounds the loop makes) and in \<open>words_of\<close>, a specification (the length of the line, of which every word takes a character).

  \<^bold>\<open>What the lemmas show.\<close>

  \<^item> Pages: the invariant \<open>frees\<close> (the free list is a list of distinct, unreferenced pages) is established by \<open>page_init\<close> and
    kept by \<open>page_alloc\<close>, \<open>page_free\<close>, \<open>page_decref\<close>, each with what it does on every branch, panics included.
  \<^item> Page tables: the invariant \<open>aspace\<close> relates tables, mappings and reference counts. \<open>pgdir_walk\<close>, \<open>page_insert\<close>, \<open>page_lookup\<close> and
    \<open>page_remove\<close> are specified by their effect on the mapping as a whole: one address changes, all others stay.
  \<^item> Environments: \<open>env_alloc\<close>, \<open>region_alloc\<close>, \<open>env_run\<close> and \<open>env_free\<close> keep both invariants; freeing gives back every
    reference; an identifier does not survive its environment.
  \<^item> Strings and output: each routine against a function on lists; termination of the formatter on every input; the
    locale \<open>sink_hom\<close> shows that a sink sees the same characters in the same order whatever it does with them.
  \<^item> Console: the circular buffer refines a queue; \<open>getchar\<close> returns; the cursor stays on the screen.
  \<^item> Debugging information: the search brackets the address.
  \<^item> Traps: gates and privileges after \<open>trap_init\<close>; a trap destroys the environment that raised it and no other; a system call
    destroys only what its caller may destroy.
  \<^item> Monitor: reading, splitting and lookup of a command line against functions on lists of keys and characters.
  \<^item> Boot loader: a segment arrives at its place and nothing else changes.
  \<^item> Boot-time tests: each passes on every state with sound invariants and gives back what it took, so that they check nothing that the
    lemmas do not show; \<open>mem_init\<close> returns on machines with 4 MB to 256 MB of memory in whole 2 MB, with the maps of \<open>inc/memlayout.h\<close>,
    and panics when the array of pages does not fill its last page.
  \<^item> First page tables: what they map, and that loading the new directory does not move the kernel.
  \<^item> Loading: under the invariant \<open>loading\<close> the user part of memory is a function from addresses to bytes; after \<open>env_create\<close> it is
    the program, and no page that was in use before is touched.
  \<^item> Isolation: by induction over the steps, the invariant \<open>sys_ok\<close> (live environments own disjoint pages, none of them free) holds in every
    reachable state, and an environment's memory changes only by its own steps. The locale \<open>isolated\<close> carries the induction; the
    locales \<open>page_allocator\<close> and \<open>address_space\<close> do the same for sequences of allocations and of insertions and removals.
  \<^item> Start: \<open>i386_init\<close> ends in the first environment, in a state that satisfies \<open>sys_ok\<close>; its first trap ends it; a panic is reported once.

  \<^bold>\<open>Bounds.\<close> Pages are below 0x10000 (256 MB), the size of the kernel's window: above it \<open>KADDR\<close> wraps around. The tests and maps of
  \<open>mem_init\<close> take at most 67 pages, which is why \<open>bootable\<close> asks for 71 below 4 MB. \<open>program_ok\<close> asks for two free pages per
  page of a program, the second for a page table.

  \<^bold>\<open>Not modelled.\<close> Assembly (\<open>boot/boot.S\<close>, \<open>kern/entry.S\<close>, \<open>kern/trapentry.S\<close>, \<open>lib/entry.S\<close>, the wrappers of \<open>inc/x86.h\<close>): the
  state in which it enters C is a hypothesis. The test programs in \<open>user/\<close> and \<open>fs/\<close>: they are arguments of the loader. The
  messages of functions whose purpose is another, as those of \<open>mem_init\<close> and \<open>env_alloc\<close>. The stack of the kernel: the frames that
  \<open>mon_backtrace\<close> walks are a parameter. Overflow of field width and precision in a format. \<open>kern/picirq.c\<close> and \<open>kern/sched.c\<close>, which the
  build files name, are not in the repository.
\<close>

end
